theory Spec2Isabelle
  imports Main "HOL-Library.Word"
begin

unbundle bit_operations_syntax

section \<open>Machine integers and checked arithmetic\<close>

type_synonym u8 = "8 word"
type_synonym u16 = "16 word"
type_synonym u32 = "32 word"
type_synonym u64 = "64 word"

text \<open>
  \<^verbatim>\<open>__builtin_mul_overflow\<close> and \<^verbatim>\<open>__builtin_add_overflow\<close> on \<^verbatim>\<open>uint64_t\<close>: the flag
  says that the exact result does not fit 64 bits; the stored result is the wrapped one,
  which is what \<open>*\<close> and \<open>+\<close> on \<^typ>\<open>u64\<close> compute.
\<close>

lemma unat_lt_2_64: "unat (w :: u64) < 2 ^ 64"
  using unsigned_less [of w, where 'a = nat] by simp

definition mul_overflow :: "u64 \<Rightarrow> u64 \<Rightarrow> bool" where
  "mul_overflow a b = (2 ^ 64 \<le> unat a * unat b)"

definition add_overflow :: "u64 \<Rightarrow> u64 \<Rightarrow> bool" where
  "add_overflow a b = (2 ^ 64 \<le> unat a + unat b)"

section \<open>Volumes and the disk primitive\<close>

text \<open>
  The ways a call can end without returning: \<^verbatim>\<open>panic\<close>, a division by zero, a read
  through a null pointer, a read outside a buffer, or \<^verbatim>\<open>__builtin_unreachable\<close>.
\<close>

datatype fault = Panic | DivideByZero | NullPointer | OutOfBounds | Unreachable

datatype cache_state = CACHE_NOT_READY | CACHE_READY

type_synonym guid = "u8 list"

text \<open>
  \<^verbatim>\<open>struct volume\<close>. Its declaration (lib/part.h) is not among the sources; the fields
  are the ones part.c reads and writes. \<open>sector_size\<close> and \<open>fastest_xfer_size\<close> are
  held at the 64-bit width the arithmetic of \<^verbatim>\<open>volume_read\<close> converts them to. The
  firmware handles and the \<^verbatim>\<open>backing_dev\<close> pointer are opaque to every function modelled
  here and are left out. The cache buffer is a byte-addressed memory region; \<open>None\<close> is
  the null pointer.
\<close>

record volume =
  pxe :: bool
  fastest_xfer_size :: u64
  index :: int
  is_optical :: bool
  partition :: int
  sector_size :: u64
  first_sect :: u64
  sect_count :: u64
  cache_status :: cache_state
  cache :: "(nat \<Rightarrow> u8) option"
  cached_block :: u64
  guid_valid :: bool
  guid :: guid
  part_guid_valid :: bool
  part_guid :: guid
  fslabel_valid :: bool
  fslabel :: string

datatype disk_status = DISK_SUCCESS | DISK_NO_MEDIA | DISK_FAILURE

text \<open>
  \<^verbatim>\<open>disk_read_sectors(volume, buf, sector, count)\<close> is external (drivers/disk.h). It is a
  parameter of the model: given the buffer, the first sector and the sector count it
  returns a status and the buffer as the transfer left it.
\<close>

type_synonym disk = "(nat \<Rightarrow> u8) \<Rightarrow> u64 \<Rightarrow> u64 \<Rightarrow> disk_status \<times> (nat \<Rightarrow> u8)"

text \<open>\<^verbatim>\<open>ext_mem_alloc\<close> hands out zero-filled memory.\<close>

definition ext_mem_alloc :: "nat \<Rightarrow> u8" where
  "ext_mem_alloc = (\<lambda>_. 0)"

section \<open>The volume byte reader and its one-block cache\<close>

text \<open>
  The retry loop of \<^verbatim>\<open>cache_block\<close>: \<^verbatim>\<open>DISK_NO_MEDIA\<close> gives up, \<^verbatim>\<open>DISK_SUCCESS\<close> leaves
  the loop, anything else retries with one sector less until the size reaches 0.
\<close>

function disk_retry :: "disk \<Rightarrow> (nat \<Rightarrow> u8) \<Rightarrow> u64 \<Rightarrow> u64 \<Rightarrow> bool \<times> (nat \<Rightarrow> u8)" where
  "disk_retry d buf read_sector xfer_size =
     (case d buf read_sector xfer_size of
        (DISK_NO_MEDIA, buf') \<Rightarrow> (False, buf')
      | (DISK_SUCCESS, buf') \<Rightarrow> (True, buf')
      | (DISK_FAILURE, buf') \<Rightarrow>
          (if xfer_size - 1 = 0 then (False, buf')
           else disk_retry d buf' read_sector (xfer_size - 1)))"
  by pat_completeness auto
termination
proof (relation "measure (\<lambda>(d, buf, read_sector, xfer_size). unat (xfer_size - 1))")
  show "wf (measure (\<lambda>(d, buf, read_sector, xfer_size). unat (xfer_size - 1)))"
    by simp
next
  fix d :: disk and buf read_sector and xfer_size :: u64 and x y buf'
  have dec: "unat (w - 1) < unat w" if "w \<noteq> 0" for w :: u64
    using that by (simp add: unat_minus_one unat_gt_0)
  assume "xfer_size - 1 \<noteq> 0"
  then have "unat (xfer_size - 1 - 1) < unat (xfer_size - 1)"
    by (rule dec)
  then show "((d, buf', read_sector, xfer_size - 1), d, buf, read_sector, xfer_size)
      \<in> measure (\<lambda>(d, buf, read_sector, xfer_size). unat (xfer_size - 1))"
    by simp
qed

declare disk_retry.simps [simp del]

definition cache_block :: "disk \<Rightarrow> volume \<Rightarrow> u64 \<Rightarrow> fault + (bool \<times> volume)" where
  "cache_block d v block =
     (if cache_status v = CACHE_READY \<and> block = cached_block v then Inr (True, v)
      else
        let buf = (case cache v of None \<Rightarrow> ext_mem_alloc | Some c \<Rightarrow> c);
            v' = v\<lparr>cache_status := CACHE_NOT_READY, cache := Some buf\<rparr>
        in if sector_size v div 512 = 0 then Inl DivideByZero
           else if first_sect v mod (sector_size v div 512) \<noteq> 0 then Inr (False, v')
           else if mul_overflow block (fastest_xfer_size v) then Inr (False, v')
           else if add_overflow (first_sect v div (sector_size v div 512))
                     (block * fastest_xfer_size v) then Inr (False, v')
           else
             (case disk_retry d buf
                     (first_sect v div (sector_size v div 512) + block * fastest_xfer_size v)
                     (fastest_xfer_size v) of
                (False, buf') \<Rightarrow> Inr (False, v'\<lparr>cache := Some buf'\<rparr>)
              | (True, buf') \<Rightarrow>
                  Inr (True, v'\<lparr>cache := Some buf', cache_status := CACHE_READY,
                                 cached_block := block\<rparr>)))"

text \<open>The bytes \<^verbatim>\<open>memcpy(buffer + progress, &volume->cache[offset], chunk)\<close> copies.\<close>

definition cache_bytes :: "(nat \<Rightarrow> u8) \<Rightarrow> u64 \<Rightarrow> u64 \<Rightarrow> u8 list" where
  "cache_bytes c offset chunk = map c [unat offset ..< unat offset + unat chunk]"

definition chunk_size :: "u64 \<Rightarrow> u64 \<Rightarrow> u64 \<Rightarrow> u64 \<Rightarrow> u64" where
  "chunk_size loc count block_size progress =
     (if count - progress > block_size - (loc + progress) mod block_size
      then block_size - (loc + progress) mod block_size
      else count - progress)"

lemma chunk_size_bounds:
  assumes "progress < count" "block_size \<noteq> 0"
  shows "0 < unat (chunk_size loc count block_size progress)"
    and "unat (chunk_size loc count block_size progress) \<le> unat count - unat progress"
    and "unat ((loc + progress) mod block_size) + unat (chunk_size loc count block_size progress)
           \<le> unat block_size"
proof -
  let ?off = "(loc + progress) mod block_size"
  have off: "unat ?off < unat block_size"
    using assms(2) by (simp add: unat_mod unat_gt_0)
  have d1: "unat (block_size - ?off) = unat block_size - unat ?off"
    using off by (simp add: unat_sub word_le_nat_alt)
  have d2: "unat (count - progress) = unat count - unat progress"
    using assms(1) by (simp add: unat_sub word_le_nat_alt word_less_nat_alt)
  have lt: "unat progress < unat count"
    using assms(1) by (simp add: word_less_nat_alt)
  show "0 < unat (chunk_size loc count block_size progress)"
    using off d1 d2 lt by (simp add: chunk_size_def)
  show "unat (chunk_size loc count block_size progress) \<le> unat count - unat progress"
    using off d1 d2 lt by (simp add: chunk_size_def word_less_nat_alt)
  show "unat ?off + unat (chunk_size loc count block_size progress) \<le> unat block_size"
    using off d1 d2 lt by (auto simp add: chunk_size_def word_less_nat_alt)
qed

lemma progress_advance:
  assumes "progress < count" "block_size \<noteq> 0"
  shows "unat (progress + chunk_size loc count block_size progress)
           = unat progress + unat (chunk_size loc count block_size progress)"
proof -
  have "unat progress + unat (chunk_size loc count block_size progress) \<le> unat count"
    using chunk_size_bounds(2) [OF assms, of loc] assms(1)
    by (simp add: word_less_nat_alt)
  also have "unat count < 2 ^ 64"
    by (rule unat_lt_2_64)
  finally show ?thesis
    by (simp add: unat_add_lem [THEN iffD1])
qed

text \<open>
  The body of \<^verbatim>\<open>volume_read\<close> after the range check: one iteration per block touched.
  The result is the success flag, the bytes copied to the caller's buffer so far, and the
  volume with its cache as the call left it.
\<close>

function volume_read_loop ::
  "disk \<Rightarrow> volume \<Rightarrow> u64 \<Rightarrow> u64 \<Rightarrow> u64 \<Rightarrow> u64 \<Rightarrow> fault + (bool \<times> u8 list \<times> volume)" where
  "volume_read_loop d v loc count block_size progress =
     (if progress < count then
        (if block_size = 0 then Inl DivideByZero
         else
           (case cache_block d v ((loc + progress) div block_size) of
              Inl f \<Rightarrow> Inl f
            | Inr (False, v') \<Rightarrow> Inr (False, [], v')
            | Inr (True, v') \<Rightarrow>
                (case cache v' of
                   None \<Rightarrow> Inl NullPointer
                 | Some c \<Rightarrow>
                     (case volume_read_loop d v' loc count block_size
                             (progress + chunk_size loc count block_size progress) of
                        Inl f \<Rightarrow> Inl f
                      | Inr (ok, bytes, v'') \<Rightarrow>
                          Inr (ok, cache_bytes c ((loc + progress) mod block_size)
                                     (chunk_size loc count block_size progress) @ bytes, v'')))))
      else Inr (True, [], v))"
  by pat_completeness auto
termination
proof (relation "measure (\<lambda>(d, v, loc, count, block_size, progress). unat count - unat progress)")
  show "wf (measure (\<lambda>(d, v, loc, count, block_size, progress). unat count - unat progress))"
    by simp
next
  fix d :: disk and v v' :: volume and loc count block_size progress :: u64
  assume a: "progress < count" "block_size \<noteq> 0"
  have "unat progress < unat count"
    using a(1) by (simp add: word_less_nat_alt)
  then have "unat count - unat (progress + chunk_size loc count block_size progress)
               < unat count - unat progress"
    using progress_advance [OF a, of loc] chunk_size_bounds(1,2) [OF a, of loc]
    by simp
  then show "((d, v', loc, count, block_size, progress + chunk_size loc count block_size progress),
              d, v, loc, count, block_size, progress)
      \<in> measure (\<lambda>(d, v, loc, count, block_size, progress). unat count - unat progress)"
    by simp
qed

declare volume_read_loop.simps [simp del]

definition volume_read :: "disk \<Rightarrow> volume \<Rightarrow> u64 \<Rightarrow> u64 \<Rightarrow> fault + (bool \<times> u8 list \<times> volume)" where
  "volume_read d v loc count =
     (if pxe v then Inl Panic
      else if sect_count v \<noteq> - 1 \<and> mul_overflow (sect_count v) (sector_size v)
        then Inr (False, [], v)
      else if sect_count v \<noteq> - 1 \<and>
              (loc \<ge> sect_count v * sector_size v \<or> count > sect_count v * sector_size v - loc)
        then Inr (False, [], v)
      else volume_read_loop d v loc count (fastest_xfer_size v * sector_size v) 0)"

text \<open>
  The reference reader of the spec's read-range property: \<open>n\<close> successive 1-byte
  \<^verbatim>\<open>volume_read\<close> calls starting at \<open>loc\<close>, each on the volume as the previous call left
  it, stopping at the first call that fails.
\<close>

fun volume_read_bytes :: "disk \<Rightarrow> volume \<Rightarrow> u64 \<Rightarrow> nat \<Rightarrow> fault + (bool \<times> u8 list \<times> volume)" where
  "volume_read_bytes d v loc 0 = Inr (True, [], v)"
| "volume_read_bytes d v loc (Suc n) =
     (case volume_read d v loc 1 of
        Inl f \<Rightarrow> Inl f
      | Inr (False, b, v') \<Rightarrow> Inr (False, [], v')
      | Inr (True, b, v') \<Rightarrow>
          (case volume_read_bytes d v' (loc + 1) n of
             Inl f \<Rightarrow> Inl f
           | Inr (ok, bytes, v'') \<Rightarrow> Inr (ok, b @ bytes, v'')))"

text \<open>
  The cacheless byte-wise reference reader of the spec's cache-transparency property,
  written from the spec's words and not from the code: it has no cache. Byte \<open>loc\<close> of the
  volume is fetched by a transfer of the one sector that holds it into fresh memory, and
  \<open>n\<close> bytes are fetched one after the other.
\<close>

definition uncached_byte :: "disk \<Rightarrow> volume \<Rightarrow> u64 \<Rightarrow> u8 option" where
  "uncached_byte d v loc =
     (case d ext_mem_alloc (first_sect v div (sector_size v div 512) + loc div sector_size v) 1 of
        (DISK_SUCCESS, buf) \<Rightarrow> Some (buf (unat (loc mod sector_size v)))
      | (DISK_NO_MEDIA, buf) \<Rightarrow> None
      | (DISK_FAILURE, buf) \<Rightarrow> None)"

fun cacheless_read :: "disk \<Rightarrow> volume \<Rightarrow> u64 \<Rightarrow> nat \<Rightarrow> u8 list option" where
  "cacheless_read d v loc 0 = Some []"
| "cacheless_read d v loc (Suc n) =
     (case uncached_byte d v loc of
        None \<Rightarrow> None
      | Some b \<Rightarrow>
          (case cacheless_read d v (loc + 1) n of
             None \<Rightarrow> None
           | Some bytes \<Rightarrow> Some (b # bytes)))"

text \<open>Two states of one volume: everything but the three cache fields agrees.\<close>

definition same_device :: "volume \<Rightarrow> volume \<Rightarrow> bool" where
  "same_device v v' =
     (v' = v\<lparr>cache_status := cache_status v', cache := cache v', cached_block := cached_block v'\<rparr>)"

text \<open>
  \<open>sect_count \<times> sector_size\<close> as a number, and the byte ranges \<^verbatim>\<open>volume_read\<close> does not
  reject: \<open>n\<close> bytes at \<open>loc\<close> that do not run past \<open>2\<^sup>6\<^sup>4\<close> and, when the size is known,
  start inside it and do not run past it.
\<close>

definition part_size :: "volume \<Rightarrow> nat" where
  "part_size v = unat (sect_count v) * unat (sector_size v)"

definition readable :: "volume \<Rightarrow> u64 \<Rightarrow> nat \<Rightarrow> bool" where
  "readable v loc n =
     (unat loc + n \<le> 2 ^ 64 \<and>
      (sect_count v = - 1 \<or>
       (part_size v < 2 ^ 64 \<and> unat loc < part_size v \<and> unat loc + n \<le> part_size v)))"

subsection \<open>Arithmetic inside one block\<close>

lemma nat_step_same_block:
  fixes a b :: nat
  assumes "a mod b + 1 < b"
  shows "(a + 1) div b = a div b" "(a + 1) mod b = a mod b + 1"
proof -
  have "a + 1 = (a div b) * b + (a mod b + 1)" by simp
  then show "(a + 1) div b = a div b" using assms
    by (metis add.commute div_mult_self3 div_less add_cancel_right_right less_nat_zero_code)
  show "(a + 1) mod b = a mod b + 1" using assms
    by (metis mod_add_left_eq mod_less)
qed

lemma word_step_same_block:
  fixes loc bs :: u64
  assumes "unat (loc mod bs) + 1 < unat bs" "unat loc + 1 < 2 ^ 64"
  shows "(loc + 1) div bs = loc div bs" "unat ((loc + 1) mod bs) = unat (loc mod bs) + 1"
proof -
  have s: "unat (loc + 1) = unat loc + 1"
    using assms(2) by (simp add: unat_add_lem [THEN iffD1])
  have m: "unat loc mod unat bs + 1 < unat bs"
    using assms(1) by (simp add: unat_mod)
  have "unat ((loc + 1) div bs) = unat (loc div bs)"
    using nat_step_same_block(1) [OF m] by (simp add: unat_div s)
  then show "(loc + 1) div bs = loc div bs"
    by (simp add: word_unat_eq_iff)
  show "unat ((loc + 1) mod bs) = unat (loc mod bs) + 1"
    using nat_step_same_block(2) [OF m] by (simp add: unat_mod s)
qed

lemma chunk_size_one: "bs \<noteq> 0 \<Longrightarrow> chunk_size loc 1 bs 0 = 1"
proof -
  assume a: "bs \<noteq> 0"
  have "unat (loc mod bs) < unat bs"
    using a by (simp add: unat_mod unat_gt_0)
  then have "unat (bs - loc mod bs) = unat bs - unat (loc mod bs)"
    by (simp add: unat_sub word_le_nat_alt)
  then have "\<not> 1 > bs - loc mod bs"
    using \<open>unat (loc mod bs) < unat bs\<close> by (simp add: word_less_nat_alt)
  then show ?thesis by (simp add: chunk_size_def)
qed

subsection \<open>What a call leaves of the volume\<close>

lemma same_device_refl: "same_device v v"
  by (simp add: same_device_def)

lemma same_device_fields:
  assumes "same_device v v'"
  shows "pxe v' = pxe v" "fastest_xfer_size v' = fastest_xfer_size v"
    "sector_size v' = sector_size v" "first_sect v' = first_sect v"
    "sect_count v' = sect_count v" "index v' = index v" "is_optical v' = is_optical v"
    "partition v' = partition v"
  using assms unfolding same_device_def
  by (cases v; cases v'; simp)+

lemma same_device_trans: "same_device a b \<Longrightarrow> same_device b c \<Longrightarrow> same_device a c"
  unfolding same_device_def by (cases a; cases b; cases c; simp)

lemma cache_block_same_device: "cache_block d v b = Inr (ok, v') \<Longrightarrow> same_device v v'"
  by (auto simp: cache_block_def same_device_def Let_def split: if_splits prod.splits bool.splits)

lemma cache_block_ready:
  "cache_block d v b = Inr (True, v') \<Longrightarrow> cache_status v' = CACHE_READY \<and> cached_block v' = b"
  by (auto simp: cache_block_def Let_def split: if_splits prod.splits bool.splits)

lemma cache_block_hit:
  "cache_status v = CACHE_READY \<Longrightarrow> cached_block v = b \<Longrightarrow> cache_block d v b = Inr (True, v)"
  by (simp add: cache_block_def)

lemma readable_same_device: "same_device v v' \<Longrightarrow> readable v' loc n = readable v loc n"
  by (simp add: readable_def part_size_def same_device_fields)

lemma readable_first: "readable v loc n \<Longrightarrow> 0 < n \<Longrightarrow> readable v loc 1"
  by (auto simp: readable_def)

lemma readable_sub:
  assumes "readable v loc n" "unat k + m \<le> n" "unat k < n"
  shows "unat (loc + k) = unat loc + unat k" "readable v (loc + k) m"
proof -
  show s: "unat (loc + k) = unat loc + unat k"
    using assms by (simp add: readable_def unat_add_lem [THEN iffD1])
  show "readable v (loc + k) m"
    using assms s by (auto simp: readable_def)
qed

lemma range_check_passes:
  assumes "readable v loc (unat count)" "sect_count v \<noteq> - 1"
  shows "\<not> mul_overflow (sect_count v) (sector_size v)"
    and "\<not> (loc \<ge> sect_count v * sector_size v \<or> count > sect_count v * sector_size v - loc)"
proof -
  have r: "part_size v < 2 ^ 64" "unat loc < part_size v" "unat loc + unat count \<le> part_size v"
    using assms by (simp_all add: readable_def)
  have p: "unat (sect_count v * sector_size v) = part_size v"
    using r(1) by (simp add: part_size_def unat_mult_lem [THEN iffD1])
  show "\<not> mul_overflow (sect_count v) (sector_size v)"
    using r(1) by (simp add: part_size_def mul_overflow_def)
  have "unat (sect_count v * sector_size v - loc) = part_size v - unat loc"
    using r p by (simp add: unat_sub word_le_nat_alt)
  then show "\<not> (loc \<ge> sect_count v * sector_size v \<or> count > sect_count v * sector_size v - loc)"
    using r p by (auto simp add: word_le_nat_alt word_less_nat_alt)
qed

lemma volume_read_readable:
  assumes "readable v loc (unat count)" "\<not> pxe v"
  shows "volume_read d v loc count =
           volume_read_loop d v loc count (fastest_xfer_size v * sector_size v) 0"
  using range_check_passes [OF assms(1)] assms(2)
  by (cases "sect_count v = - 1") (simp_all add: volume_read_def)

subsection \<open>One byte, and the bytes of one block\<close>

lemma read_one_byte:
  assumes "bs \<noteq> 0"
  shows "volume_read_loop d v loc 1 bs 0 =
     (case cache_block d v (loc div bs) of
        Inl f \<Rightarrow> Inl f
      | Inr (False, v') \<Rightarrow> Inr (False, [], v')
      | Inr (True, v') \<Rightarrow>
          (case cache v' of None \<Rightarrow> Inl NullPointer
           | Some c \<Rightarrow> Inr (True, [c (unat (loc mod bs))], v')))"
proof -
  have t: "volume_read_loop d v' loc 1 bs 1 = Inr (True, [], v')" for v'
    by (subst volume_read_loop.simps) simp
  show ?thesis
    by (subst volume_read_loop.simps)
      (simp add: assms chunk_size_one t cache_bytes_def split: sum.splits prod.splits bool.splits option.splits)
qed

lemma volume_read_one:
  assumes "readable v loc 1" "\<not> pxe v" "fastest_xfer_size v * sector_size v \<noteq> 0"
  shows "volume_read d v loc 1 =
     (case cache_block d v (loc div (fastest_xfer_size v * sector_size v)) of
        Inl f \<Rightarrow> Inl f
      | Inr (False, v') \<Rightarrow> Inr (False, [], v')
      | Inr (True, v') \<Rightarrow>
          (case cache v' of None \<Rightarrow> Inl NullPointer
           | Some c \<Rightarrow> Inr (True, [c (unat (loc mod (fastest_xfer_size v * sector_size v)))], v')))"
  using volume_read_readable [of v loc 1 d] assms read_one_byte [OF assms(3)] by simp

lemma volume_read_bytes_hit:
  assumes "\<not> pxe v" "cache_status v = CACHE_READY" "cache v = Some c"
    and "bs = fastest_xfer_size v * sector_size v" "bs \<noteq> 0"
  shows "cached_block v = loc div bs \<Longrightarrow> unat (loc mod bs) + n \<le> unat bs \<Longrightarrow>
         readable v loc n \<Longrightarrow>
         volume_read_bytes d v loc n
           = Inr (True, map c [unat (loc mod bs) ..< unat (loc mod bs) + n], v)"
proof (induction n arbitrary: loc)
  case 0
  then show ?case by simp
next
  case (Suc n)
  have w: "readable v loc 1"
    using Suc.prems(3) by (rule readable_first) simp
  have one: "volume_read d v loc 1 = Inr (True, [c (unat (loc mod bs))], v)"
    using volume_read_one [OF w assms(1), of d] assms(2,3,4,5) Suc.prems(1)
    by (simp add: cache_block_hit)
  show ?case
  proof (cases n)
    case 0
    then show ?thesis using one by simp
  next
    case (Suc m)
    have r: "unat (loc + 1) = unat loc + unat (1 :: u64)" "readable v (loc + 1) n"
      using readable_sub [OF Suc.prems(3), of 1 n] Suc by simp_all
    have a: "unat (loc mod bs) + 1 < unat bs" "unat loc + 1 < 2 ^ 64"
      using Suc Suc.prems(2) r(1) unat_lt_2_64 [of "loc + 1"] by simp_all
    have "volume_read_bytes d v (loc + 1) n
           = Inr (True, map c [unat ((loc + 1) mod bs) ..< unat ((loc + 1) mod bs) + n], v)"
      using Suc.prems word_step_same_block [OF a] r
      by (intro Suc.IH) simp_all
    moreover have "map c [unat (loc mod bs) ..< unat (loc mod bs) + Suc n]
        = c (unat (loc mod bs)) # map c [unat (loc mod bs) + 1 ..< unat (loc mod bs) + 1 + n]"
      by (subst upt_conv_Cons) simp_all
    ultimately show ?thesis
      using one word_step_same_block(2) [OF a]
      by (simp del: upt_Suc)
  qed
qed

lemma volume_read_bytes_append:
  "volume_read_bytes d v loc (a + b) =
     (case volume_read_bytes d v loc a of
        Inl f \<Rightarrow> Inl f
      | Inr (False, x, v') \<Rightarrow> Inr (False, x, v')
      | Inr (True, x, v') \<Rightarrow>
          (case volume_read_bytes d v' (loc + of_nat a) b of
             Inl f \<Rightarrow> Inl f
           | Inr (ok, y, v'') \<Rightarrow> Inr (ok, x @ y, v'')))"
proof (induction a arbitrary: v loc)
  case 0
  then show ?case by (simp split: sum.splits prod.splits)
next
  case (Suc a)
  have e: "loc + 1 + of_nat a = loc + (1 + of_nat a)" by simp
  show ?case
    by (auto simp add: Suc.IH e split: sum.splits prod.splits bool.splits)
qed

lemma first_chunk:
  assumes "\<not> pxe v" "bs = fastest_xfer_size v * sector_size v" "bs \<noteq> 0"
    and "progress < count" "readable v loc (unat count)"
    and cb: "cache_block d v ((loc + progress) div bs) = Inr (True, v')"
    and c: "cache v' = Some c"
  shows "volume_read_bytes d v (loc + progress) (unat (chunk_size loc count bs progress))
           = Inr (True, cache_bytes c ((loc + progress) mod bs) (chunk_size loc count bs progress), v')"
proof -
  let ?l = "loc + progress"
  let ?k = "unat (chunk_size loc count bs progress)"
  note b = chunk_size_bounds [OF assms(4) assms(3), of loc]
  have lt: "unat progress < unat count"
    using assms(4) by (simp add: word_less_nat_alt)
  have l: "unat ?l = unat loc + unat progress" and rk: "readable v ?l ?k"
    using readable_sub [OF assms(5), of progress ?k] lt b(2) by simp_all
  have w: "readable v ?l 1"
    using rk b(1) by (rule readable_first)
  have sd: "same_device v v'"
    using cb by (rule cache_block_same_device)
  have one: "volume_read d v ?l 1 = Inr (True, [c (unat (?l mod bs))], v')"
    using volume_read_one [OF w assms(1), of d] assms(2,3) cb c by simp
  obtain m where m: "?k = Suc m"
    using b(1) by (cases ?k) simp_all
  show ?thesis
  proof (cases m)
    case 0
    then show ?thesis using one m by (simp add: cache_bytes_def)
  next
    case (Suc j)
    have r: "unat (?l + 1) = unat ?l + unat (1 :: u64)" "readable v (?l + 1) m"
      using readable_sub [OF rk, of 1 m] m Suc by simp_all
    have a: "unat (?l mod bs) + 1 < unat bs" "unat ?l + 1 < 2 ^ 64"
      using Suc m b r(1) unat_lt_2_64 [of "?l + 1"] by simp_all
    have "volume_read_bytes d v' (?l + 1) m
           = Inr (True, map c [unat ((?l + 1) mod bs) ..< unat ((?l + 1) mod bs) + m], v')"
    proof (rule volume_read_bytes_hit)
      show "\<not> pxe v'" using sd assms(1) by (simp add: same_device_fields)
      show "cache_status v' = CACHE_READY" using cache_block_ready [OF cb] by simp
      show "cache v' = Some c" by (rule c)
      show "bs = fastest_xfer_size v' * sector_size v'"
        using sd assms(2) by (simp add: same_device_fields)
      show "bs \<noteq> 0" by (rule assms(3))
      show "cached_block v' = (?l + 1) div bs"
        using cache_block_ready [OF cb] word_step_same_block(1) [OF a] by simp
      show "unat ((?l + 1) mod bs) + m \<le> unat bs"
        using word_step_same_block(2) [OF a] b(3) m by simp
      show "readable v' (?l + 1) m"
        using r(2) sd by (simp add: readable_same_device)
    qed
    moreover have "map c [unat (?l mod bs) ..< unat (?l mod bs) + Suc m]
        = c (unat (?l mod bs)) # map c [unat (?l mod bs) + 1 ..< unat (?l mod bs) + 1 + m]"
      by (subst upt_conv_Cons) simp_all
    ultimately show ?thesis
      using one m word_step_same_block(2) [OF a]
      by (simp add: cache_bytes_def del: upt_Suc)
  qed
qed

lemma loop_eq_bytes:
  assumes "\<not> pxe v0"
  shows "same_device v0 v \<Longrightarrow> bs = fastest_xfer_size v0 * sector_size v0 \<Longrightarrow>
         readable v0 loc (unat count) \<Longrightarrow>
         volume_read_loop d v loc count bs progress
           = volume_read_bytes d v (loc + progress) (unat count - unat progress)"
proof (induction d v loc count bs progress rule: volume_read_loop.induct)
  case (1 d v loc count bs progress)
  note sd = \<open>same_device v0 v\<close>
  have px: "\<not> pxe v" using sd assms(1) by (simp add: same_device_fields)
  have bs: "bs = fastest_xfer_size v * sector_size v"
    using sd "1.prems"(2) by (simp add: same_device_fields)
  have rd: "readable v loc (unat count)"
    using sd "1.prems"(3) by (simp add: readable_same_device)
  show ?case
  proof (cases "progress < count")
    case False
    then have "unat count - unat progress = 0"
      by (simp add: word_less_nat_alt)
    then show ?thesis using False
      by (subst volume_read_loop.simps) simp
  next
    case True
    then have lt: "unat progress < unat count"
      by (simp add: word_less_nat_alt)
    then obtain m where m: "unat count - unat progress = Suc m"
      by (cases "unat count - unat progress") simp_all
    have w: "readable v (loc + progress) 1"
      using readable_sub(2) [OF rd, of progress 1] lt by simp
    show ?thesis
    proof (cases "bs = 0")
      case True
      have "volume_read d v (loc + progress) 1 = Inl DivideByZero"
        using volume_read_readable [of v "loc + progress" 1 d] w px True bs
        by (simp add: volume_read_loop.simps [of d v "loc + progress" 1])
      then show ?thesis using True \<open>progress < count\<close> m
        by (subst volume_read_loop.simps) simp
    next
      case False
      note one = volume_read_one [OF w px, of d, folded bs]
      note b = chunk_size_bounds [OF \<open>progress < count\<close> False, of loc]
      let ?k = "unat (chunk_size loc count bs progress)"
      have split: "unat count - unat progress
                     = ?k + (unat count - unat (progress + chunk_size loc count bs progress))"
        using b(2) lt progress_advance [OF \<open>progress < count\<close> False, of loc] by simp
      show ?thesis
      proof (cases "cache_block d v ((loc + progress) div bs)")
        case (Inl f)
        then show ?thesis using False \<open>progress < count\<close> m one bs
          by (subst volume_read_loop.simps) simp
      next
        case (Inr r)
        obtain ok v' where r: "r = (ok, v')" by (cases r)
        show ?thesis
        proof (cases ok)
          case False
          then show ?thesis using Inr r \<open>bs \<noteq> 0\<close> \<open>progress < count\<close> m one bs
            by (subst volume_read_loop.simps) simp
        next
          case True
          have cb: "cache_block d v ((loc + progress) div bs) = Inr (True, v')"
            using Inr r True by simp
          have sd': "same_device v0 v'"
            using sd cache_block_same_device [OF cb] by (rule same_device_trans)
          show ?thesis
          proof (cases "cache v'")
            case None
            then show ?thesis using cb \<open>bs \<noteq> 0\<close> \<open>progress < count\<close> m one bs
              by (subst volume_read_loop.simps) simp
          next
            case (Some c)
            have ih: "volume_read_loop d v' loc count bs (progress + chunk_size loc count bs progress)
                = volume_read_bytes d v' (loc + (progress + chunk_size loc count bs progress))
                    (unat count - unat (progress + chunk_size loc count bs progress))"
              using "1.IH" [OF \<open>progress < count\<close> \<open>bs \<noteq> 0\<close> cb refl refl Some sd' "1.prems"(2,3)] .
            have fc: "volume_read_bytes d v (loc + progress) ?k
                = Inr (True, cache_bytes c ((loc + progress) mod bs) (chunk_size loc count bs progress), v')"
              using first_chunk [OF px bs \<open>bs \<noteq> 0\<close> \<open>progress < count\<close> rd cb Some] .
            have "volume_read_bytes d v (loc + progress) (unat count - unat progress)
                = (case volume_read_bytes d v' (loc + (progress + chunk_size loc count bs progress))
                          (unat count - unat (progress + chunk_size loc count bs progress)) of
                     Inl f \<Rightarrow> Inl f
                   | Inr (ok, y, v'') \<Rightarrow>
                       Inr (ok, cache_bytes c ((loc + progress) mod bs)
                                  (chunk_size loc count bs progress) @ y, v''))"
              by (subst split, subst volume_read_bytes_append) (simp add: fc add.assoc)
            then show ?thesis
              using cb Some \<open>bs \<noteq> 0\<close> \<open>progress < count\<close> ih
              by (subst volume_read_loop.simps) simp
          qed
        qed
      qed
    qed
  qed
qed

lemma volume_read_eq_bytes:
  assumes "\<not> pxe v" "readable v loc (unat count)"
  shows "volume_read d v loc count = volume_read_bytes d v loc (unat count)"
  using volume_read_readable [OF assms(2,1), of d]
    loop_eq_bytes [OF assms(1) same_device_refl refl assms(2), of d 0]
  by simp

section \<open>Reading a medium that holds fixed bytes\<close>

text \<open>
  A disk primitive that always succeeds and delivers the medium's bytes: sector \<open>s\<close> of
  size \<open>ss\<close> holds the bytes \<open>content (s * ss) ...\<close>. The volume's region starts at byte
  \<open>dev_base\<close> of the medium; \<open>coherent\<close> says that a cache marked ready holds the block it
  names.
\<close>

definition media :: "(nat \<Rightarrow> u8) \<Rightarrow> u64 \<Rightarrow> disk" where
  "media content ss =
     (\<lambda>buf sector n.
        (DISK_SUCCESS,
         (\<lambda>i. if i < unat n * unat ss then content (unat sector * unat ss + i) else buf i)))"

definition dev_base :: "volume \<Rightarrow> nat" where
  "dev_base v = unat (first_sect v div (sector_size v div 512)) * unat (sector_size v)"

definition block_bytes :: "volume \<Rightarrow> nat" where
  "block_bytes v = unat (fastest_xfer_size v) * unat (sector_size v)"

definition coherent :: "(nat \<Rightarrow> u8) \<Rightarrow> volume \<Rightarrow> bool" where
  "coherent content v =
     (cache_status v = CACHE_READY \<longrightarrow>
        (case cache v of
           None \<Rightarrow> False
         | Some c \<Rightarrow>
             (\<forall>i < block_bytes v.
                c i = content (dev_base v + unat (cached_block v) * block_bytes v + i))))"

definition vol_ok :: "volume \<Rightarrow> bool" where
  "vol_ok v =
     (\<not> pxe v \<and> sector_size v div 512 \<noteq> 0 \<and> first_sect v mod (sector_size v div 512) = 0 \<and>
      fastest_xfer_size v \<noteq> 0 \<and> block_bytes v < 2 ^ 64)"

definition device_bytes :: "(nat \<Rightarrow> u8) \<Rightarrow> volume \<Rightarrow> nat \<Rightarrow> nat \<Rightarrow> u8 list" where
  "device_bytes content v loc n = map (\<lambda>i. content (dev_base v + loc + i)) [0 ..< n]"

text \<open>
  The volume after a successful read from such a medium: the cache holds the last block
  the range touched.
\<close>

definition cache_buffer :: "volume \<Rightarrow> nat \<Rightarrow> u8" where
  "cache_buffer v = (case cache v of None \<Rightarrow> ext_mem_alloc | Some c \<Rightarrow> c)"

definition fill_block :: "(nat \<Rightarrow> u8) \<Rightarrow> volume \<Rightarrow> u64 \<Rightarrow> nat \<Rightarrow> u8" where
  "fill_block content v b =
     (\<lambda>i. if i < block_bytes v then content (dev_base v + unat b * block_bytes v + i)
          else cache_buffer v i)"

definition cached :: "(nat \<Rightarrow> u8) \<Rightarrow> volume \<Rightarrow> u64 \<Rightarrow> volume" where
  "cached content v b =
     v\<lparr>cache_status := CACHE_READY, cache := Some (fill_block content v b), cached_block := b\<rparr>"

definition media_after :: "(nat \<Rightarrow> u8) \<Rightarrow> volume \<Rightarrow> u64 \<Rightarrow> u64 \<Rightarrow> volume" where
  "media_after content v loc count =
     (if count = 0 then v
      else cached content v ((loc + count - 1) div (fastest_xfer_size v * sector_size v)))"

text \<open>
  A cache marked ready has a buffer, and the geometry \<^verbatim>\<open>volume_read\<close> divides by is not zero:
  on such a volume no call panics or traps.
\<close>

definition cache_present :: "volume \<Rightarrow> bool" where
  "cache_present v = (cache_status v = CACHE_READY \<longrightarrow> cache v \<noteq> None)"

definition well_formed :: "volume \<Rightarrow> bool" where
  "well_formed v =
     (\<not> pxe v \<and> sector_size v div 512 \<noteq> 0 \<and> fastest_xfer_size v * sector_size v \<noteq> 0 \<and>
      cache_present v)"

text \<open>A small disk used for the concrete instances: byte \<open>i\<close> of the medium is \<open>i mod 256\<close>.\<close>

definition demo_volume :: volume where
  "demo_volume =
     \<lparr>pxe = False, fastest_xfer_size = 2, index = 0, is_optical = False, partition = 0,
      sector_size = 512, first_sect = 0, sect_count = 8, cache_status = CACHE_NOT_READY,
      cache = None, cached_block = 0, guid_valid = False, guid = [], part_guid_valid = False,
      part_guid = [], fslabel_valid = False, fslabel = []\<rparr>"

definition demo_disk :: disk where
  "demo_disk = media (\<lambda>i. of_nat i) 512"

definition misaligned_volume :: volume where
  "misaligned_volume = demo_volume\<lparr>sector_size := 4096, first_sect := 1\<rparr>"

definition whole_disk :: volume where
  "whole_disk = demo_volume\<lparr>sect_count := - 1\<rparr>"

text \<open>
  The volume of \<open>demo_volume\<close> with a cache that is marked ready for block 0 but holds other
  bytes than the medium.
\<close>

definition stale_volume :: volume where
  "stale_volume =
     demo_volume\<lparr>cache_status := CACHE_READY, cache := Some (\<lambda>i. 7), cached_block := 0\<rparr>"

text \<open>The same volume with a cache that holds block 0 of the medium of \<open>demo_disk\<close>.\<close>

definition warm_volume :: volume where
  "warm_volume = cached (\<lambda>i. of_nat i) demo_volume 0"

text \<open>
  A disk that fails every transfer of more than one sector and otherwise delivers the
  medium of \<open>demo_disk\<close>.
\<close>

definition flaky_disk :: disk where
  "flaky_disk = (\<lambda>buf sector n. if n = 1 then demo_disk buf sector n else (DISK_FAILURE, buf))"

lemma vol_ok_same_device: "same_device v v' \<Longrightarrow> vol_ok v' = vol_ok v"
  by (simp add: vol_ok_def block_bytes_def same_device_fields)

lemma dev_base_same_device: "same_device v v' \<Longrightarrow> dev_base v' = dev_base v"
  by (simp add: dev_base_def same_device_fields)

lemma block_bytes_same_device: "same_device v v' \<Longrightarrow> block_bytes v' = block_bytes v"
  by (simp add: block_bytes_def same_device_fields)

lemma disk_retry_media:
  "disk_retry (media content ss) buf sector n =
     (True, (\<lambda>i. if i < unat n * unat ss then content (unat sector * unat ss + i) else buf i))"
  by (subst disk_retry.simps) (simp add: media_def)

lemma vol_ok_block_size:
  assumes "vol_ok v"
  shows "unat (fastest_xfer_size v * sector_size v) = block_bytes v"
    and "fastest_xfer_size v * sector_size v \<noteq> 0" and "0 < unat (sector_size v)"
    and "0 < block_bytes v"
proof -
  show b: "unat (fastest_xfer_size v * sector_size v) = block_bytes v"
    using assms by (simp add: vol_ok_def block_bytes_def unat_mult_lem [THEN iffD1])
  have "sector_size v \<noteq> 0"
    using assms by (auto simp: vol_ok_def)
  then show s: "0 < unat (sector_size v)"
    by (simp add: unat_gt_0)
  have "0 < unat (fastest_xfer_size v)"
    using assms by (simp add: vol_ok_def unat_gt_0)
  then show "0 < block_bytes v"
    using s by (simp add: block_bytes_def)
  then show "fastest_xfer_size v * sector_size v \<noteq> 0"
    using b by (metis less_numeral_extra(3) unat_0)
qed

lemma cache_block_returns:
  assumes "sector_size v div 512 \<noteq> 0" "cache_present v"
  shows "\<exists>ok v'. cache_block d v b = Inr (ok, v') \<and> same_device v v' \<and> cache_present v' \<and>
           (ok \<longrightarrow> cache v' \<noteq> None)"
proof (cases "cache_status v = CACHE_READY \<and> b = cached_block v")
  case True
  then show ?thesis
    using assms by (auto simp add: cache_block_def same_device_refl cache_present_def)
next
  case False
  obtain r buf' where r: "disk_retry d (case cache v of None \<Rightarrow> ext_mem_alloc | Some c \<Rightarrow> c)
              (first_sect v div (sector_size v div 512) + b * fastest_xfer_size v)
              (fastest_xfer_size v) = (r, buf')"
    by (cases "disk_retry d (case cache v of None \<Rightarrow> ext_mem_alloc | Some c \<Rightarrow> c)
              (first_sect v div (sector_size v div 512) + b * fastest_xfer_size v)
              (fastest_xfer_size v)")
  show ?thesis
    using False assms(1) r
    by (cases r) (auto simp add: cache_block_def Let_def same_device_def cache_present_def)
qed

lemma loop_returns:
  "sector_size v div 512 \<noteq> 0 \<Longrightarrow> cache_present v \<Longrightarrow> bs \<noteq> 0 \<Longrightarrow>
   \<exists>ok bytes v'. volume_read_loop d v loc count bs progress = Inr (ok, bytes, v') \<and>
      same_device v v' \<and> cache_present v' \<and>
      (ok \<longrightarrow> length bytes = unat count - unat progress) \<and>
      (\<not> ok \<longrightarrow> length bytes < unat count - unat progress)"
proof (induction d v loc count bs progress rule: volume_read_loop.induct)
  case (1 d v loc count bs progress)
  show ?case
  proof (cases "progress < count")
    case False
    then show ?thesis
      using "1.prems"
      by (subst volume_read_loop.simps) (auto simp add: same_device_refl word_less_nat_alt)
  next
    case True
    note b = chunk_size_bounds [OF True \<open>bs \<noteq> 0\<close>, of loc]
    note adv = progress_advance [OF True \<open>bs \<noteq> 0\<close>, of loc]
    have lt: "unat progress < unat count"
      using True by (simp add: word_less_nat_alt)
    from cache_block_returns [OF "1.prems"(1,2)]
    obtain ok v' where cb: "cache_block d v ((loc + progress) div bs) = Inr (ok, v')"
      "same_device v v'" "cache_present v'" "ok \<longrightarrow> cache v' \<noteq> None"
      by blast
    show ?thesis
    proof (cases ok)
      case False
      then show ?thesis
        using cb True \<open>bs \<noteq> 0\<close> lt
        by (subst volume_read_loop.simps) auto
    next
      case True
      then obtain c where c: "cache v' = Some c"
        using cb(4) by auto
      have cb': "cache_block d v ((loc + progress) div bs) = Inr (True, v')"
        using cb(1) True by simp
      have ss: "sector_size v' div 512 \<noteq> 0"
        using cb(2) "1.prems"(1) by (simp add: same_device_fields)
      from "1.IH" [OF \<open>progress < count\<close> \<open>bs \<noteq> 0\<close> cb' refl refl c ss cb(3) \<open>bs \<noteq> 0\<close>]
      obtain ok' bytes v'' where r:
        "volume_read_loop d v' loc count bs (progress + chunk_size loc count bs progress)
           = Inr (ok', bytes, v'')"
        "same_device v' v''" "cache_present v''"
        "ok' \<longrightarrow> length bytes = unat count - unat (progress + chunk_size loc count bs progress)"
        "\<not> ok' \<longrightarrow> length bytes < unat count - unat (progress + chunk_size loc count bs progress)"
        by blast
      have "volume_read_loop d v loc count bs progress
              = Inr (ok', cache_bytes c ((loc + progress) mod bs)
                            (chunk_size loc count bs progress) @ bytes, v'')"
        using cb' c r(1) \<open>progress < count\<close> \<open>bs \<noteq> 0\<close>
        by (subst volume_read_loop.simps) simp
      moreover have "same_device v v''"
        using cb(2) r(2) by (rule same_device_trans)
      moreover have "length (cache_bytes c ((loc + progress) mod bs)
                            (chunk_size loc count bs progress))
                       = unat (chunk_size loc count bs progress)"
        by (simp add: cache_bytes_def)
      ultimately show ?thesis
        using r(3,4,5) adv b(2) lt by auto
    qed
  qed
qed

lemma well_formed_same_device:
  "same_device v v' \<Longrightarrow> cache_present v' \<Longrightarrow> well_formed v \<Longrightarrow> well_formed v'"
  by (simp add: well_formed_def same_device_fields)

lemma volume_read_returns:
  assumes "well_formed v"
  shows "\<exists>ok bytes v'. volume_read d v loc count = Inr (ok, bytes, v') \<and>
      same_device v v' \<and> well_formed v' \<and>
      (ok \<longrightarrow> length bytes = unat count) \<and> (\<not> ok \<longrightarrow> length bytes < unat count \<or> bytes = [])"
proof -
  from assms have a: "\<not> pxe v" "sector_size v div 512 \<noteq> 0" "cache_present v"
    "fastest_xfer_size v * sector_size v \<noteq> 0"
    by (simp_all add: well_formed_def)
  from loop_returns [OF a(2,3,4), of d loc count 0]
  obtain ok bytes v' where r:
    "volume_read_loop d v loc count (fastest_xfer_size v * sector_size v) 0 = Inr (ok, bytes, v')"
    "same_device v v'" "cache_present v'" "ok \<longrightarrow> length bytes = unat count"
    "\<not> ok \<longrightarrow> length bytes < unat count"
    by auto
  have "well_formed v'"
    using r(2,3) assms by (rule well_formed_same_device)
  then show ?thesis
    using a(1) r assms by (auto simp add: volume_read_def same_device_refl)
qed

lemma cache_block_media_miss:
  assumes ok: "vol_ok v"
    and miss: "\<not> (cache_status v = CACHE_READY \<and> block = cached_block v)"
    and fit: "dev_base v + unat block * block_bytes v < 2 ^ 64"
  shows "cache_block (media content (sector_size v)) v block =
     Inr (True, v\<lparr>cache_status := CACHE_READY,
                  cache := Some (\<lambda>i. if i < block_bytes v
                     then content (dev_base v + unat block * block_bytes v + i)
                     else (case cache v of None \<Rightarrow> ext_mem_alloc | Some c \<Rightarrow> c) i),
                  cached_block := block\<rparr>)"
proof -
  let ?fs = "first_sect v div (sector_size v div 512)"
  let ?x = "fastest_xfer_size v"
  let ?ss = "sector_size v"
  note bsz = vol_ok_block_size [OF ok]
  have m: "unat block * unat ?x * unat ?ss < 2 ^ 64"
    using fit by (simp add: block_bytes_def mult.assoc)
  have "unat block * unat ?x \<le> unat block * unat ?x * unat ?ss"
    using bsz(3) by simp
  then have m1: "unat block * unat ?x < 2 ^ 64"
    using m by linarith
  then have nm: "\<not> mul_overflow block ?x"
    by (simp add: mul_overflow_def)
  have um: "unat (block * ?x) = unat block * unat ?x"
    using m1 by (simp add: unat_mult_lem [THEN iffD1])
  have "(unat ?fs + unat block * unat ?x) * unat ?ss < 2 ^ 64"
    using fit by (simp add: dev_base_def block_bytes_def algebra_simps)
  moreover have "unat ?fs + unat block * unat ?x \<le> (unat ?fs + unat block * unat ?x) * unat ?ss"
    using bsz(3) by simp
  ultimately have a1: "unat ?fs + unat block * unat ?x < 2 ^ 64"
    by linarith
  then have na: "\<not> add_overflow ?fs (block * ?x)"
    by (simp add: add_overflow_def um)
  have ua: "unat (?fs + block * ?x) = unat ?fs + unat block * unat ?x"
    using a1 um by (simp add: unat_add_lem [THEN iffD1])
  have addr: "unat (?fs + block * ?x) * unat ?ss = dev_base v + unat block * block_bytes v"
    unfolding ua by (simp add: dev_base_def block_bytes_def algebra_simps)
  let ?b = "case cache v of None \<Rightarrow> ext_mem_alloc | Some c \<Rightarrow> c"
  let ?c = "\<lambda>i. if i < unat ?x * unat ?ss
                 then content (unat (?fs + block * ?x) * unat ?ss + i) else ?b i"
  have cb: "cache_block (media content ?ss) v block
              = Inr (True, v\<lparr>cache_status := CACHE_READY, cache := Some ?c, cached_block := block\<rparr>)"
    using miss ok nm na
    by (auto simp add: cache_block_def vol_ok_def Let_def disk_retry_media)
  have "?c = (\<lambda>i. if i < block_bytes v
                  then content (dev_base v + unat block * block_bytes v + i) else ?b i)"
    unfolding addr by (simp add: block_bytes_def)
  then show ?thesis
    using cb by simp
qed


lemma cache_block_media:
  assumes ok: "vol_ok v" and co: "coherent content v"
    and fit: "dev_base v + unat block * block_bytes v < 2 ^ 64"
  shows "\<exists>v' c. cache_block (media content (sector_size v)) v block = Inr (True, v') \<and>
           same_device v v' \<and> coherent content v' \<and> cache v' = Some c \<and>
           (\<forall>i < block_bytes v. c i = content (dev_base v + unat block * block_bytes v + i))"
proof (cases "cache_status v = CACHE_READY \<and> block = cached_block v")
  case True
  then obtain c where "cache v = Some c"
    "\<forall>i < block_bytes v. c i = content (dev_base v + unat block * block_bytes v + i)"
    using co by (auto simp: coherent_def split: option.splits)
  then show ?thesis
    using True co by (simp add: cache_block_def same_device_refl)
next
  case False
  show ?thesis
    unfolding cache_block_media_miss [OF ok False fit]
    by (simp add: same_device_def coherent_def block_bytes_def dev_base_def)
qed

lemma device_bytes_Suc:
  "device_bytes content v loc (Suc n) = content (dev_base v + loc) # device_bytes content v (loc + 1) n"
proof -
  have "[0 ..< Suc n] = 0 # map Suc [0 ..< n]"
    by (simp add: upt_conv_Cons map_Suc_upt del: upt_Suc)
  then show ?thesis
    by (simp add: device_bytes_def comp_def del: upt_Suc)
qed

lemma media_read_one:
  assumes ok: "vol_ok v" and co: "coherent content v"
    and rd: "readable v loc 1" and fit: "dev_base v + unat loc < 2 ^ 64"
  shows "\<exists>v'. volume_read (media content (sector_size v)) v loc 1
             = Inr (True, [content (dev_base v + unat loc)], v') \<and>
           same_device v v' \<and> coherent content v'"
proof -
  let ?bs = "fastest_xfer_size v * sector_size v"
  note bsz = vol_ok_block_size [OF ok]
  have dm: "unat (loc div ?bs) * block_bytes v + unat (loc mod ?bs) = unat loc"
    by (simp add: unat_div unat_mod bsz(1))
  have lt: "unat (loc mod ?bs) < block_bytes v"
    using bsz by (simp add: unat_mod)
  have "dev_base v + unat (loc div ?bs) * block_bytes v < 2 ^ 64"
    using fit dm by linarith
  from cache_block_media [OF ok co this]
  obtain v' c where v': "cache_block (media content (sector_size v)) v (loc div ?bs) = Inr (True, v')"
    "same_device v v'" "coherent content v'" "cache v' = Some c"
    "\<forall>i < block_bytes v. c i = content (dev_base v + unat (loc div ?bs) * block_bytes v + i)"
    by blast
  have "c (unat (loc mod ?bs)) = content (dev_base v + unat loc)"
    using v'(5) lt dm by (simp add: add.assoc)
  then show ?thesis
    using volume_read_one [OF rd _ bsz(2), of "media content (sector_size v)"] ok v'
    by (simp add: vol_ok_def)
qed

lemma media_read_bytes:
  "vol_ok v \<Longrightarrow> coherent content v \<Longrightarrow> readable v loc n \<Longrightarrow> dev_base v + unat loc + n \<le> 2 ^ 64 \<Longrightarrow>
   \<exists>v'. volume_read_bytes (media content (sector_size v)) v loc n
           = Inr (True, device_bytes content v (unat loc) n, v') \<and>
         same_device v v' \<and> coherent content v'"
proof (induction n arbitrary: v loc)
  case 0
  then show ?case by (simp add: device_bytes_def same_device_refl)
next
  case (Suc n)
  have r1: "readable v loc 1"
    using Suc.prems(3) by (rule readable_first) simp
  from media_read_one [OF Suc.prems(1,2) r1] Suc.prems(4)
  obtain v1 where v1: "volume_read (media content (sector_size v)) v loc 1
             = Inr (True, [content (dev_base v + unat loc)], v1)"
    "same_device v v1" "coherent content v1"
    by auto
  show ?case
  proof (cases n)
    case 0
    then show ?thesis using v1 by (auto simp: device_bytes_def)
  next
    case (Suc m)
    have r: "unat (loc + 1) = unat loc + unat (1 :: u64)" "readable v (loc + 1) n"
      using readable_sub [OF Suc.prems(3), of 1 n] Suc by simp_all
    have "\<exists>v'. volume_read_bytes (media content (sector_size v1)) v1 (loc + 1) n
           = Inr (True, device_bytes content v1 (unat (loc + 1)) n, v') \<and>
         same_device v1 v' \<and> coherent content v'"
      using Suc.prems v1 r
      by (intro Suc.IH) (simp_all add: vol_ok_same_device readable_same_device dev_base_same_device)
    then obtain v' where v': "volume_read_bytes (media content (sector_size v)) v1 (loc + 1) n
           = Inr (True, device_bytes content v (unat loc + 1) n, v')"
        "same_device v1 v'" "coherent content v'"
      using v1(2) r(1) by (auto simp: same_device_fields device_bytes_def dev_base_same_device)
    show ?thesis
      using v1 v' same_device_trans [OF v1(2) v'(2)]
      by (simp add: device_bytes_Suc)
  qed
qed

theorem volume_read_media:
  assumes "vol_ok v" "coherent content v" "readable v loc (unat count)"
    and "dev_base v + unat loc + unat count \<le> 2 ^ 64"
  shows "\<exists>v'. volume_read (media content (sector_size v)) v loc count
           = Inr (True, device_bytes content v (unat loc) (unat count), v') \<and>
         same_device v v' \<and> coherent content v'"
  using media_read_bytes [OF assms] volume_read_eq_bytes [OF _ assms(3)] assms(1)
  by (simp add: vol_ok_def)


lemma cached_same_device: "same_device v (cached content v b)"
  by (simp add: cached_def same_device_def)

lemma cached_coherent: "coherent content (cached content v b)"
  by (simp add: cached_def coherent_def fill_block_def block_bytes_def dev_base_def)

lemma cached_idem:
  "cached content (cached content v b) b' = cached content v b'"
  by (simp add: cached_def fill_block_def cache_buffer_def block_bytes_def dev_base_def fun_eq_iff)

lemma cached_hit:
  assumes "coherent content v" "cache_status v = CACHE_READY" "cached_block v = b"
  shows "cached content v b = v"
proof -
  obtain c where c: "cache v = Some c"
    "\<forall>i < block_bytes v. c i = content (dev_base v + unat b * block_bytes v + i)"
    using assms by (auto simp: coherent_def split: option.splits)
  then have "fill_block content v b = c"
    by (auto simp: fill_block_def cache_buffer_def fun_eq_iff)
  then show ?thesis
    using assms c by (simp add: cached_def)
qed

lemma cache_block_media_eq:
  assumes ok: "vol_ok v" and co: "coherent content v"
    and fit: "dev_base v + unat block * block_bytes v < 2 ^ 64"
  shows "cache_block (media content (sector_size v)) v block = Inr (True, cached content v block)"
proof (cases "cache_status v = CACHE_READY \<and> block = cached_block v")
  case True
  then show ?thesis
    using cached_hit [OF co, of block] by (simp add: cache_block_def)
next
  case False
  show ?thesis
    unfolding cache_block_media_miss [OF ok False fit] cached_def fill_block_def cache_buffer_def
    by simp
qed

lemma media_read_one_eq:
  assumes ok: "vol_ok v" and co: "coherent content v"
    and rd: "readable v loc 1" and fit: "dev_base v + unat loc < 2 ^ 64"
  shows "volume_read (media content (sector_size v)) v loc 1
             = Inr (True, [content (dev_base v + unat loc)],
                    cached content v (loc div (fastest_xfer_size v * sector_size v)))"
proof -
  let ?bs = "fastest_xfer_size v * sector_size v"
  note bsz = vol_ok_block_size [OF ok]
  have dm: "unat (loc div ?bs) * block_bytes v + unat (loc mod ?bs) = unat loc"
    by (simp add: unat_div unat_mod bsz(1))
  have lt: "unat (loc mod ?bs) < block_bytes v"
    using bsz by (simp add: unat_mod)
  have "dev_base v + unat (loc div ?bs) * block_bytes v < 2 ^ 64"
    using fit dm by linarith
  note cb = cache_block_media_eq [OF ok co this]
  have "fill_block content v (loc div ?bs) (unat (loc mod ?bs)) = content (dev_base v + unat loc)"
    using lt dm by (simp add: fill_block_def add.assoc)
  then show ?thesis
    using volume_read_one [OF rd _ bsz(2), of "media content (sector_size v)"] ok cb
    by (simp add: vol_ok_def cached_def)
qed

lemma media_read_bytes_eq:
  "vol_ok v \<Longrightarrow> coherent content v \<Longrightarrow> readable v loc n \<Longrightarrow> dev_base v + unat loc + n \<le> 2 ^ 64 \<Longrightarrow>
   volume_read_bytes (media content (sector_size v)) v loc n
     = Inr (True, device_bytes content v (unat loc) n,
            if n = 0 then v
            else cached content v ((loc + of_nat n - 1) div (fastest_xfer_size v * sector_size v)))"
proof (induction n arbitrary: v loc)
  case 0
  then show ?case by (simp add: device_bytes_def)
next
  case (Suc n)
  let ?bs = "fastest_xfer_size v * sector_size v"
  let ?v1 = "cached content v (loc div ?bs)"
  have r1: "readable v loc 1"
    using Suc.prems(3) by (rule readable_first) simp
  have one: "volume_read (media content (sector_size v)) v loc 1
             = Inr (True, [content (dev_base v + unat loc)], ?v1)"
    using media_read_one_eq [OF Suc.prems(1,2) r1] Suc.prems(4) by simp
  note sd = cached_same_device [of v content "loc div ?bs"]
  show ?case
  proof (cases n)
    case 0
    then show ?thesis using one by (simp add: device_bytes_def)
  next
    case (Suc m)
    have r: "unat (loc + 1) = unat loc + unat (1 :: u64)" "readable v (loc + 1) n"
      using readable_sub [OF Suc.prems(3), of 1 n] Suc by simp_all
    have "volume_read_bytes (media content (sector_size ?v1)) ?v1 (loc + 1) n
      = Inr (True, device_bytes content ?v1 (unat (loc + 1)) n,
            if n = 0 then ?v1
            else cached content ?v1 ((loc + 1 + of_nat n - 1)
                   div (fastest_xfer_size ?v1 * sector_size ?v1)))"
      using Suc.prems r sd
      by (intro Suc.IH)
        (simp_all add: vol_ok_same_device readable_same_device dev_base_same_device cached_coherent)
    then have "volume_read_bytes (media content (sector_size v)) ?v1 (loc + 1) n
      = Inr (True, device_bytes content v (unat loc + 1) n,
            cached content v ((loc + of_nat (Suc n) - 1) div ?bs))"
      using sd r(1) Suc
      by (simp add: same_device_fields device_bytes_def dev_base_same_device cached_idem
          add.commute add.left_commute)
    then show ?thesis
      using one by (simp add: device_bytes_Suc)
  qed
qed

theorem volume_read_media_eq:
  assumes "vol_ok v" "coherent content v" "readable v loc (unat count)"
    and "dev_base v + unat loc + unat count \<le> 2 ^ 64"
  shows "volume_read (media content (sector_size v)) v loc count
           = Inr (True, device_bytes content v (unat loc) (unat count),
                  media_after content v loc count)"
proof -
  have "count = 0 \<longleftrightarrow> unat count = 0"
    by (simp add: unat_eq_0)
  then show ?thesis
    using media_read_bytes_eq [OF assms] volume_read_eq_bytes [OF _ assms(3)] assms(1)
    by (simp add: vol_ok_def media_after_def)
qed

lemma media_after_props:
  "same_device v (media_after content v loc count)"
  "coherent content v \<Longrightarrow> coherent content (media_after content v loc count)"
  by (simp_all add: media_after_def same_device_refl cached_same_device cached_coherent)

lemma cache_block_fetch_fails:
  assumes "sector_size v div 512 \<noteq> 0"
    and "\<not> (cache_status v = CACHE_READY \<and> b = cached_block v)"
    and "first_sect v mod (sector_size v div 512) \<noteq> 0 \<or>
         (\<forall>buf. fst (d buf (first_sect v div (sector_size v div 512) + b * fastest_xfer_size v)
                        (fastest_xfer_size v)) = DISK_NO_MEDIA)"
  shows "\<exists>v'. cache_block d v b = Inr (False, v')"
proof -
  let ?s = "first_sect v div (sector_size v div 512) + b * fastest_xfer_size v"
  have "fst (disk_retry d buf ?s (fastest_xfer_size v)) = False"
    if nm: "\<forall>buf. fst (d buf ?s (fastest_xfer_size v)) = DISK_NO_MEDIA" for buf
  proof -
    obtain st buf' where r: "d buf ?s (fastest_xfer_size v) = (st, buf')"
      by (cases "d buf ?s (fastest_xfer_size v)")
    then have "st = DISK_NO_MEDIA"
      using nm [THEN spec, of buf] by simp
    then show ?thesis
      using r by (subst disk_retry.simps) simp
  qed
  note nomedia = this
  show ?thesis
  proof (cases "first_sect v mod (sector_size v div 512) \<noteq> 0")
    case True
    then show ?thesis
      using assms(1,2) by (simp add: cache_block_def Let_def)
  next
    case False
    let ?buf = "case cache v of None \<Rightarrow> ext_mem_alloc | Some c \<Rightarrow> c"
    have "fst (disk_retry d ?buf ?s (fastest_xfer_size v)) = False"
      using nomedia [of ?buf] assms(3) False by blast
    then obtain buf' where "disk_retry d ?buf ?s (fastest_xfer_size v) = (False, buf')"
      by (cases "disk_retry d ?buf ?s (fastest_xfer_size v)") auto
    then show ?thesis
      using assms(1,2) by (simp add: cache_block_def Let_def)
  qed
qed

lemma bytes_fail:
  assumes fails: "\<And>v. same_device v0 v \<Longrightarrow> \<not> (cache_status v = CACHE_READY \<and> b = cached_block v) \<Longrightarrow>
                    \<exists>v'. cache_block d v b = Inr (False, v')"
    and px: "\<not> pxe v0" and bs: "bs = fastest_xfer_size v0 * sector_size v0" "bs \<noteq> 0"
  shows "same_device v0 v \<Longrightarrow> readable v loc n \<Longrightarrow> q < n \<Longrightarrow> b = (loc + of_nat q) div bs \<Longrightarrow>
         (b = loc div bs \<longrightarrow> \<not> (cache_status v = CACHE_READY \<and> b = cached_block v)) \<Longrightarrow>
         volume_read_bytes d v loc n \<noteq> Inr (True, bytes, v')"
proof (induction n arbitrary: v loc q bytes)
  case 0
  then show ?case by simp
next
  case (Suc n)
  note sd = \<open>same_device v0 v\<close>
  have r1: "readable v loc 1"
    using Suc.prems(2) by (rule readable_first) simp
  have px': "\<not> pxe v" and bs': "bs = fastest_xfer_size v * sector_size v"
    using sd px bs by (simp_all add: same_device_fields)
  note one = volume_read_one [OF r1 px', of d, folded bs', OF bs(2)]
  show ?case
  proof (cases q)
    case 0
    then obtain v1 where "cache_block d v (loc div bs) = Inr (False, v1)"
      using fails [OF sd] Suc.prems(4,5) by auto
    then show ?thesis
      using one by simp
  next
    case (Suc q')
    show ?thesis
    proof (cases "cache_block d v (loc div bs)")
      case (Inl f)
      then show ?thesis using one by simp
    next
      case (Inr r)
      obtain ok v1 where r: "r = (ok, v1)" by (cases r)
      show ?thesis
      proof (cases "ok \<and> cache v1 \<noteq> None")
        case False
        then show ?thesis using one Inr r by (cases ok) auto
      next
        case True
        then obtain c where c: "cache v1 = Some c" by auto
        have cb: "cache_block d v (loc div bs) = Inr (True, v1)"
          using Inr r True by simp
        have v1: "volume_read d v loc 1 = Inr (True, [c (unat (loc mod bs))], v1)"
          using one cb c by simp
        have sd1: "same_device v0 v1"
          using sd cache_block_same_device [OF cb] by (rule same_device_trans)
        have rn: "readable v (loc + 1) n"
          using readable_sub(2) [OF Suc.prems(2), of 1 n] Suc Suc.prems(3) by simp
        then have rn1: "readable v1 (loc + 1) n"
          using cache_block_same_device [OF cb] by (simp add: readable_same_device)
        have hit: "b = (loc + 1) div bs \<longrightarrow> \<not> (cache_status v1 = CACHE_READY \<and> b = cached_block v1)"
        proof (intro impI notI)
          assume "b = (loc + 1) div bs" and "cache_status v1 = CACHE_READY \<and> b = cached_block v1"
          then have "b = loc div bs"
            using cache_block_ready [OF cb] by simp
          then show False
            using fails [OF sd] Suc.prems(5) cb by auto
        qed
        have "\<nexists>bytes'. volume_read_bytes d v1 (loc + 1) n = Inr (True, bytes', v')"
          using Suc.IH [OF sd1 rn1 _ _ hit, of q'] Suc Suc.prems(3,4)
          by (simp add: add.assoc)
        then show ?thesis
          using v1 by (auto split: sum.splits prod.splits)
      qed
    qed
  qed
qed

subsection \<open>The cacheless reference reader\<close>

lemma uncached_byte_media:
  assumes ok: "vol_ok v" and fit: "dev_base v + unat loc < 2 ^ 64"
  shows "uncached_byte (media content (sector_size v)) v loc = Some (content (dev_base v + unat loc))"
proof -
  let ?fs = "first_sect v div (sector_size v div 512)"
  let ?ss = "sector_size v"
  note bsz = vol_ok_block_size [OF ok]
  have dm: "unat (loc div ?ss) * unat ?ss + unat (loc mod ?ss) = unat loc"
    by (simp add: unat_div unat_mod)
  have lt: "unat (loc mod ?ss) < unat ?ss"
    using bsz(3) by (simp add: unat_mod)
  have "unat ?fs * unat ?ss + unat (loc div ?ss) * unat ?ss < 2 ^ 64"
    using fit dm by (simp add: dev_base_def)
  then have "(unat ?fs + unat (loc div ?ss)) * unat ?ss < 2 ^ 64"
    by (simp add: algebra_simps)
  moreover have "unat ?fs + unat (loc div ?ss) \<le> (unat ?fs + unat (loc div ?ss)) * unat ?ss"
    using bsz(3) by simp
  ultimately have "unat ?fs + unat (loc div ?ss) < 2 ^ 64"
    by linarith
  then have ua: "unat (?fs + loc div ?ss) = unat ?fs + unat (loc div ?ss)"
    by (simp add: unat_add_lem [THEN iffD1])
  have "unat (?fs + loc div ?ss) * unat ?ss + unat (loc mod ?ss) = dev_base v + unat loc"
    unfolding ua using dm by (simp add: dev_base_def algebra_simps)
  then show ?thesis
    using lt by (simp add: uncached_byte_def media_def)
qed

lemma cacheless_read_media:
  "vol_ok v \<Longrightarrow> unat loc + n \<le> 2 ^ 64 \<Longrightarrow> dev_base v + unat loc + n \<le> 2 ^ 64 \<Longrightarrow>
   cacheless_read (media content (sector_size v)) v loc n
     = Some (device_bytes content v (unat loc) n)"
proof (induction n arbitrary: loc)
  case 0
  then show ?case
    by (simp add: device_bytes_def)
next
  case (Suc n)
  have b: "uncached_byte (media content (sector_size v)) v loc
             = Some (content (dev_base v + unat loc))"
    using Suc.prems by (intro uncached_byte_media) simp_all
  show ?case
  proof (cases n)
    case 0
    then show ?thesis
      using b by (simp add: device_bytes_def)
  next
    case (Suc m)
    then have "unat loc + 1 < 2 ^ 64"
      using Suc.prems(2) by simp
    then have u: "unat (loc + 1) = unat loc + 1"
      by (simp add: unat_add_lem [THEN iffD1])
    have "cacheless_read (media content (sector_size v)) v (loc + 1) n
            = Some (device_bytes content v (unat (loc + 1)) n)"
      using Suc.prems u by (intro Suc.IH) simp_all
    then show ?thesis
      using b u by (simp add: device_bytes_Suc)
  qed
qed

lemma readable_range: "readable v loc n \<Longrightarrow> unat loc + n \<le> 2 ^ 64"
  by (simp add: readable_def)

lemma stale_read:
  "volume_read demo_disk stale_volume 1022 1 = Inr (True, [7], stale_volume)"
  using volume_read_one [of stale_volume 1022 demo_disk]
  by (simp add: stale_volume_def demo_volume_def readable_def part_size_def cache_block_def)

lemma warm_volume_props:
  "same_device demo_volume warm_volume" "coherent (\<lambda>i. of_nat i) warm_volume"
  "vol_ok demo_volume" "coherent (\<lambda>i. of_nat i) demo_volume"
  "readable demo_volume 1000 100" "sector_size demo_volume = 512"
  "dev_base demo_volume = 0"
  by (simp_all add: warm_volume_def cached_same_device cached_coherent)
    (simp_all add: demo_volume_def vol_ok_def coherent_def readable_def part_size_def
      block_bytes_def dev_base_def)

text \<open>
  A transfer that succeeds only after the retry loop has shortened it fills the first sectors
  of the cache buffer, and the block is marked ready all the same: the bytes of its last
  sectors are then delivered from what the buffer held before.
\<close>

lemma partial_retry_call:
  "\<exists>v'. volume_read flaky_disk demo_volume 600 1 = Inr (True, [0], v') \<and>
     cache_status v' = CACHE_READY \<and> cached_block v' = 0 \<and>
     cacheless_read flaky_disk demo_volume 600 1 = Some [88]"
proof -
  have r: "readable demo_volume 600 1" "\<not> pxe demo_volume"
    by (simp_all add: demo_volume_def readable_def part_size_def)
  have d: "disk_retry flaky_disk ext_mem_alloc 0 2
             = (True, (\<lambda>i. if i < 512 then of_nat i else ext_mem_alloc i))"
    by (subst disk_retry.simps, simp add: flaky_disk_def, subst disk_retry.simps)
      (simp add: flaky_disk_def demo_disk_def media_def fun_eq_iff)
  have c: "cacheless_read flaky_disk demo_volume 600 1 = Some [88]"
    by (simp add: uncached_byte_def flaky_disk_def demo_disk_def media_def demo_volume_def)
  show ?thesis
    using volume_read_one [OF r, of flaky_disk] d c
    by (simp add: demo_volume_def cache_block_def mul_overflow_def add_overflow_def
        ext_mem_alloc_def)
qed

section \<open>Claims about the volume byte reader\<close>

text \<open>
  C1, as the code has it. Take a volume that is not a PXE volume and has a well-formed
  geometry, a medium whose transfers succeed and deliver fixed bytes, a byte range that lies
  within \<open>sect_count \<times> sector_size\<close> (or, for a volume of unknown size, does not run past
  \<open>2\<^sup>6\<^sup>4\<close>) and below byte \<open>2\<^sup>6\<^sup>4\<close> of the disk, and two cache states of the volume that are
  coherent: not marked ready, or marked ready and holding the block \<open>cached_block\<close> names.
  From either state \<^verbatim>\<open>volume_read\<close> succeeds and delivers the same bytes; they are the bytes
  \<open>count\<close> successive 1-byte \<^verbatim>\<open>volume_read\<close> calls starting at \<open>loc\<close> deliver from either
  state, and the bytes the cacheless byte-wise reference reader delivers, which are the
  medium's; and the call leaves the cache coherent, so the same holds of the reads that
  follow. From one and the same starting state, coherent or not, and on every disk,
  \<^verbatim>\<open>volume_read\<close> gives the same flag, bytes and final volume as the 1-byte calls.
\<close>

theorem volume_read_range_exact:
  assumes "vol_ok v" and "readable v loc (unat count)"
    and "dev_base v + unat loc + unat count \<le> 2 ^ 64"
    and "same_device v w" and "coherent content v" and "coherent content w"
  shows "\<exists>bytes v' w'.
           volume_read (media content (sector_size v)) v loc count = Inr (True, bytes, v') \<and>
           volume_read (media content (sector_size v)) w loc count = Inr (True, bytes, w') \<and>
           volume_read_bytes (media content (sector_size v)) v loc (unat count)
             = Inr (True, bytes, v') \<and>
           volume_read_bytes (media content (sector_size v)) w loc (unat count)
             = Inr (True, bytes, w') \<and>
           cacheless_read (media content (sector_size v)) v loc (unat count) = Some bytes \<and>
           bytes = device_bytes content v (unat loc) (unat count) \<and>
           same_device v v' \<and> same_device v w' \<and> coherent content v' \<and> coherent content w' \<and>
           (\<forall>d u. same_device v u \<longrightarrow>
              volume_read d u loc count = volume_read_bytes d u loc (unat count))"
proof -
  let ?d = "media content (sector_size v)"
  let ?bytes = "device_bytes content v (unat loc) (unat count)"
  have px: "\<not> pxe v"
    using assms(1) by (simp add: vol_ok_def)
  have eq: "volume_read d u loc count = volume_read_bytes d u loc (unat count)"
    if "same_device v u" for d u
    using that px assms(2)
    by (intro volume_read_eq_bytes) (simp_all add: same_device_fields readable_same_device)
  have rv: "volume_read ?d v loc count = Inr (True, ?bytes, media_after content v loc count)"
    using assms(1,5,2,3) by (rule volume_read_media_eq)
  have w: "vol_ok w" "readable w loc (unat count)" "dev_base w + unat loc + unat count \<le> 2 ^ 64"
    "sector_size w = sector_size v"
    using assms(1-4)
    by (simp_all add: vol_ok_same_device readable_same_device dev_base_same_device
        same_device_fields)
  have "volume_read (media content (sector_size w)) w loc count
          = Inr (True, device_bytes content w (unat loc) (unat count),
                 media_after content w loc count)"
    using w(1) assms(6) w(2,3) by (rule volume_read_media_eq)
  then have rw: "volume_read ?d w loc count = Inr (True, ?bytes, media_after content w loc count)"
    using assms(4) by (simp add: w(4) device_bytes_def dev_base_same_device)
  have cl: "cacheless_read ?d v loc (unat count) = Some ?bytes"
    using assms(1) readable_range [OF assms(2)] assms(3) by (rule cacheless_read_media)
  have sd: "same_device v (media_after content w loc count)"
    using assms(4) media_after_props(1) [of w content loc count] by (rule same_device_trans)
  show ?thesis
    using rv rw cl eq eq [OF same_device_refl, symmetric] eq [OF assms(4), symmetric] sd
      media_after_props(1) [of v content loc count]
      media_after_props(2) [OF assms(5), of loc count]
      media_after_props(2) [OF assms(6), of loc count]
    by (intro exI [of _ ?bytes] exI [of _ "media_after content v loc count"]
        exI [of _ "media_after content w loc count"]) simp
qed

text \<open>
  C1 on a range that crosses from block 0 into block 1, read from an empty cache and from a
  cache that holds block 0.
\<close>

theorem volume_read_range_exact_witness:
  "vol_ok demo_volume \<and> readable demo_volume 1000 (unat (100 :: u64)) \<and>
   same_device demo_volume warm_volume \<and>
   coherent (\<lambda>i. of_nat i) demo_volume \<and> coherent (\<lambda>i. of_nat i) warm_volume \<and>
   cache_status demo_volume = CACHE_NOT_READY \<and> cache_status warm_volume = CACHE_READY \<and>
   (\<exists>bytes v' w'.
      volume_read demo_disk demo_volume 1000 100 = Inr (True, bytes, v') \<and>
      volume_read demo_disk warm_volume 1000 100 = Inr (True, bytes, w') \<and>
      volume_read_bytes demo_disk demo_volume 1000 100 = Inr (True, bytes, v') \<and>
      cacheless_read demo_disk demo_volume 1000 100 = Some bytes \<and>
      length bytes = 100 \<and> hd bytes = 232 \<and> last bytes = 75)"
proof -
  from volume_read_range_exact [of demo_volume 1000 100 warm_volume "\<lambda>i. of_nat i"]
  obtain bytes v' w' where r:
    "volume_read demo_disk demo_volume 1000 100 = Inr (True, bytes, v')"
    "volume_read demo_disk warm_volume 1000 100 = Inr (True, bytes, w')"
    "volume_read_bytes demo_disk demo_volume 1000 100 = Inr (True, bytes, v')"
    "cacheless_read demo_disk demo_volume 1000 100 = Some bytes"
    "bytes = device_bytes (\<lambda>i. of_nat i) demo_volume 1000 100"
    using warm_volume_props by (auto simp add: demo_disk_def)
  have "length bytes = 100" "hd bytes = 232" "last bytes = 75"
    unfolding r(5)
    by (simp_all add: device_bytes_def warm_volume_props hd_map last_map)
  then show ?thesis
    using r(1-4) warm_volume_props by (auto simp add: demo_volume_def warm_volume_def cached_def)
qed

text \<open>
  C1 as stated fails: the code trusts a cache that is marked ready. With a cache marked ready
  for block 0 that holds other bytes than the medium, \<^verbatim>\<open>volume_read\<close> and the 1-byte calls
  deliver the cache's byte, where the cacheless reader and the same volume with an empty
  cache deliver the medium's.
\<close>

theorem volume_read_stale_cache_counterexample:
  "same_device demo_volume stale_volume \<and> vol_ok demo_volume \<and> readable demo_volume 1022 1 \<and>
   cache_status stale_volume = CACHE_READY \<and> cached_block stale_volume = 0 \<and>
   volume_read demo_disk stale_volume 1022 1 = Inr (True, [7], stale_volume) \<and>
   volume_read_bytes demo_disk stale_volume 1022 1 = Inr (True, [7], stale_volume) \<and>
   cacheless_read demo_disk stale_volume 1022 1 = Some [254] \<and>
   (\<exists>v'. volume_read demo_disk demo_volume 1022 1 = Inr (True, [254], v'))"
proof -
  have p: "vol_ok demo_volume" "readable demo_volume 1022 1" "dev_base demo_volume = 0"
    "coherent (\<lambda>i. of_nat i) demo_volume" "sector_size demo_volume = 512"
    "same_device demo_volume stale_volume" "vol_ok stale_volume" "dev_base stale_volume = 0"
    "sector_size stale_volume = 512"
    by (simp_all add: stale_volume_def demo_volume_def vol_ok_def coherent_def readable_def
        part_size_def block_bytes_def dev_base_def same_device_def)
  have f: "volume_read demo_disk demo_volume 1022 1
             = Inr (True, [254], media_after (\<lambda>i. of_nat i) demo_volume 1022 1)"
    using volume_read_media_eq [of demo_volume "\<lambda>i. of_nat i" 1022 1] p
    by (simp add: demo_disk_def device_bytes_def)
  have c: "cacheless_read demo_disk stale_volume 1022 1 = Some [254]"
    using cacheless_read_media [of stale_volume 1022 1 "\<lambda>i. of_nat i"] p
    by (simp add: demo_disk_def device_bytes_def)
  have b: "volume_read_bytes demo_disk stale_volume 1022 1 = Inr (True, [7], stale_volume)"
    using stale_read by simp
  show ?thesis
    using p(1,2,6) f c b stale_read by (simp add: stale_volume_def)
qed

text \<open>
  C2, as the code has it. On a volume of known size whose geometry is well formed,
  \<^verbatim>\<open>volume_read\<close> returns; when it returns true all \<open>count\<close> bytes were delivered, and
  when it returns false on a request with \<open>count > 0\<close> fewer were. It returns false when
  \<open>sect_count \<times> sector_size\<close> overflows 64 bits (the product is checked, not wrapped), when
  \<open>loc\<close> is at or past that size or \<open>count\<close> exceeds what is left, and when some block of
  the range has to be fetched from disk (any block but a first block that the cache holds
  ready) while \<open>first_sect\<close> is not a multiple of \<open>sector_size / 512\<close> or the disk
  primitive reports \<^verbatim>\<open>DISK_NO_MEDIA\<close> for that block's transfer.
\<close>

theorem volume_read_known_size:
  assumes "sect_count v \<noteq> - 1" and "well_formed v"
  shows "\<exists>ok bytes v'. volume_read d v loc count = Inr (ok, bytes, v') \<and>
      (ok \<longrightarrow> length bytes = unat count) \<and>
      (\<not> ok \<and> 0 < count \<longrightarrow> length bytes < unat count) \<and>
      (mul_overflow (sect_count v) (sector_size v) \<longrightarrow> \<not> ok) \<and>
      (sect_count v * sector_size v \<le> loc \<or> sect_count v * sector_size v - loc < count \<longrightarrow> \<not> ok) \<and>
      (\<forall>q < unat count.
          ((loc + of_nat q) div (fastest_xfer_size v * sector_size v)
               = loc div (fastest_xfer_size v * sector_size v) \<longrightarrow>
             \<not> (cache_status v = CACHE_READY \<and>
                loc div (fastest_xfer_size v * sector_size v) = cached_block v)) \<and>
          (first_sect v mod (sector_size v div 512) \<noteq> 0 \<or>
           (\<forall>buf. fst (d buf (first_sect v div (sector_size v div 512) +
                            (loc + of_nat q) div (fastest_xfer_size v * sector_size v)
                              * fastest_xfer_size v)
                         (fastest_xfer_size v)) = DISK_NO_MEDIA))
          \<longrightarrow> \<not> ok)"
proof -
  let ?bs = "fastest_xfer_size v * sector_size v"
  from volume_read_returns [OF assms(2), of d loc count]
  obtain ok bytes v' where r: "volume_read d v loc count = Inr (ok, bytes, v')"
    "ok \<longrightarrow> length bytes = unat count" "\<not> ok \<longrightarrow> length bytes < unat count \<or> bytes = []"
    by blast
  have wf: "\<not> pxe v" "sector_size v div 512 \<noteq> 0" "?bs \<noteq> 0"
    using assms(2) by (simp_all add: well_formed_def)
  have c2: "\<not> ok \<and> 0 < count \<longrightarrow> length bytes < unat count"
    using r(3) by (auto simp: word_less_nat_alt)
  have c3: "mul_overflow (sect_count v) (sector_size v) \<longrightarrow> \<not> ok"
    using r(1) assms(1) wf(1) by (auto simp: volume_read_def)
  have c4: "sect_count v * sector_size v \<le> loc \<or> sect_count v * sector_size v - loc < count \<longrightarrow> \<not> ok"
    using r(1) assms(1) wf(1) by (auto simp: volume_read_def split: if_splits)
  have c5: "\<not> ok" if q: "q < unat count"
    and h: "(loc + of_nat q) div ?bs = loc div ?bs \<longrightarrow>
             \<not> (cache_status v = CACHE_READY \<and> loc div ?bs = cached_block v)"
    and f: "first_sect v mod (sector_size v div 512) \<noteq> 0 \<or>
           (\<forall>buf. fst (d buf (first_sect v div (sector_size v div 512) +
                            (loc + of_nat q) div ?bs * fastest_xfer_size v)
                         (fastest_xfer_size v)) = DISK_NO_MEDIA)" for q
  proof (cases "readable v loc (unat count)")
    case False
    have "mul_overflow (sect_count v) (sector_size v) \<or>
          sect_count v * sector_size v \<le> loc \<or> sect_count v * sector_size v - loc < count"
    proof (rule ccontr)
      assume n: "\<not> ?thesis"
      then have p: "part_size v < 2 ^ 64"
        by (simp add: mul_overflow_def part_size_def)
      then have u: "unat (sect_count v * sector_size v) = part_size v"
        by (simp add: part_size_def unat_mult_lem [THEN iffD1])
      have l: "unat loc < part_size v"
        using n u by (simp add: word_le_nat_alt)
      then have "unat (sect_count v * sector_size v - loc) = part_size v - unat loc"
        using u by (simp add: unat_sub word_le_nat_alt)
      then have "unat loc + unat count \<le> part_size v"
        using n l by (auto simp add: word_less_nat_alt)
      then show False
        using False p l by (simp add: readable_def)
    qed
    then show ?thesis using c3 c4 by blast
  next
    case True
    let ?b = "(loc + of_nat q) div ?bs"
    have fails: "\<exists>v'. cache_block d w ?b = Inr (False, v')"
      if "same_device v w" "\<not> (cache_status w = CACHE_READY \<and> ?b = cached_block w)" for w
      using cache_block_fetch_fails [of w ?b d] that f wf(2)
      by (simp add: same_device_fields)
    have "volume_read_bytes d v loc (unat count) \<noteq> Inr (True, bytes, v')"
      using bytes_fail [OF fails wf(1) refl wf(3) same_device_refl True q refl] h
      by auto
    then show ?thesis
      using r(1) volume_read_eq_bytes [OF wf(1) True, of d] by auto
  qed
  show ?thesis
    using r(1,2) c2 c3 c4 c5 by (intro exI [of _ ok] exI [of _ bytes] exI [of _ v']) blast
qed

theorem volume_read_known_size_witness:
  "sect_count misaligned_volume \<noteq> - 1 \<and> well_formed misaligned_volume \<and>
   (\<exists>bytes v'. volume_read demo_disk misaligned_volume 0 1 = Inr (False, bytes, v'))"
proof -
  have a: "sect_count misaligned_volume \<noteq> - 1" "well_formed misaligned_volume"
    by (simp_all add: misaligned_volume_def demo_volume_def well_formed_def cache_present_def)
  from volume_read_known_size [OF a, of demo_disk 0 1]
  obtain ok bytes v' where r: "volume_read demo_disk misaligned_volume 0 1 = Inr (ok, bytes, v')"
    and f: "\<forall>q < unat (1 :: u64).
          ((0 + of_nat q) div (fastest_xfer_size misaligned_volume * sector_size misaligned_volume)
               = 0 div (fastest_xfer_size misaligned_volume * sector_size misaligned_volume) \<longrightarrow>
             \<not> (cache_status misaligned_volume = CACHE_READY \<and>
                0 div (fastest_xfer_size misaligned_volume * sector_size misaligned_volume)
                  = cached_block misaligned_volume)) \<and>
          (first_sect misaligned_volume mod (sector_size misaligned_volume div 512) \<noteq> 0 \<or>
           (\<forall>buf. fst (demo_disk buf (first_sect misaligned_volume div (sector_size misaligned_volume div 512) +
                            (0 + of_nat q) div (fastest_xfer_size misaligned_volume * sector_size misaligned_volume)
                              * fastest_xfer_size misaligned_volume)
                         (fastest_xfer_size misaligned_volume)) = DISK_NO_MEDIA))
          \<longrightarrow> \<not> ok"
    by blast
  have "\<not> ok"
    using f [THEN spec, of 0] by (simp add: misaligned_volume_def demo_volume_def)
  then show ?thesis
    using a r by auto
qed

text \<open>
  C2 as stated fails: a zero-length read on a misaligned volume touches no block and
  returns true.
\<close>

theorem volume_read_misaligned_counterexample:
  "sect_count misaligned_volume \<noteq> - 1 \<and>
   first_sect misaligned_volume mod (sector_size misaligned_volume div 512) \<noteq> 0 \<and>
   volume_read demo_disk misaligned_volume 0 0 = Inr (True, [], misaligned_volume)"
  by (simp add: misaligned_volume_def demo_volume_def volume_read_def mul_overflow_def
      volume_read_loop.simps)



section \<open>Partition tables\<close>

text \<open>
  On-disk structures are packed little-endian byte sequences. A field is decoded from the
  bytes a \<^verbatim>\<open>volume_read\<close> delivered into the (zero-initialised) structure; a byte the read
  did not deliver reads as 0.
\<close>

definition byte_at :: "u8 list \<Rightarrow> nat \<Rightarrow> u8" where
  "byte_at bs i = (if i < length bs then bs ! i else 0)"

definition bytes_at :: "u8 list \<Rightarrow> nat \<Rightarrow> nat \<Rightarrow> u8 list" where
  "bytes_at bs i n = map (byte_at bs) [i ..< i + n]"

definition le16_at :: "u8 list \<Rightarrow> nat \<Rightarrow> u16" where
  "le16_at bs i = ucast (byte_at bs i) OR push_bit 8 (ucast (byte_at bs (i + 1)))"

definition le32_at :: "u8 list \<Rightarrow> nat \<Rightarrow> u32" where
  "le32_at bs i = ucast (le16_at bs i) OR push_bit 16 (ucast (le16_at bs (i + 2)))"

definition le64_at :: "u8 list \<Rightarrow> nat \<Rightarrow> u64" where
  "le64_at bs i = ucast (le32_at bs i) OR push_bit 32 (ucast (le32_at bs (i + 4)))"

text \<open>A C string literal as bytes.\<close>

definition cstr :: "string \<Rightarrow> u8 list" where
  "cstr s = map of_char s"

datatype part_result = OK | NO_PARTITION | END_OF_TABLE | INVALID_TABLE

record gpt_table_header =
  signature :: "u8 list"
  revision :: u32
  header_size :: u32
  crc32 :: u32
  my_lba :: u64
  alternate_lba :: u64
  first_usable_lba :: u64
  last_usable_lba :: u64
  disk_guid :: guid
  partition_entry_lba :: u64
  number_of_partition_entries :: u32
  size_of_partition_entry :: u32
  partition_entry_array_crc32 :: u32

definition read_gpt_table_header :: "u8 list \<Rightarrow> gpt_table_header" where
  "read_gpt_table_header bs =
     \<lparr>signature = bytes_at bs 0 8, revision = le32_at bs 8, header_size = le32_at bs 12,
      crc32 = le32_at bs 16, my_lba = le64_at bs 24, alternate_lba = le64_at bs 32,
      first_usable_lba = le64_at bs 40, last_usable_lba = le64_at bs 48,
      disk_guid = bytes_at bs 56 16, partition_entry_lba = le64_at bs 72,
      number_of_partition_entries = le32_at bs 80, size_of_partition_entry = le32_at bs 84,
      partition_entry_array_crc32 = le32_at bs 88\<rparr>"

record gpt_entry =
  partition_type_guid :: guid
  unique_partition_guid :: guid
  starting_lba :: u64
  ending_lba :: u64
  attributes :: u64
  partition_name :: "u8 list"

definition read_gpt_entry :: "u8 list \<Rightarrow> gpt_entry" where
  "read_gpt_entry bs =
     \<lparr>partition_type_guid = bytes_at bs 0 16, unique_partition_guid = bytes_at bs 16 16,
      starting_lba = le64_at bs 32, ending_lba = le64_at bs 40, attributes = le64_at bs 48,
      partition_name = bytes_at bs 56 72\<rparr>"

text \<open>
  \<^verbatim>\<open>fs_get_guid\<close> and \<^verbatim>\<open>fs_get_label\<close> (fs/file.h) are external: parameters of the model.
  They probe the new child volume and report an identifier or none; what their reads leave
  in the child's cache is not modelled.
\<close>

record fs_probes =
  fs_get_guid :: "volume \<Rightarrow> guid option"
  fs_get_label :: "volume \<Rightarrow> string option"

definition probe_filesystem :: "fs_probes \<Rightarrow> volume \<Rightarrow> volume" where
  "probe_filesystem pr ret =
     (let ret1 = (case fs_get_guid pr ret of
                    None \<Rightarrow> ret\<lparr>guid_valid := False\<rparr>
                  | Some g \<Rightarrow> ret\<lparr>guid_valid := True, guid := g\<rparr>)
      in (case fs_get_label pr ret1 of
            None \<Rightarrow> ret1\<lparr>fslabel_valid := False\<rparr>
          | Some l \<Rightarrow> ret1\<lparr>fslabel_valid := True, fslabel := l\<rparr>))"

text \<open>The loop of \<^verbatim>\<open>gpt_get_part\<close> over \<^verbatim>\<open>lb_guesses\<close>.\<close>

fun gpt_find_header ::
  "disk \<Rightarrow> volume \<Rightarrow> u64 list \<Rightarrow> fault + ((u64 \<times> u8 list) option \<times> volume)" where
  "gpt_find_header d v [] = Inr (None, v)"
| "gpt_find_header d v (lb # guesses) =
     (case volume_read d v (lb * 1) 92 of
        Inl f \<Rightarrow> Inl f
      | Inr (ok, bytes, v') \<Rightarrow>
          if \<not> ok then gpt_find_header d v' guesses
          else if bytes_at bytes 0 8 \<noteq> cstr ''EFI PART'' then gpt_find_header d v' guesses
          else Inr (Some (lb, bytes), v'))"

text \<open>
  \<^verbatim>\<open>gpt_get_part\<close> from the entry it has read: the checks on the entry and the child volume
  written to \<^verbatim>\<open>*ret\<close>. The parameter \<^verbatim>\<open>partition\<close> is \<open>part_idx\<close> here, the field
  keeping the name. (\<^verbatim>\<open>partition + 1\<close> is an \<^verbatim>\<open>int\<close> addition, undefined at
  \<^verbatim>\<open>INT_MAX\<close>; the model adds integers.)
\<close>

definition gpt_entry_part ::
  "fs_probes \<Rightarrow> volume \<Rightarrow> volume \<Rightarrow> int \<Rightarrow> u64 \<Rightarrow> gpt_entry \<Rightarrow> part_result \<times> volume" where
  "gpt_entry_part pr ret volume part_idx lb_size entry =
     (if unique_partition_guid entry = replicate 16 0 then (NO_PARTITION, ret)
      else if ending_lba entry < starting_lba entry then (NO_PARTITION, ret)
      else if mul_overflow (starting_lba entry) (lb_size div 512) then (NO_PARTITION, ret)
      else if ending_lba entry - starting_lba entry = - 1 then (NO_PARTITION, ret)
      else if mul_overflow (ending_lba entry - starting_lba entry + 1) (lb_size div 512)
        then (NO_PARTITION, ret)
      else
        (OK, (probe_filesystem pr
               (ret\<lparr>fastest_xfer_size := fastest_xfer_size volume,
                    index := index volume,
                    is_optical := is_optical volume,
                    partition := part_idx + 1,
                    sector_size := sector_size volume,
                    first_sect := starting_lba entry * (lb_size div 512),
                    sect_count := (ending_lba entry - starting_lba entry + 1) * (lb_size div 512)\<rparr>))
              \<lparr>part_guid_valid := True, part_guid := unique_partition_guid entry\<rparr>))"

definition gpt_get_part ::
  "disk \<Rightarrow> fs_probes \<Rightarrow> volume \<Rightarrow> volume \<Rightarrow> int \<Rightarrow> fault + (part_result \<times> volume \<times> volume)" where
  "gpt_get_part d pr ret volume part_idx =
     (case gpt_find_header d volume [512, 4096] of
        Inl f \<Rightarrow> Inl f
      | Inr (None, v1) \<Rightarrow> Inr (INVALID_TABLE, ret, v1)
      | Inr (Some (lb_size, hb), v1) \<Rightarrow>
          let header = read_gpt_table_header hb in
          if revision header \<noteq> 0x00010000 then Inr (INVALID_TABLE, ret, v1)
          else if (of_int part_idx :: u32) \<ge> number_of_partition_entries header
            then Inr (END_OF_TABLE, ret, v1)
          else if size_of_partition_entry header < 128 then Inr (INVALID_TABLE, ret, v1)
          else if mul_overflow (partition_entry_lba header) lb_size
            then Inr (INVALID_TABLE, ret, v1)
          else if add_overflow (partition_entry_lba header * lb_size)
                    (of_int part_idx * ucast (size_of_partition_entry header))
            then Inr (INVALID_TABLE, ret, v1)
          else
            (case volume_read d v1
                    (partition_entry_lba header * lb_size
                       + of_int part_idx * ucast (size_of_partition_entry header)) 128 of
               Inl f \<Rightarrow> Inl f
             | Inr (ok, eb, v2) \<Rightarrow>
                 if \<not> ok then Inr (END_OF_TABLE, ret, v2)
                 else (case gpt_entry_part pr ret volume part_idx lb_size (read_gpt_entry eb) of
                         (r, ret') \<Rightarrow> Inr (r, ret', v2))))"

record mbr_entry =
  mbr_status :: u8
  mbr_chs_first_sect :: "u8 list"
  mbr_type :: u8
  mbr_chs_last_sect :: "u8 list"
  mbr_first_sect :: u32
  mbr_sect_count :: u32

definition read_mbr_entry :: "u8 list \<Rightarrow> mbr_entry" where
  "read_mbr_entry bs =
     \<lparr>mbr_status = byte_at bs 0, mbr_chs_first_sect = bytes_at bs 1 3, mbr_type = byte_at bs 4,
      mbr_chs_last_sect = bytes_at bs 5 3, mbr_first_sect = le32_at bs 8,
      mbr_sect_count = le32_at bs 12\<rparr>"

text \<open>
  \<^verbatim>\<open>if (!volume_read(...)) return false;\<close> followed by the rest of the function, which
  sees the bytes read and the volume as the read left it.
\<close>

definition read_or_false ::
  "fault + (bool \<times> u8 list \<times> volume) \<Rightarrow> (u8 list \<Rightarrow> volume \<Rightarrow> fault + (bool \<times> volume))
     \<Rightarrow> fault + (bool \<times> volume)" where
  "read_or_false r k =
     (case r of Inl f \<Rightarrow> Inl f
      | Inr (ok, bytes, v) \<Rightarrow> if ok then k bytes v else Inr (False, v))"

definition is_valid_mbr :: "disk \<Rightarrow> volume \<Rightarrow> fault + (bool \<times> volume)" where
  "is_valid_mbr d volume =
     read_or_false (volume_read d volume 446 1) (\<lambda>hint v.
       if byte_at hint 0 \<noteq> 0x00 \<and> byte_at hint 0 \<noteq> 0x80 then Inr (False, v) else
     read_or_false (volume_read d v 462 1) (\<lambda>hint v.
       if byte_at hint 0 \<noteq> 0x00 \<and> byte_at hint 0 \<noteq> 0x80 then Inr (False, v) else
     read_or_false (volume_read d v 478 1) (\<lambda>hint v.
       if byte_at hint 0 \<noteq> 0x00 \<and> byte_at hint 0 \<noteq> 0x80 then Inr (False, v) else
     read_or_false (volume_read d v 494 1) (\<lambda>hint v.
       if byte_at hint 0 \<noteq> 0x00 \<and> byte_at hint 0 \<noteq> 0x80 then Inr (False, v) else
     read_or_false (volume_read d v 3 4) (\<lambda>hintc v.
       if bytes_at hintc 0 4 = cstr ''NTFS'' then Inr (False, v) else
     read_or_false (volume_read d v 54 3) (\<lambda>hintc v.
       if bytes_at hintc 0 3 = cstr ''FAT'' then Inr (False, v) else
     read_or_false (volume_read d v 82 3) (\<lambda>hintc v.
       if bytes_at hintc 0 3 = cstr ''FAT'' then Inr (False, v) else
     read_or_false (volume_read d v 3 5) (\<lambda>hintc v.
       if bytes_at hintc 0 5 = cstr ''FAT32'' then Inr (False, v) else
     read_or_false (volume_read d v 1080 2) (\<lambda>hint v.
       if le16_at hint 0 = 0xef53 then Inr (False, v) else Inr (True, v))))))))))"

text \<open>
  The chain walk of \<^verbatim>\<open>mbr_get_logical_part\<close>: \<open>n\<close> iterations are left, \<open>i\<close> is the loop
  counter and \<open>ebr_sector\<close> the current record. \<open>None\<close> is the \<^verbatim>\<open>END_OF_TABLE\<close> return.
\<close>

fun ebr_walk :: "disk \<Rightarrow> volume \<Rightarrow> int \<Rightarrow> nat \<Rightarrow> u64 \<Rightarrow> fault + (u64 option \<times> volume)" where
  "ebr_walk d extended_part i 0 ebr_sector = Inr (Some ebr_sector, extended_part)"
| "ebr_walk d extended_part i (Suc n) ebr_sector =
     (case volume_read d extended_part (ebr_sector * 512 + 0x1ce) 16 of
        Inl f \<Rightarrow> Inl f
      | Inr (ok, bytes, ep) \<Rightarrow>
          if \<not> ok then Inr (None, ep)
          else if mbr_type (read_mbr_entry bytes) \<noteq> 0x0f \<and> mbr_type (read_mbr_entry bytes) \<noteq> 0x05
            then Inr (None, ep)
          else if ucast (mbr_first_sect (read_mbr_entry bytes)) = (0 :: u64) \<or>
                  (i > 0 \<and> (ucast (mbr_first_sect (read_mbr_entry bytes)) :: u64) \<le> ebr_sector)
            then Inr (None, ep)
          else if (ucast (mbr_first_sect (read_mbr_entry bytes)) :: u64) \<ge> sect_count ep
            then Inr (None, ep)
          else ebr_walk d ep (i + 1) n (ucast (mbr_first_sect (read_mbr_entry bytes))))"

definition mbr_logical_entry_part ::
  "fs_probes \<Rightarrow> volume \<Rightarrow> volume \<Rightarrow> int \<Rightarrow> u64 \<Rightarrow> mbr_entry \<Rightarrow> part_result \<times> volume" where
  "mbr_logical_entry_part pr ret extended_part part_idx ebr_sector entry =
     (if mbr_type entry = 0 then (NO_PARTITION, ret)
      else if mbr_sect_count entry = 0 then (NO_PARTITION, ret)
      else if add_overflow (first_sect extended_part) ebr_sector then (NO_PARTITION, ret)
      else if add_overflow (first_sect extended_part + ebr_sector) (ucast (mbr_first_sect entry))
        then (NO_PARTITION, ret)
      else if add_overflow (first_sect extended_part + ebr_sector + ucast (mbr_first_sect entry))
                (ucast (mbr_sect_count entry))
        then (NO_PARTITION, ret)
      else
        (OK, (probe_filesystem pr
               (ret\<lparr>fastest_xfer_size := fastest_xfer_size extended_part,
                    index := index extended_part,
                    is_optical := is_optical extended_part,
                    partition := part_idx + 4 + 1,
                    sector_size := sector_size extended_part,
                    first_sect := first_sect extended_part + ebr_sector
                                    + ucast (mbr_first_sect entry),
                    sect_count := ucast (mbr_sect_count entry)\<rparr>))
              \<lparr>part_guid_valid := False\<rparr>))"

definition mbr_get_logical_part ::
  "disk \<Rightarrow> fs_probes \<Rightarrow> volume \<Rightarrow> volume \<Rightarrow> int \<Rightarrow> fault + (part_result \<times> volume)" where
  "mbr_get_logical_part d pr ret extended_part part_idx =
     (if part_idx \<ge> 256 then Inr (END_OF_TABLE, ret)
      else
        (case ebr_walk d extended_part 0 (nat part_idx) 0 of
           Inl f \<Rightarrow> Inl f
         | Inr (None, ep) \<Rightarrow> Inr (END_OF_TABLE, ret)
         | Inr (Some ebr_sector, ep) \<Rightarrow>
             (case volume_read d ep (ebr_sector * 512 + 0x1be) 16 of
                Inl f \<Rightarrow> Inl f
              | Inr (ok, bytes, ep') \<Rightarrow>
                  if \<not> ok then Inr (END_OF_TABLE, ret)
                  else Inr (mbr_logical_entry_part pr ret extended_part part_idx ebr_sector
                              (read_mbr_entry bytes)))))"

text \<open>\<^verbatim>\<open>struct volume extended_part = {0}\<close> with the fields \<^verbatim>\<open>mbr_get_part\<close> assigns.\<close>

definition extended_part_of :: "volume \<Rightarrow> int \<Rightarrow> mbr_entry \<Rightarrow> volume" where
  "extended_part_of volume i entry =
     \<lparr>pxe = False, fastest_xfer_size = fastest_xfer_size volume, index = index volume,
      is_optical = is_optical volume, partition = i + 1, sector_size = sector_size volume,
      first_sect = ucast (mbr_first_sect entry), sect_count = ucast (mbr_sect_count entry),
      cache_status = CACHE_NOT_READY, cache = None, cached_block = 0, guid_valid = False,
      guid = replicate 16 0, part_guid_valid = False, part_guid = replicate 16 0,
      fslabel_valid = False, fslabel = []\<rparr>"

text \<open>
  The search of \<^verbatim>\<open>mbr_get_part\<close> for the first extended primary entry, over the entries
  \<open>is\<close> still to look at.
\<close>

fun mbr_find_extended ::
  "disk \<Rightarrow> fs_probes \<Rightarrow> volume \<Rightarrow> volume \<Rightarrow> int \<Rightarrow> int list
     \<Rightarrow> fault + (part_result \<times> volume \<times> volume)" where
  "mbr_find_extended d pr ret volume part_idx [] = Inr (END_OF_TABLE, ret, volume)"
| "mbr_find_extended d pr ret volume part_idx (i # is) =
     (case volume_read d volume (0x1be + 16 * of_int i) 16 of
        Inl f \<Rightarrow> Inl f
      | Inr (ok, bytes, v) \<Rightarrow>
          if \<not> ok then mbr_find_extended d pr ret v part_idx is
          else if mbr_type (read_mbr_entry bytes) \<noteq> 0x0f \<and> mbr_type (read_mbr_entry bytes) \<noteq> 0x05
            then mbr_find_extended d pr ret v part_idx is
          else if mbr_sect_count (read_mbr_entry bytes) = 0
            then mbr_find_extended d pr ret v part_idx is
          else
            (case mbr_get_logical_part d pr ret (extended_part_of v i (read_mbr_entry bytes))
                    (part_idx - 4) of
               Inl f \<Rightarrow> Inl f
             | Inr (r, ret') \<Rightarrow> Inr (r, ret', v)))"

definition mbr_entry_part ::
  "fs_probes \<Rightarrow> volume \<Rightarrow> volume \<Rightarrow> int \<Rightarrow> mbr_entry \<Rightarrow> part_result \<times> volume" where
  "mbr_entry_part pr ret volume part_idx entry =
     (if mbr_type entry = 0 then (NO_PARTITION, ret)
      else if mbr_sect_count entry = 0 then (NO_PARTITION, ret)
      else
        (OK, (probe_filesystem pr
               (ret\<lparr>fastest_xfer_size := fastest_xfer_size volume,
                    index := index volume,
                    is_optical := is_optical volume,
                    partition := part_idx + 1,
                    sector_size := sector_size volume,
                    first_sect := ucast (mbr_first_sect entry),
                    sect_count := ucast (mbr_sect_count entry)\<rparr>))
              \<lparr>part_guid_valid := False\<rparr>))"

definition mbr_get_part ::
  "disk \<Rightarrow> fs_probes \<Rightarrow> volume \<Rightarrow> volume \<Rightarrow> int \<Rightarrow> fault + (part_result \<times> volume \<times> volume)" where
  "mbr_get_part d pr ret volume part_idx =
     (case is_valid_mbr d volume of
        Inl f \<Rightarrow> Inl f
      | Inr (valid, v) \<Rightarrow>
          if \<not> valid then Inr (INVALID_TABLE, ret, v)
          else if part_idx > 3 then mbr_find_extended d pr ret v part_idx [0, 1, 2, 3]
          else
            (case volume_read d v (0x1be + 16 * of_int part_idx) 16 of
               Inl f \<Rightarrow> Inl f
             | Inr (ok, bytes, v') \<Rightarrow>
                 if \<not> ok then Inr (END_OF_TABLE, ret, v')
                 else (case mbr_entry_part pr ret volume part_idx (read_mbr_entry bytes) of
                         (r, ret') \<Rightarrow> Inr (r, ret', v'))))"

definition part_get ::
  "disk \<Rightarrow> fs_probes \<Rightarrow> volume \<Rightarrow> volume \<Rightarrow> int \<Rightarrow> fault + (part_result \<times> volume \<times> volume)" where
  "part_get d pr part volume part_idx =
     (if part_idx < 0 then Inr (NO_PARTITION, part, volume)
      else
        (case gpt_get_part d pr part volume part_idx of
           Inl f \<Rightarrow> Inl f
         | Inr (r, part', v) \<Rightarrow>
             if r \<noteq> INVALID_TABLE then Inr (r, part', v)
             else
               (case mbr_get_part d pr part' v part_idx of
                  Inl f \<Rightarrow> Inl f
                | Inr (r', part'', v') \<Rightarrow>
                    if r' \<noteq> INVALID_TABLE then Inr (r', part'', v')
                    else Inr (INVALID_TABLE, part'', v'))))"

text \<open>
  A disk image with a GPT header at byte 512 and one entry at LBA 2, and probes that find
  nothing.
\<close>

definition gpt_image :: "nat \<Rightarrow> u8" where
  "gpt_image i =
     (if 512 \<le> i \<and> i < 520 then cstr ''EFI PART'' ! (i - 512)
      else if i = 522 then 1
      else if i = 584 then 2
      else if i = 592 then 4
      else if i = 596 then 128
      else if i = 1040 then 0xAA
      else if i = 1057 then 8
      else if i = 1064 then 0xFF
      else if i = 1065 then 0x0F
      else 0)"

definition gpt_disk :: disk where
  "gpt_disk = media gpt_image 512"

definition no_probes :: fs_probes where
  "no_probes = \<lparr>fs_get_guid = (\<lambda>_. None), fs_get_label = (\<lambda>_. None)\<rparr>"

lemma unat_max_u64: "unat (- 1 :: u64) = 2 ^ 64 - 1"
  by (simp add: unsigned_minus_1_eq_mask mask_eq_exp_minus_1)

lemma unat_max_u64_iff: "(w :: u64) = - 1 \<longleftrightarrow> unat w = 2 ^ 64 - 1"
  using unat_max_u64 by (metis word_unat_eq_iff)

lemma probe_filesystem_fields:
  "partition (probe_filesystem pr r) = partition r"
  "first_sect (probe_filesystem pr r) = first_sect r"
  "sect_count (probe_filesystem pr r) = sect_count r"
  "sector_size (probe_filesystem pr r) = sector_size r"
  "fastest_xfer_size (probe_filesystem pr r) = fastest_xfer_size r"
  "index (probe_filesystem pr r) = index r"
  "is_optical (probe_filesystem pr r) = is_optical r"
  "pxe (probe_filesystem pr r) = pxe r"
  by (simp_all add: probe_filesystem_def Let_def split: option.splits)

lemma gpt_find_header_guess:
  "gpt_find_header d v guesses = Inr (Some (lb, hb), v') \<Longrightarrow> lb \<in> set guesses"
  by (induction guesses arbitrary: v) (auto split: sum.splits prod.splits if_splits)

text \<open>The child volume the claim describes, for an entry that passes the checks.\<close>

definition gpt_child :: "volume \<Rightarrow> int \<Rightarrow> u64 \<Rightarrow> gpt_entry \<Rightarrow> volume \<Rightarrow> bool" where
  "gpt_child volume part_idx lb_size entry child =
     (partition child = part_idx + 1 \<and>
      unat (first_sect child) = unat (starting_lba entry) * unat (lb_size div 512) \<and>
      unat (sect_count child)
         = (unat (ending_lba entry) - unat (starting_lba entry) + 1) * unat (lb_size div 512) \<and>
      part_guid_valid child \<and> part_guid child = unique_partition_guid entry \<and>
      sector_size child = sector_size volume \<and>
      fastest_xfer_size child = fastest_xfer_size volume \<and>
      index child = index volume \<and> is_optical child = is_optical volume)"

definition gpt_entry_rejected :: "u64 \<Rightarrow> gpt_entry \<Rightarrow> bool" where
  "gpt_entry_rejected lb_size entry =
     (unique_partition_guid entry = replicate 16 0 \<or>
      ending_lba entry < starting_lba entry \<or>
      2 ^ 64 \<le> unat (starting_lba entry) * unat (lb_size div 512) \<or>
      2 ^ 64 \<le> (unat (ending_lba entry) - unat (starting_lba entry) + 1) * unat (lb_size div 512))"

lemma gpt_entry_part_cases:
  assumes lb: "lb_size = 512 \<or> lb_size = 4096"
  shows "if gpt_entry_rejected lb_size entry
         then gpt_entry_part pr ret volume part_idx lb_size entry = (NO_PARTITION, ret)
         else (\<exists>child. gpt_entry_part pr ret volume part_idx lb_size entry = (OK, child) \<and>
                 gpt_child volume part_idx lb_size entry child)"
proof -
  let ?m = "lb_size div 512"
  let ?s = "starting_lba entry" and ?e = "ending_lba entry"
  have m: "0 < unat ?m"
    using lb by auto
  show ?thesis
  proof (cases "unique_partition_guid entry = replicate 16 0 \<or> ?e < ?s")
    case True
    then show ?thesis
      by (auto simp add: gpt_entry_rejected_def gpt_entry_part_def)
  next
    case False
    then have le: "unat ?s \<le> unat ?e"
      by (simp add: word_less_nat_alt)
    then have d: "unat (?e - ?s) = unat ?e - unat ?s"
      by (simp add: unat_sub word_le_nat_alt)
    show ?thesis
    proof (cases "?e - ?s = - 1")
      case True
      then have "unat ?e - unat ?s + 1 = 2 ^ 64"
        using d by (simp add: unat_max_u64_iff)
      then have "2 ^ 64 \<le> (unat ?e - unat ?s + 1) * unat ?m"
        using m by simp
      then show ?thesis
        using True by (simp add: gpt_entry_rejected_def gpt_entry_part_def)
    next
      case ne: False
      then have "unat (?e - ?s) \<noteq> 2 ^ 64 - 1"
        by (simp add: unat_max_u64_iff)
      then have "unat (?e - ?s) + 1 < 2 ^ 64"
        using unat_lt_2_64 [of "?e - ?s"] by simp
      then have b: "unat (?e - ?s + 1) = unat ?e - unat ?s + 1"
        using d by (simp add: unat_add_lem [THEN iffD1])
      show ?thesis
      proof (cases "mul_overflow ?s ?m \<or> mul_overflow (?e - ?s + 1) ?m")
        case True
        then show ?thesis
          using False ne b
          by (auto simp add: gpt_entry_rejected_def gpt_entry_part_def mul_overflow_def)
      next
        case nov: False
        then have p: "unat (?s * ?m) = unat ?s * unat ?m"
            "unat ((?e - ?s + 1) * ?m) = (unat ?e - unat ?s + 1) * unat ?m"
          using b by (simp_all add: mul_overflow_def unat_mult_lem [THEN iffD1])
        have "\<not> gpt_entry_rejected lb_size entry"
          using False nov b by (simp add: gpt_entry_rejected_def mul_overflow_def)
        then show ?thesis
          using False ne nov p
          by (simp add: gpt_entry_part_def gpt_child_def probe_filesystem_fields)
      qed
    qed
  qed
qed

lemma byte_at_device_bytes:
  "byte_at (device_bytes content v loc n) i = (if i < n then content (dev_base v + loc + i) else 0)"
  by (simp add: byte_at_def device_bytes_def)

lemma replicate_16: "replicate 16 x = [x, x, x, x, x, x, x, x, x, x, x, x, x, x, x, x]"
  by (simp add: eval_nat_numeral)

lemma media_after_simps:
  "vol_ok (media_after c v l n) = vol_ok v"
  "dev_base (media_after c v l n) = dev_base v"
  "sector_size (media_after c v l n) = sector_size v"
  "sect_count (media_after c v l n) = sect_count v"
  "readable (media_after c v l n) loc k = readable v loc k"
  "device_bytes c' (media_after c v l n) = device_bytes c' v"
  using media_after_props(1) [of v c l n]
  by (simp_all add: vol_ok_same_device dev_base_same_device same_device_fields
      readable_same_device device_bytes_def fun_eq_iff)

lemma whole_disk_media:
  "vol_ok whole_disk" "coherent c whole_disk" "dev_base whole_disk = 0"
  "sector_size whole_disk = 512" "sect_count whole_disk = - 1"
  by (simp_all add: whole_disk_def demo_volume_def vol_ok_def coherent_def dev_base_def
      block_bytes_def)

section \<open>Claims about the partition tables\<close>

text \<open>
  C3. When \<^verbatim>\<open>gpt_get_part\<close> has found a GPT header with the right revision, the index is
  below the number of entries, the entry size and offset pass their checks and the entry
  was read: if the entry's unique partition GUID is all zeros, or \<open>ending_lba < starting_lba\<close>,
  or a conversion of an LBA or the block count to 512-byte units does not fit 64 bits, the
  result is \<^verbatim>\<open>NO_PARTITION\<close> and \<^verbatim>\<open>*ret\<close> is untouched; otherwise the result is OK and the
  child has \<open>partition = index + 1\<close>, \<open>first_sect = starting_lba \<times> (lb_size / 512)\<close>,
  \<open>sect_count = (ending_lba - starting_lba + 1) \<times> (lb_size / 512)\<close> (both exact), the
  entry's unique partition GUID as \<open>part_guid\<close>, and the parent's \<open>sector_size\<close>,
  \<open>fastest_xfer_size\<close>, \<open>index\<close> and \<open>is_optical\<close>.
\<close>

theorem gpt_get_part_entry:
  assumes "gpt_find_header d volume [512, 4096] = Inr (Some (lb_size, hb), v1)"
    and "revision (read_gpt_table_header hb) = 0x00010000"
    and "(of_int part_idx :: u32) < number_of_partition_entries (read_gpt_table_header hb)"
    and "128 \<le> size_of_partition_entry (read_gpt_table_header hb)"
    and "\<not> mul_overflow (partition_entry_lba (read_gpt_table_header hb)) lb_size"
    and "\<not> add_overflow (partition_entry_lba (read_gpt_table_header hb) * lb_size)
              (of_int part_idx * ucast (size_of_partition_entry (read_gpt_table_header hb)))"
    and "volume_read d v1
           (partition_entry_lba (read_gpt_table_header hb) * lb_size
              + of_int part_idx * ucast (size_of_partition_entry (read_gpt_table_header hb))) 128
         = Inr (True, eb, v2)"
  shows "if gpt_entry_rejected lb_size (read_gpt_entry eb)
         then gpt_get_part d pr ret volume part_idx = Inr (NO_PARTITION, ret, v2)
         else (\<exists>child. gpt_get_part d pr ret volume part_idx = Inr (OK, child, v2) \<and>
                 gpt_child volume part_idx lb_size (read_gpt_entry eb) child)"
proof -
  have lb: "lb_size = 512 \<or> lb_size = 4096"
    using gpt_find_header_guess [OF assms(1)] by simp
  have g: "gpt_get_part d pr ret volume part_idx
             = (case gpt_entry_part pr ret volume part_idx lb_size (read_gpt_entry eb) of
                  (r, ret') \<Rightarrow> Inr (r, ret', v2))"
    using assms(1,2,5,6,7) leD [OF assms(4)] leD [OF less_imp_le [OF assms(3)]] assms(3)
    by (auto simp add: gpt_get_part_def Let_def not_le simp del: gpt_find_header.simps)
  show ?thesis
    using gpt_entry_part_cases [OF lb, of "read_gpt_entry eb" pr ret volume part_idx]
    by (auto simp add: g split: if_splits)
qed

theorem gpt_get_part_entry_witness:
  "\<exists>hb v1 eb v2 child.
     gpt_find_header gpt_disk whole_disk [512, 4096] = Inr (Some (512, hb), v1) \<and>
     revision (read_gpt_table_header hb) = 0x00010000 \<and>
     (of_int 0 :: u32) < number_of_partition_entries (read_gpt_table_header hb) \<and>
     128 \<le> size_of_partition_entry (read_gpt_table_header hb) \<and>
     volume_read gpt_disk v1 1024 128 = Inr (True, eb, v2) \<and>
     \<not> gpt_entry_rejected 512 (read_gpt_entry eb) \<and>
     gpt_get_part gpt_disk no_probes demo_volume whole_disk 0 = Inr (OK, child, v2) \<and>
     partition child = 1 \<and> first_sect child = 2048 \<and> sect_count child = 2048"
proof -
  let ?hb = "device_bytes gpt_image whole_disk 512 92"
  let ?v1 = "media_after gpt_image whole_disk 512 92"
  let ?eb = "device_bytes gpt_image whole_disk 1024 128"
  let ?v2 = "media_after gpt_image ?v1 1024 128"
  let ?h = "read_gpt_table_header ?hb"
  let ?e = "read_gpt_entry ?eb"
  note ev = byte_at_device_bytes whole_disk_media gpt_image_def le64_at_def le32_at_def
    le16_at_def
  have r1: "volume_read gpt_disk whole_disk 512 92 = Inr (True, ?hb, ?v1)"
    using volume_read_media_eq [of whole_disk gpt_image 512 92] whole_disk_media
    by (simp add: gpt_disk_def readable_def)
  have sig: "bytes_at ?hb 0 8 = cstr ''EFI PART''"
    by (simp add: bytes_at_def ev cstr_def upt_rec)
  have find: "gpt_find_header gpt_disk whole_disk [512, 4096] = Inr (Some (512, ?hb), ?v1)"
    using r1 sig by simp
  have h: "revision ?h = 0x00010000" "number_of_partition_entries ?h = 4"
    "size_of_partition_entry ?h = 128" "partition_entry_lba ?h = 2"
    by (simp_all add: read_gpt_table_header_def ev)
  have r2: "volume_read gpt_disk ?v1 1024 128 = Inr (True, ?eb, ?v2)"
    using volume_read_media_eq [of ?v1 gpt_image 1024 128] whole_disk_media
      media_after_props(2) [of gpt_image whole_disk 512 92]
    by (simp add: gpt_disk_def readable_def media_after_simps)
  have e: "starting_lba ?e = 2048" "ending_lba ?e = 4095"
    "unique_partition_guid ?e \<noteq> replicate 16 0"
    by (simp_all add: read_gpt_entry_def bytes_at_def ev upt_rec replicate_16)
  have nr: "\<not> gpt_entry_rejected 512 ?e"
    using e by (simp add: gpt_entry_rejected_def)
  have "if gpt_entry_rejected 512 ?e
         then gpt_get_part gpt_disk no_probes demo_volume whole_disk 0
                = Inr (NO_PARTITION, demo_volume, ?v2)
         else (\<exists>child. gpt_get_part gpt_disk no_probes demo_volume whole_disk 0
                          = Inr (OK, child, ?v2) \<and>
                 gpt_child whole_disk 0 512 ?e child)"
    using h r2
    by (intro gpt_get_part_entry [OF find]) (simp_all add: mul_overflow_def add_overflow_def)
  then obtain child where c:
    "gpt_get_part gpt_disk no_probes demo_volume whole_disk 0 = Inr (OK, child, ?v2)"
    "gpt_child whole_disk 0 512 ?e child"
    using nr by auto
  have "partition child = 1" "unat (first_sect child) = 2048" "unat (sect_count child) = 2048"
    using c(2) e by (simp_all add: gpt_child_def)
  then have "partition child = 1" "first_sect child = 2048" "sect_count child = 2048"
    by (simp_all add: word_unat_eq_iff)
  then show ?thesis
    using find h r2 nr c(1) by (intro exI [of _ ?hb] exI [of _ ?v1] exI [of _ ?eb] exI [of _ ?v2]
        exI [of _ child]) simp
qed

section \<open>Partition lookup returns on every input\<close>

definition returns :: "fault + 'a \<Rightarrow> ('a \<Rightarrow> bool) \<Rightarrow> bool" where
  "returns m Q = (case m of Inl f \<Rightarrow> False | Inr x \<Rightarrow> Q x)"

text \<open>What \<^verbatim>\<open>part_get\<close> leaves in \<^verbatim>\<open>*part\<close>, by result.\<close>

definition part_child :: "volume \<Rightarrow> volume \<Rightarrow> int \<Rightarrow> part_result \<Rightarrow> volume \<Rightarrow> bool" where
  "part_child ret volume part_idx r ret' =
     (if r = OK then
        sect_count ret' \<noteq> 0 \<and> partition ret' = part_idx + 1 \<and>
        sector_size ret' = sector_size volume \<and>
        fastest_xfer_size ret' = fastest_xfer_size volume \<and>
        index ret' = index volume \<and> is_optical ret' = is_optical volume
      else ret' = ret)"

lemma returns_Inr [simp]: "returns (Inr x) Q = Q x"
  by (simp add: returns_def)

lemma returns_Inl [simp]: "returns (Inl f) Q = False"
  by (simp add: returns_def)

lemma returnsE:
  assumes "returns m Q"
  obtains x where "m = Inr x" "Q x"
  using assms by (cases m) simp_all

lemma returns_weaken: "returns m P \<Longrightarrow> (\<And>x. P x \<Longrightarrow> Q x) \<Longrightarrow> returns m Q"
  by (cases m) simp_all

lemma volume_read_ret:
  assumes "well_formed v"
  shows "returns (volume_read d v loc count) (\<lambda>(ok, bytes, v'). same_device v v' \<and> well_formed v')"
  using volume_read_returns [OF assms, of d loc count] by auto

lemma gpt_find_header_ret:
  "well_formed v \<Longrightarrow>
   returns (gpt_find_header d v guesses)
     (\<lambda>(r, v'). same_device v v' \<and> well_formed v' \<and>
        (\<forall>lb hb. r = Some (lb, hb) \<longrightarrow> lb \<in> set guesses))"
proof (induction guesses arbitrary: v)
  case Nil
  then show ?case by (simp add: same_device_refl)
next
  case (Cons lb guesses)
  from volume_read_ret [OF Cons.prems, of d "lb * 1" 92]
  obtain ok bytes v' where r: "volume_read d v (lb * 1) 92 = Inr (ok, bytes, v')"
    "same_device v v'" "well_formed v'"
    by (auto elim!: returnsE)
  have "returns (gpt_find_header d v' guesses)
     (\<lambda>(r, v''). same_device v v'' \<and> well_formed v'' \<and>
        (\<forall>lb' hb. r = Some (lb', hb) \<longrightarrow> lb' \<in> set (lb # guesses)))"
    using r(2)
    by (intro returns_weaken [OF Cons.IH [OF r(3)]]) (auto intro: same_device_trans)
  then show ?case
    using r by simp
qed

lemma unat_ucast_u32_u64: "unat (ucast (w :: u32) :: u64) = unat w"
proof -
  have "unat w < 2 ^ 32"
    using unsigned_less [of w, where 'a = nat] by simp
  then have "unat w < 2 ^ 64"
    by simp
  then show ?thesis
    by (simp add: unsigned_ucast_eq take_bit_nat_eq_self)
qed

lemma ucast_u32_u64_eq_0: "(ucast (w :: u32) :: u64) = 0 \<longleftrightarrow> w = 0"
  using unat_ucast_u32_u64 [of w] by (metis unat_eq_0)

text \<open>A disk image whose only structure is one primary MBR entry.\<close>

definition mbr_image :: "nat \<Rightarrow> u8" where
  "mbr_image i = (if i = 450 then 0x83 else if i = 454 then 100 else if i = 458 then 50 else 0)"

definition mbr_disk :: disk where
  "mbr_disk = media mbr_image 512"

lemma gpt_get_part_ret:
  assumes "well_formed volume"
  shows "returns (gpt_get_part d pr ret volume part_idx)
     (\<lambda>(r, ret', v'). same_device volume v' \<and> well_formed v' \<and>
                      part_child ret volume part_idx r ret')"
proof -
  from gpt_find_header_ret [OF assms, of d "[512, 4096]"]
  obtain r v1 where f: "gpt_find_header d volume [512, 4096] = Inr (r, v1)"
    "same_device volume v1" "well_formed v1"
    "\<forall>lb hb. r = Some (lb, hb) \<longrightarrow> lb \<in> set [512, 4096]"
    by (auto elim!: returnsE)
  show ?thesis
  proof (cases r)
    case None
    then show ?thesis
      using f by (simp add: gpt_get_part_def part_child_def del: gpt_find_header.simps)
  next
    case (Some a)
    obtain lb_size hb where a: "a = (lb_size, hb)" by (cases a)
    have lb: "lb_size = 512 \<or> lb_size = 4096"
      using f(4) Some a by simp
    let ?h = "read_gpt_table_header hb"
    let ?off = "partition_entry_lba ?h * lb_size + of_int part_idx * ucast (size_of_partition_entry ?h)"
    from volume_read_ret [OF f(3), of d ?off 128]
    obtain ok eb v2 where e: "volume_read d v1 ?off 128 = Inr (ok, eb, v2)"
      "same_device v1 v2" "well_formed v2"
      by (auto elim!: returnsE)
    have sd: "same_device volume v2"
      using f(2) e(2) by (rule same_device_trans)
    have pc: "part_child ret volume part_idx r' ret'"
      if "gpt_entry_part pr ret volume part_idx lb_size (read_gpt_entry eb) = (r', ret')" for r' ret'
    proof (cases "gpt_entry_rejected lb_size (read_gpt_entry eb)")
      case True
      then show ?thesis
        using gpt_entry_part_cases [OF lb, of "read_gpt_entry eb" pr ret volume part_idx] that
        by (simp add: part_child_def)
    next
      case False
      then have c: "r' = OK" "gpt_child volume part_idx lb_size (read_gpt_entry eb) ret'"
        using gpt_entry_part_cases [OF lb, of "read_gpt_entry eb" pr ret volume part_idx] that
        by auto
      have "0 < unat (lb_size div 512)"
        using lb by auto
      then have "unat (sect_count ret') \<noteq> 0"
        using c(2) by (simp add: gpt_child_def)
      then have "sect_count ret' \<noteq> 0"
        by (metis unat_0)
      then show ?thesis
        using c by (simp add: part_child_def gpt_child_def)
    qed
    obtain r' ret' where g: "gpt_entry_part pr ret volume part_idx lb_size (read_gpt_entry eb) = (r', ret')"
      by (cases "gpt_entry_part pr ret volume part_idx lb_size (read_gpt_entry eb)")
    show ?thesis
      using f(1,2,3) Some a e sd pc [OF g] g
      by (simp add: gpt_get_part_def Let_def part_child_def del: gpt_find_header.simps)
  qed
qed

lemma read_or_false_ret:
  assumes "well_formed v"
    and "\<And>bytes v'. same_device v v' \<Longrightarrow> well_formed v' \<Longrightarrow>
           returns (k bytes v') (\<lambda>(b, w). same_device v w \<and> well_formed w)"
  shows "returns (read_or_false (volume_read d v loc count) k)
           (\<lambda>(b, w). same_device v w \<and> well_formed w)"
proof -
  from volume_read_ret [OF assms(1), of d loc count]
  obtain ok bytes v' where r: "volume_read d v loc count = Inr (ok, bytes, v')"
    "same_device v v'" "well_formed v'"
    by (auto elim!: returnsE)
  show ?thesis
    using r assms(2) [OF r(2,3), of bytes] by (simp add: read_or_false_def)
qed

lemma read_or_false_step:
  assumes "same_device v0 v" "well_formed v"
    and k: "\<And>bytes v'. same_device v0 v' \<Longrightarrow> well_formed v' \<Longrightarrow>
           returns (k bytes v') (\<lambda>(b, w). same_device v0 w \<and> well_formed w)"
  shows "returns (read_or_false (volume_read d v loc count) k)
           (\<lambda>(b, w). same_device v0 w \<and> well_formed w)"
proof -
  from volume_read_ret [OF assms(2), of d loc count]
  obtain ok bytes v' where r: "volume_read d v loc count = Inr (ok, bytes, v')"
    "same_device v v'" "well_formed v'"
    by (auto elim!: returnsE)
  have sd: "same_device v0 v'"
    using assms(1) r(2) by (rule same_device_trans)
  show ?thesis
    using r sd k [OF sd r(3), of bytes] by (simp add: read_or_false_def)
qed

lemma returns_if: "returns a Q \<Longrightarrow> returns b Q \<Longrightarrow> returns (if c then a else b) Q"
  by simp

lemma is_valid_mbr_ret:
  assumes "well_formed volume"
  shows "returns (is_valid_mbr d volume) (\<lambda>(b, w). same_device volume w \<and> well_formed w)"
  unfolding is_valid_mbr_def
  by (intro read_or_false_step returns_if; (simp add: same_device_refl assms)?)

lemma ebr_walk_ret:
  "well_formed ep \<Longrightarrow>
   returns (ebr_walk d ep i n ebr_sector) (\<lambda>(r, ep'). same_device ep ep' \<and> well_formed ep')"
proof (induction n arbitrary: ep i ebr_sector)
  case 0
  then show ?case by (simp add: same_device_refl)
next
  case (Suc n)
  from volume_read_ret [OF Suc.prems, of d "ebr_sector * 512 + 0x1ce" 16]
  obtain ok bytes ep' where r: "volume_read d ep (ebr_sector * 512 + 0x1ce) 16 = Inr (ok, bytes, ep')"
    "same_device ep ep'" "well_formed ep'"
    by (auto elim!: returnsE)
  have ih: "returns (ebr_walk d ep' i' n e') (\<lambda>(r, w). same_device ep w \<and> well_formed w)" for i' e'
    using r(2)
    by (intro returns_weaken [OF Suc.IH [OF r(3)]]) (auto intro: same_device_trans)
  show ?case
    using r ih by (simp del: ebr_walk.simps(1))
qed

lemma extended_part_well_formed:
  "well_formed v \<Longrightarrow> well_formed (extended_part_of v i entry)"
  by (simp add: well_formed_def extended_part_of_def cache_present_def)

lemma mbr_logical_entry_part_child:
  assumes "mbr_logical_entry_part pr ret ep part_idx ebr_sector entry = (r, ret')"
  shows "part_child ret ep (part_idx + 4) r ret'"
  using assms
  by (auto simp add: mbr_logical_entry_part_def part_child_def probe_filesystem_fields
      ucast_u32_u64_eq_0 split: if_splits)

lemma mbr_entry_part_child:
  assumes "mbr_entry_part pr ret volume part_idx entry = (r, ret')"
  shows "part_child ret volume part_idx r ret'"
  using assms
  by (auto simp add: mbr_entry_part_def part_child_def probe_filesystem_fields
      ucast_u32_u64_eq_0 split: if_splits)

lemma part_child_same_device:
  "same_device v v' \<Longrightarrow> part_child ret v' p r ret' = part_child ret v p r ret'"
  by (simp add: part_child_def same_device_fields)

lemma mbr_get_logical_part_ret:
  assumes "well_formed ep"
  shows "returns (mbr_get_logical_part d pr ret ep part_idx)
           (\<lambda>(r, ret'). part_child ret ep (part_idx + 4) r ret')"
proof (cases "part_idx \<ge> 256")
  case True
  then show ?thesis
    by (simp add: mbr_get_logical_part_def part_child_def)
next
  case False
  from ebr_walk_ret [OF assms, of d 0 "nat part_idx" 0]
  obtain w ep1 where w: "ebr_walk d ep 0 (nat part_idx) 0 = Inr (w, ep1)"
    "same_device ep ep1" "well_formed ep1"
    by (auto elim!: returnsE)
  show ?thesis
  proof (cases w)
    case None
    then show ?thesis
      using False w by (simp add: mbr_get_logical_part_def part_child_def)
  next
    case (Some ebr_sector)
    from volume_read_ret [OF w(3), of d "ebr_sector * 512 + 0x1be" 16]
    obtain ok bytes ep2 where r: "volume_read d ep1 (ebr_sector * 512 + 0x1be) 16 = Inr (ok, bytes, ep2)"
      by (auto elim!: returnsE)
    obtain r' ret' where m: "mbr_logical_entry_part pr ret ep part_idx ebr_sector
                               (read_mbr_entry bytes) = (r', ret')"
      by (cases "mbr_logical_entry_part pr ret ep part_idx ebr_sector (read_mbr_entry bytes)")
    show ?thesis
      using False w Some r m mbr_logical_entry_part_child [OF m]
      by (simp add: mbr_get_logical_part_def part_child_def)
  qed
qed

lemma mbr_find_extended_ret:
  "well_formed v \<Longrightarrow>
   returns (mbr_find_extended d pr ret v part_idx entries)
     (\<lambda>(r, ret', v'). same_device v v' \<and> well_formed v' \<and> part_child ret v part_idx r ret')"
proof (induction entries arbitrary: v)
  case Nil
  then show ?case by (simp add: same_device_refl part_child_def)
next
  case (Cons i entries)
  from volume_read_ret [OF Cons.prems, of d "0x1be + 16 * of_int i" 16]
  obtain ok bytes v1 where r: "volume_read d v (0x1be + 16 * of_int i) 16 = Inr (ok, bytes, v1)"
    "same_device v v1" "well_formed v1"
    by (auto elim!: returnsE)
  have ih: "returns (mbr_find_extended d pr ret v1 part_idx entries)
     (\<lambda>(r, ret', v'). same_device v v' \<and> well_formed v' \<and> part_child ret v part_idx r ret')"
    using r(2)
    by (intro returns_weaken [OF Cons.IH [OF r(3)]])
      (auto intro: same_device_trans simp: part_child_same_device)
  let ?ep = "extended_part_of v1 i (read_mbr_entry bytes)"
  from mbr_get_logical_part_ret [OF extended_part_well_formed [OF r(3)], of d pr ret i
      "read_mbr_entry bytes" "part_idx - 4"]
  obtain r' ret' where l: "mbr_get_logical_part d pr ret ?ep (part_idx - 4) = Inr (r', ret')"
    "part_child ret ?ep part_idx r' ret'"
    by (auto elim!: returnsE)
  have "part_child ret v part_idx r' ret'"
    using l(2) r(2) by (simp add: part_child_def extended_part_of_def same_device_fields)
  then show ?case
    using r ih l(1) by simp
qed

lemma mbr_get_part_ret:
  assumes "well_formed volume"
  shows "returns (mbr_get_part d pr ret volume part_idx)
     (\<lambda>(r, ret', v'). same_device volume v' \<and> well_formed v' \<and>
                      part_child ret volume part_idx r ret')"
proof -
  from is_valid_mbr_ret [OF assms, of d]
  obtain valid v where m: "is_valid_mbr d volume = Inr (valid, v)"
    "same_device volume v" "well_formed v"
    by (auto elim!: returnsE)
  show ?thesis
  proof (cases "valid \<and> part_idx > 3")
    case True
    have "returns (mbr_find_extended d pr ret v part_idx [0, 1, 2, 3])
     (\<lambda>(r, ret', v'). same_device volume v' \<and> well_formed v' \<and>
                      part_child ret volume part_idx r ret')"
      using m(2)
      by (intro returns_weaken [OF mbr_find_extended_ret [OF m(3)]])
        (auto intro: same_device_trans simp: part_child_same_device)
    then show ?thesis
      using True m(1) by (simp add: mbr_get_part_def del: mbr_find_extended.simps)
  next
    case False
    from volume_read_ret [OF m(3), of d "0x1be + 16 * of_int part_idx" 16]
    obtain ok bytes v1 where r:
      "volume_read d v (0x1be + 16 * of_int part_idx) 16 = Inr (ok, bytes, v1)"
      "same_device v v1" "well_formed v1"
      by (auto elim!: returnsE)
    obtain r' ret' where e: "mbr_entry_part pr ret volume part_idx (read_mbr_entry bytes) = (r', ret')"
      by (cases "mbr_entry_part pr ret volume part_idx (read_mbr_entry bytes)")
    show ?thesis
      using False m r e mbr_entry_part_child [OF e] same_device_trans [OF m(2) r(2)]
      by (auto simp add: mbr_get_part_def part_child_def simp del: mbr_find_extended.simps)
  qed
qed

lemma volume_read_media_simp:
  assumes "vol_ok v" "coherent content v" "readable v loc (unat count)"
    and "dev_base v + unat loc + unat count \<le> 2 ^ 64" "sector_size v = ss"
  shows "volume_read (media content ss) v loc count
           = Inr (True, device_bytes content v (unat loc) (unat count),
                  media_after content v loc count)"
  using volume_read_media_eq [OF assms(1-4)] assms(5) by simp

lemma volume_read_rejected:
  assumes "\<not> pxe v" "sect_count v \<noteq> - 1"
    and "mul_overflow (sect_count v) (sector_size v) \<or> loc \<ge> sect_count v * sector_size v \<or>
         count > sect_count v * sector_size v - loc"
  shows "volume_read d v loc count = Inr (False, [], v)"
  using assms by (auto simp add: volume_read_def)

lemma media_after_coherent: "coherent c v \<Longrightarrow> coherent c (media_after c v l n)"
  by (rule media_after_props)

lemma media_after_pxe: "pxe (media_after c v l n) = pxe v"
  using media_after_props(1) [of v c l n] by (simp add: same_device_fields)

lemma demo_volume_media:
  "vol_ok demo_volume" "coherent c demo_volume" "dev_base demo_volume = 0"
  "sector_size demo_volume = 512" "sect_count demo_volume = 8" "\<not> pxe demo_volume"
  "fastest_xfer_size demo_volume = 2" "index demo_volume = 0" "is_optical demo_volume = False"
  "first_sect demo_volume = 0"
  by (simp_all add: demo_volume_def vol_ok_def coherent_def dev_base_def block_bytes_def)

lemmas media_eval = volume_read_media_simp media_after_simps media_after_coherent media_after_pxe
  demo_volume_media readable_def part_size_def byte_at_device_bytes

lemma gpt_on_mbr_disk:
  "gpt_get_part mbr_disk no_probes demo_volume demo_volume 0
     = Inr (INVALID_TABLE, demo_volume, media_after mbr_image demo_volume 512 92)"
proof -
  have "volume_read mbr_disk (media_after mbr_image demo_volume 512 92) 4096 92
          = Inr (False, [], media_after mbr_image demo_volume 512 92)"
    by (rule volume_read_rejected) (simp_all add: media_eval)
  moreover have "bytes_at (device_bytes mbr_image demo_volume 512 92) 0 8 \<noteq> cstr ''EFI PART''"
    by (simp add: bytes_at_def media_eval mbr_image_def cstr_def upt_rec)
  ultimately show ?thesis
    by (simp add: gpt_get_part_def mbr_disk_def media_eval)
qed

lemma valid_mbr_disk:
  assumes "same_device demo_volume v" "coherent mbr_image v"
  shows "\<exists>v'. is_valid_mbr mbr_disk v = Inr (True, v') \<and> same_device demo_volume v' \<and>
           coherent mbr_image v'"
proof -
  note sd = same_device_fields [OF assms(1)]
  have v: "vol_ok v" "dev_base v = 0" "sector_size v = 512" "sect_count v = 8"
    using assms(1) demo_volume_media
    by (simp_all add: vol_ok_same_device dev_base_same_device sd)
  have sd': "same_device demo_volume (media_after c w l n)" if "same_device demo_volume w" for c w l n
    using that media_after_props(1) by (rule same_device_trans)
  show ?thesis
    unfolding is_valid_mbr_def read_or_false_def mbr_disk_def
    by (simp add: media_eval v assms sd' mbr_image_def bytes_at_def cstr_def upt_rec le16_at_def)
qed

lemma part_get_on_mbr_disk:
  "returns (part_get mbr_disk no_probes demo_volume demo_volume 0)
     (\<lambda>(r, child, v'). r = OK \<and> first_sect child = 100 \<and> sect_count child = 50 \<and>
        unat (first_sect demo_volume) + unat (sect_count demo_volume) = 8 \<and>
        unat (first_sect demo_volume) + unat (sect_count demo_volume)
          < unat (first_sect child) + unat (sect_count child))"
proof -
  let ?v1 = "media_after mbr_image demo_volume 512 92"
  have sd1: "same_device demo_volume ?v1"
    by (rule media_after_props)
  from valid_mbr_disk [OF sd1 media_after_coherent [OF demo_volume_media(2)]]
  obtain v2 where v2: "is_valid_mbr mbr_disk ?v1 = Inr (True, v2)" "same_device demo_volume v2"
    "coherent mbr_image v2"
    by blast
  note sd = same_device_fields [OF v2(2)]
  have v: "vol_ok v2" "dev_base v2 = 0" "sector_size v2 = 512" "sect_count v2 = 8"
    using v2(2) demo_volume_media
    by (simp_all add: vol_ok_same_device dev_base_same_device sd)
  have rd: "volume_read mbr_disk v2 446 16
              = Inr (True, device_bytes mbr_image v2 446 16, media_after mbr_image v2 446 16)"
    by (simp add: mbr_disk_def media_eval v v2)
  have e: "mbr_type (read_mbr_entry (device_bytes mbr_image v2 446 16)) = 0x83"
    "mbr_first_sect (read_mbr_entry (device_bytes mbr_image v2 446 16)) = 100"
    "mbr_sect_count (read_mbr_entry (device_bytes mbr_image v2 446 16)) = 50"
    by (simp_all add: read_mbr_entry_def le32_at_def le16_at_def media_eval v mbr_image_def)
  let ?e = "read_mbr_entry (device_bytes mbr_image v2 446 16)"
  have "mbr_get_part mbr_disk no_probes demo_volume ?v1 0
          = Inr (fst (mbr_entry_part no_probes demo_volume ?v1 0 ?e),
                 snd (mbr_entry_part no_probes demo_volume ?v1 0 ?e),
                 media_after mbr_image v2 446 16)"
    using v2(1) rd
    by (cases "mbr_entry_part no_probes demo_volume ?v1 0 ?e") (simp add: mbr_get_part_def)
  then show ?thesis
    using gpt_on_mbr_disk e
    by (simp add: part_get_def mbr_entry_part_def probe_filesystem_fields demo_volume_media)
qed

text \<open>
  C4, as the code has it. Whatever the disk delivers, on a parent volume that is not a PXE
  volume and has a well-formed geometry \<^verbatim>\<open>part_get\<close> returns one of OK, \<^verbatim>\<open>NO_PARTITION\<close>,
  \<^verbatim>\<open>END_OF_TABLE\<close>, \<^verbatim>\<open>INVALID_TABLE\<close> without a panic or trap (the filesystem probes being
  total). When it returns OK the child has a non-zero \<open>sect_count\<close>, \<open>partition = index + 1\<close>
  and the parent's \<open>sector_size\<close>, \<open>fastest_xfer_size\<close>, \<open>index\<close> and \<open>is_optical\<close>; otherwise
  \<^verbatim>\<open>*part\<close> is untouched. The child's sector range is not compared with the parent's.
\<close>

theorem part_get_returns:
  assumes "well_formed volume"
  shows "\<exists>r part' v'. part_get d pr part volume part_idx = Inr (r, part', v') \<and>
           same_device volume v' \<and> well_formed v' \<and>
           (if r = OK then
              sect_count part' \<noteq> 0 \<and> partition part' = part_idx + 1 \<and>
              sector_size part' = sector_size volume \<and>
              fastest_xfer_size part' = fastest_xfer_size volume \<and>
              index part' = index volume \<and> is_optical part' = is_optical volume
            else part' = part)"
proof (cases "part_idx < 0")
  case True
  then show ?thesis
    using assms by (simp add: part_get_def same_device_refl)
next
  case False
  from gpt_get_part_ret [OF assms, of d pr part part_idx]
  obtain r p1 v1 where g: "gpt_get_part d pr part volume part_idx = Inr (r, p1, v1)"
    "same_device volume v1" "well_formed v1" "part_child part volume part_idx r p1"
    by (auto elim!: returnsE)
  show ?thesis
  proof (cases "r = INVALID_TABLE")
    case ne: False
    then show ?thesis
      using False g by (simp add: part_get_def part_child_def)
  next
    case True
    then have p1: "p1 = part"
      using g(4) by (simp add: part_child_def)
    from mbr_get_part_ret [OF g(3), of d pr part part_idx]
    obtain r' p2 v2 where m: "mbr_get_part d pr part v1 part_idx = Inr (r', p2, v2)"
      "same_device v1 v2" "well_formed v2" "part_child part v1 part_idx r' p2"
      by (auto elim!: returnsE)
    have "part_child part volume part_idx r' p2"
      using m(4) g(2) by (simp add: part_child_same_device)
    then show ?thesis
      using False True g(1) p1 m same_device_trans [OF g(2) m(2)]
      by (cases "r' = INVALID_TABLE") (auto simp add: part_get_def part_child_def)
  qed
qed

theorem part_get_returns_witness:
  "well_formed demo_volume \<and>
   (\<exists>r part' v'. part_get mbr_disk no_probes demo_volume demo_volume 0 = Inr (r, part', v') \<and>
      r = OK \<and> sect_count part' \<noteq> 0 \<and> partition part' = 1 \<and> sector_size part' = 512)"
proof -
  have wf: "well_formed demo_volume"
    by (simp add: well_formed_def demo_volume_def cache_present_def)
  from part_get_returns [OF wf, of mbr_disk no_probes demo_volume 0]
  obtain r part' v' where p: "part_get mbr_disk no_probes demo_volume demo_volume 0 = Inr (r, part', v')"
    "if r = OK then
              sect_count part' \<noteq> 0 \<and> partition part' = 0 + 1 \<and>
              sector_size part' = sector_size demo_volume \<and>
              fastest_xfer_size part' = fastest_xfer_size demo_volume \<and>
              index part' = index demo_volume \<and> is_optical part' = is_optical demo_volume
            else part' = demo_volume"
    by blast
  have "r = OK"
    using part_get_on_mbr_disk p(1) by simp
  then show ?thesis
    using wf p by (simp add: demo_volume_media)
qed

text \<open>
  C4 as stated fails: on a disk of 8 sectors whose first MBR entry names sectors 100 to 149,
  \<^verbatim>\<open>part_get\<close> returns OK with that child.
\<close>

theorem part_get_exceeds_parent_counterexample:
  "returns (part_get mbr_disk no_probes demo_volume demo_volume 0)
     (\<lambda>(r, child, v'). r = OK \<and> first_sect child = 100 \<and> sect_count child = 50 \<and>
        unat (first_sect demo_volume) + unat (sect_count demo_volume) = 8 \<and>
        unat (first_sect demo_volume) + unat (sect_count demo_volume)
          < unat (first_sect child) + unat (sect_count child))"
  by (rule part_get_on_mbr_disk)

section \<open>FAT12/16/32\<close>

text \<open>
  \<^verbatim>\<open>struct fat32_context\<close> without its \<^verbatim>\<open>part\<close> pointer: the volume is passed beside the
  context, since reads change its cache. The field \<^verbatim>\<open>type\<close> is \<open>fat_type\<close>.
\<close>

record fat32_context =
  fat_type :: int
  label :: "u8 list option"
  bytes_per_sector :: u16
  sectors_per_cluster :: u8
  reserved_sectors :: u16
  number_of_fats :: u8
  hidden_sectors :: u32
  sectors_per_fat :: u32
  fat_start_lba :: u32
  data_start_lba :: u32
  root_directory_cluster :: u32
  root_entries :: u16
  root_start :: u32
  root_size :: u32

record fat32_directory_entry =
  file_name_and_ext :: "u8 list"
  attribute :: u8
  file_data_1 :: "u8 list"
  cluster_num_high :: u16
  file_data_2 :: "u8 list"
  cluster_num_low :: u16
  file_size_bytes :: u32

definition read_fat32_directory_entry :: "u8 list \<Rightarrow> nat \<Rightarrow> fat32_directory_entry" where
  "read_fat32_directory_entry bs off =
     \<lparr>file_name_and_ext = bytes_at bs off 11, attribute = byte_at bs (off + 11),
      file_data_1 = bytes_at bs (off + 12) 8, cluster_num_high = le16_at bs (off + 20),
      file_data_2 = bytes_at bs (off + 22) 4, cluster_num_low = le16_at bs (off + 26),
      file_size_bytes = le32_at bs (off + 28)\<rparr>"

record fat32_file_handle =
  fat_context :: fat32_context
  first_cluster :: u32
  size_bytes :: u32
  size_clusters :: u32
  cluster_chain :: "u32 list option"
  chain_len :: nat

text \<open>
  \<^verbatim>\<open>struct file_handle\<close> (fs/file.h, not among the sources) as \<^verbatim>\<open>fat32_open\<close> fills it; the
  \<^verbatim>\<open>read\<close> and \<^verbatim>\<open>close\<close> pointers are \<^verbatim>\<open>fat32_read\<close> and \<^verbatim>\<open>fat32_close\<close> throughout and
  the \<^verbatim>\<open>vol\<close> pointer is the volume passed in. The fields \<^verbatim>\<open>size\<close> and \<^verbatim>\<open>context\<close> are
  \<open>file_size\<close> and \<open>fat_context\<close>.
\<close>

record fat_file_handle =
  fd :: fat32_file_handle
  file_size :: u64

text \<open>
  \<^verbatim>\<open>read_cluster_from_map\<close>: \<open>None\<close> is the return value -1. A 12-bit entry is read as two
  bytes at \<open>cluster + cluster / 2\<close> and masked or shifted; a 32-bit entry loses its upper
  four bits.
\<close>

definition read_cluster_from_map ::
  "disk \<Rightarrow> fat32_context \<Rightarrow> volume \<Rightarrow> u32 \<Rightarrow> fault + (u32 option \<times> volume)" where
  "read_cluster_from_map d ctx part cluster =
     (let fat_base = (ucast (fat_start_lba ctx) :: u64) * ucast (bytes_per_sector ctx);
          fat_size = (ucast (sectors_per_fat ctx) :: u64) * ucast (bytes_per_sector ctx)
      in
      if fat_type ctx = 12 then
        (let offset = (ucast cluster :: u64) + ucast (cluster div 2) in
         if offset + 2 > fat_size then Inr (None, part)
         else
           (case volume_read d part (fat_base + offset) 2 of
              Inl f \<Rightarrow> Inl f
            | Inr (ok, bytes, part') \<Rightarrow>
                if \<not> ok then Inr (None, part')
                else if cluster mod 2 = 0
                  then Inr (Some (ucast (le16_at bytes 0 AND 0xfff)), part')
                  else Inr (Some (ucast (drop_bit 4 (le16_at bytes 0))), part')))
      else if fat_type ctx = 16 then
        (let offset = (ucast cluster :: u64) * 2 in
         if offset + 2 > fat_size then Inr (None, part)
         else
           (case volume_read d part (fat_base + offset) 2 of
              Inl f \<Rightarrow> Inl f
            | Inr (ok, bytes, part') \<Rightarrow>
                if \<not> ok then Inr (None, part')
                else Inr (Some (ucast (le16_at bytes 0)), part')))
      else if fat_type ctx = 32 then
        (let offset = (ucast cluster :: u64) * 4 in
         if offset + 4 > fat_size then Inr (None, part)
         else
           (case volume_read d part (fat_base + offset) 4 of
              Inl f \<Rightarrow> Inl f
            | Inr (ok, bytes, part') \<Rightarrow>
                if \<not> ok then Inr (None, part')
                else Inr (Some (le32_at bytes 0 AND 0x0fffffff), part')))
      else Inl Unreachable)"

definition cluster_limit :: "fat32_context \<Rightarrow> u32" where
  "cluster_limit ctx =
     (if fat_type ctx = 12 then 0xfef else 0) OR
     (if fat_type ctx = 16 then 0xffef else 0) OR
     (if fat_type ctx = 32 then 0xfffffef else 0)"

text \<open>\<^verbatim>\<open>FAT32_MAX_CHAIN_LENGTH\<close>: 64 MiB of 4-byte entries.\<close>

definition FAT32_MAX_CHAIN_LENGTH :: nat where
  "FAT32_MAX_CHAIN_LENGTH = 64 * 1024 * 1024 div 4"

definition max_clusters :: "fat32_context \<Rightarrow> nat" where
  "max_clusters ctx =
     (if unat (cluster_limit ctx - 1) > FAT32_MAX_CHAIN_LENGTH then FAT32_MAX_CHAIN_LENGTH
      else unat (cluster_limit ctx - 1))"

text \<open>
  The first loop of \<^verbatim>\<open>cache_cluster_chain\<close>, with \<open>n\<close> the iterations left before
  \<open>chain_length\<close> passes \<open>max_clusters\<close>. \<open>Some\<close> is the \<open>chain_length\<close> at the \<^verbatim>\<open>break\<close>;
  \<open>None\<close> is a failed FAT read or the loop running out, both a null return.
\<close>

fun chain_scan ::
  "disk \<Rightarrow> fat32_context \<Rightarrow> volume \<Rightarrow> u32 \<Rightarrow> nat \<Rightarrow> nat \<Rightarrow> fault + (nat option \<times> volume)" where
  "chain_scan d ctx part cluster chain_length 0 = Inr (None, part)"
| "chain_scan d ctx part cluster chain_length (Suc n) =
     (case read_cluster_from_map d ctx part cluster of
        Inl f \<Rightarrow> Inl f
      | Inr (None, part') \<Rightarrow> Inr (None, part')
      | Inr (Some next, part') \<Rightarrow>
          if next < 0x2 \<or> next > cluster_limit ctx then Inr (Some chain_length, part')
          else chain_scan d ctx part' next (chain_length + 1) n)"

text \<open>The second loop: \<open>n\<close> entries are stored, each followed by a FAT read.\<close>

fun chain_fill ::
  "disk \<Rightarrow> fat32_context \<Rightarrow> volume \<Rightarrow> u32 \<Rightarrow> nat \<Rightarrow> fault + (u32 list option \<times> volume)" where
  "chain_fill d ctx part cluster 0 = Inr (Some [], part)"
| "chain_fill d ctx part cluster (Suc n) =
     (case read_cluster_from_map d ctx part cluster of
        Inl f \<Rightarrow> Inl f
      | Inr (None, part') \<Rightarrow> Inr (None, part')
      | Inr (Some next, part') \<Rightarrow>
          (case chain_fill d ctx part' next n of
             Inl f \<Rightarrow> Inl f
           | Inr (None, part'') \<Rightarrow> Inr (None, part'')
           | Inr (Some chain, part'') \<Rightarrow> Inr (Some (cluster # chain), part'')))"

definition cache_cluster_chain ::
  "disk \<Rightarrow> fat32_context \<Rightarrow> volume \<Rightarrow> u32 \<Rightarrow> fault + (u32 list option \<times> volume)" where
  "cache_cluster_chain d ctx part initial_cluster =
     (if initial_cluster < 0x2 \<or> initial_cluster > cluster_limit ctx then Inr (None, part)
      else
        (case chain_scan d ctx part initial_cluster 1 (max_clusters ctx) of
           Inl f \<Rightarrow> Inl f
         | Inr (None, part') \<Rightarrow> Inr (None, part')
         | Inr (Some chain_length, part') \<Rightarrow>
             if 2 ^ 64 \<le> chain_length * 4 then Inr (None, part')
             else chain_fill d ctx part' initial_cluster chain_length))"

text \<open>
  Modelled from the spec: \<^verbatim>\<open>DIV_ROUNDUP\<close> (lib/misc.h is not among the sources) is the
  quotient rounded up, \<open>(a + (b - 1)) / b\<close>.
\<close>

definition DIV_ROUNDUP :: "u64 \<Rightarrow> u64 \<Rightarrow> u64" where
  "DIV_ROUNDUP a b = (a + (b - 1)) div b"

text \<open>
  The end of \<^verbatim>\<open>fat32_open\<close>, once the last path component has been found as the entry
  \<open>current_file\<close>: the handle, or \<open>None\<close> for the null return. The division by
  \<^verbatim>\<open>bytes_per_sector\<close> traps when that is 0.
\<close>

definition entry_cluster :: "fat32_context \<Rightarrow> fat32_directory_entry \<Rightarrow> u32" where
  "entry_cluster ctx entry =
     (if fat_type ctx = 32
      then ucast (cluster_num_low entry) OR push_bit 16 (ucast (cluster_num_high entry))
      else ucast (cluster_num_low entry))"

definition fat32_open_file ::
  "disk \<Rightarrow> fat32_context \<Rightarrow> volume \<Rightarrow> fat32_directory_entry
     \<Rightarrow> fault + (fat_file_handle option \<times> volume)" where
  "fat32_open_file d ctx part current_file =
     (if bytes_per_sector ctx = 0 then Inl DivideByZero
      else
        (case cache_cluster_chain d ctx part (entry_cluster ctx current_file) of
           Inl f \<Rightarrow> Inl f
         | Inr (chain, part') \<Rightarrow>
             if chain = None \<and> file_size_bytes current_file \<noteq> 0 then Inr (None, part')
             else
               Inr (Some \<lparr>fd = \<lparr>fat_context = ctx,
                                first_cluster = entry_cluster ctx current_file,
                                size_bytes = file_size_bytes current_file,
                                size_clusters =
                                  ucast (DIV_ROUNDUP (ucast (file_size_bytes current_file))
                                           (ucast (bytes_per_sector ctx))),
                                cluster_chain = chain,
                                chain_len = (case chain of None \<Rightarrow> 0 | Some c \<Rightarrow> length c)\<rparr>,
                          file_size = ucast (file_size_bytes current_file)\<rparr>,
                    part')))"













text \<open>
  A FAT16 filesystem whose table, at sector 1, links cluster 3 to 4 and cluster 4 back to 3,
  and three directory entries: a file of 5 bytes at cluster 3, an empty file at cluster 3,
  and an empty file with no cluster.
\<close>

definition fat16_context :: fat32_context where
  "fat16_context =
     \<lparr>fat_type = 16, label = None, bytes_per_sector = 512, sectors_per_cluster = 1,
      reserved_sectors = 1, number_of_fats = 1, hidden_sectors = 0, sectors_per_fat = 1,
      fat_start_lba = 1, data_start_lba = 3, root_directory_cluster = 0, root_entries = 16,
      root_start = 2, root_size = 1\<rparr>"

definition cyclic_fat_image :: "nat \<Rightarrow> u8" where
  "cyclic_fat_image i = (if i = 518 then 4 else if i = 520 then 3 else 0)"

definition cyclic_fat_disk :: disk where
  "cyclic_fat_disk = media cyclic_fat_image 512"

definition file_entry :: "u16 \<Rightarrow> u32 \<Rightarrow> fat32_directory_entry" where
  "file_entry cluster n =
     \<lparr>file_name_and_ext = cstr ''X          '', attribute = 0x20,
      file_data_1 = replicate 8 0, cluster_num_high = 0, file_data_2 = replicate 4 0,
      cluster_num_low = cluster, file_size_bytes = n\<rparr>"






lemma entry_cluster_file_entry [simp]: "entry_cluster fat16_context (file_entry c n) = ucast c"
  by (simp add: entry_cluster_def fat16_context_def file_entry_def)


section \<open>Claims about the FAT filesystem\<close>




text \<open>
  C9: when \<^verbatim>\<open>cache_cluster_chain\<close> returns null for the entry's first cluster, the open
  returns a handle of size 0 with no chain if the entry records size 0, and null otherwise.
\<close>

theorem fat32_open_empty_file:
  assumes "bytes_per_sector ctx \<noteq> 0"
    and "cache_cluster_chain d ctx part (entry_cluster ctx ent) = Inr (None, part')"
  shows "(file_size_bytes ent = 0 \<longrightarrow>
            (\<exists>h. fat32_open_file d ctx part ent = Inr (Some h, part') \<and>
                 file_size h = 0 \<and> size_bytes (fd h) = 0 \<and>
                 cluster_chain (fd h) = None \<and> chain_len (fd h) = 0)) \<and>
         (file_size_bytes ent \<noteq> 0 \<longrightarrow> fat32_open_file d ctx part ent = Inr (None, part'))"
  using assms by (simp add: fat32_open_file_def)

text \<open>C9 on an empty file with first cluster 0.\<close>

theorem fat32_open_empty_file_witness:
  "bytes_per_sector fat16_context \<noteq> 0 \<and>
   cache_cluster_chain cyclic_fat_disk fat16_context demo_volume
      (entry_cluster fat16_context (file_entry 0 0)) = Inr (None, demo_volume) \<and>
   file_size_bytes (file_entry 0 0) = 0 \<and>
   (\<exists>h. fat32_open_file cyclic_fat_disk fat16_context demo_volume (file_entry 0 0)
            = Inr (Some h, demo_volume) \<and>
        file_size h = 0 \<and> size_bytes (fd h) = 0 \<and> cluster_chain (fd h) = None \<and>
        chain_len (fd h) = 0)"
proof -
  have a: "bytes_per_sector fat16_context \<noteq> 0" "file_size_bytes (file_entry 0 0) = 0"
    by (simp_all add: fat16_context_def file_entry_def)
  have c: "cache_cluster_chain cyclic_fat_disk fat16_context demo_volume
      (entry_cluster fat16_context (file_entry 0 0)) = Inr (None, demo_volume)"
    by (simp add: cache_cluster_chain_def)
  show ?thesis
    using fat32_open_empty_file [OF a(1) c] a c by simp
qed

section \<open>ISO 9660 directories\<close>

text \<open>
  A directory is the byte buffer \<^verbatim>\<open>iso9660_open\<close> read it into; a
  \<^verbatim>\<open>struct iso9660_directory_entry *\<close> is an offset into it. The structure is packed: 33
  bytes (\<^verbatim>\<open>sizeof\<close>), then \<^verbatim>\<open>name[]\<close> and the System Use Area. Only the little-endian halves
  of the both-endian fields are read.
\<close>

definition sizeof_directory_entry :: nat where
  "sizeof_directory_entry = 33"

definition entry_length :: "u8 list \<Rightarrow> nat \<Rightarrow> nat" where
  "entry_length buffer entry = unat (byte_at buffer entry)"

definition extent_little :: "u8 list \<Rightarrow> nat \<Rightarrow> u32" where
  "extent_little buffer entry = le32_at buffer (entry + 2)"

definition extent_size_little :: "u8 list \<Rightarrow> nat \<Rightarrow> u32" where
  "extent_size_little buffer entry = le32_at buffer (entry + 10)"

definition entry_flags :: "u8 list \<Rightarrow> nat \<Rightarrow> u8" where
  "entry_flags buffer entry = byte_at buffer (entry + 25)"

definition filename_size :: "u8 list \<Rightarrow> nat \<Rightarrow> u8" where
  "filename_size buffer entry = byte_at buffer (entry + 32)"

definition entry_name :: "u8 list \<Rightarrow> nat \<Rightarrow> nat \<Rightarrow> u8" where
  "entry_name buffer entry j = byte_at buffer (entry + sizeof_directory_entry + j)"

text \<open>
  Modelled from the spec: \<^verbatim>\<open>strcmp\<close> and \<^verbatim>\<open>strcasecmp\<close> (lib/libc.h is not among the
  sources) compare two C strings, the second without regard to the case of ASCII letters; the
  result is 0 exactly for equal strings. A C string ends before its first zero byte.
\<close>

definition c_string :: "u8 list \<Rightarrow> u8 list" where
  "c_string bs = takeWhile (\<lambda>b. b \<noteq> 0) bs"

fun str_diff :: "u8 list \<Rightarrow> u8 list \<Rightarrow> int" where
  "str_diff [] [] = 0"
| "str_diff [] (b # bs) = - uint b"
| "str_diff (a # as) [] = uint a"
| "str_diff (a # as) (b # bs) = (if a = b then str_diff as bs else uint a - uint b)"

definition tolower :: "u8 \<Rightarrow> u8" where
  "tolower c = (if 0x41 \<le> c \<and> c \<le> 0x5a then c + 0x20 else c)"

definition strcmp :: "u8 list \<Rightarrow> u8 list \<Rightarrow> int" where
  "strcmp a b = str_diff (c_string a) (c_string b)"

definition strcasecmp :: "u8 list \<Rightarrow> u8 list \<Rightarrow> int" where
  "strcasecmp a b = str_diff (map tolower (c_string a)) (map tolower (c_string b))"

text \<open>
  The scan of the System Use Area in \<^verbatim>\<open>load_name\<close>: \<open>sysarea\<close> is the offset the pointer
  has reached, the result is \<open>(rrnamelen, nm_entry)\<close>.
\<close>

function nm_scan :: "u8 list \<Rightarrow> nat \<Rightarrow> nat \<Rightarrow> nat \<times> nat option" where
  "nm_scan buffer sysarea sysarea_len =
     (if sysarea_len \<ge> 4 \<and> byte_at buffer (sysarea + 3) = 1 then
        if unat (byte_at buffer (sysarea + 2)) > sysarea_len then (0, None)
        else if byte_at buffer sysarea = of_char CHR ''N''
                \<and> byte_at buffer (sysarea + 1) = of_char CHR ''M'' then
          if unat (byte_at buffer (sysarea + 2)) \<ge> 5
             \<and> unat (byte_at buffer (sysarea + 2)) \<le> sysarea_len
          then (unat (byte_at buffer (sysarea + 2)) - 5, Some sysarea)
          else (0, None)
        else if byte_at buffer (sysarea + 2) = 0 then (0, None)
        else nm_scan buffer (sysarea + unat (byte_at buffer (sysarea + 2)))
               (sysarea_len - unat (byte_at buffer (sysarea + 2)))
      else (0, None))"
  by pat_completeness auto
termination
  by (relation "measure (\<lambda>(buffer, sysarea, sysarea_len). sysarea_len)")
    (auto simp add: unat_gt_0)

text \<open>The copy loop under \<^verbatim>\<open>use_iso_name\<close>, from index \<open>j\<close>: the bytes stored before the terminator.\<close>

function copy_iso_name :: "u8 list \<Rightarrow> nat \<Rightarrow> nat \<Rightarrow> nat \<Rightarrow> u8 list" where
  "copy_iso_name buffer entry name_len j =
     (if j < name_len then
        if entry_name buffer entry j = of_char CHR '';'' then []
        else if entry_name buffer entry j = of_char CHR ''.'' \<and> j + 1 < name_len
                \<and> entry_name buffer entry (j + 1) = of_char CHR '';'' then []
        else entry_name buffer entry j # copy_iso_name buffer entry name_len (j + 1)
      else [])"
  by pat_completeness auto
termination
  by (relation "measure (\<lambda>(buffer, entry, name_len, j). name_len - j)") auto

definition use_iso_name :: "nat \<Rightarrow> u8 list \<Rightarrow> nat \<Rightarrow> fault + (bool \<times> u8 list)" where
  "use_iso_name limit buffer entry =
     (if unat (filename_size buffer entry) \<ge> limit then Inl Panic
      else
        Inr (False,
          copy_iso_name buffer entry
            (if entry_length buffer entry
                  < sizeof_directory_entry + unat (filename_size buffer entry)
             then if entry_length buffer entry \<le> sizeof_directory_entry then 0
                  else entry_length buffer entry - sizeof_directory_entry
             else unat (filename_size buffer entry)) 0))"

text \<open>
  \<^verbatim>\<open>load_name\<close>: the flag returned and the bytes stored in \<^verbatim>\<open>buf\<close> before the terminator.
\<close>

definition load_name :: "nat \<Rightarrow> u8 list \<Rightarrow> nat \<Rightarrow> fault + (bool \<times> u8 list)" where
  "load_name limit buffer entry =
     (let sysarea = entry + sizeof_directory_entry + unat (filename_size buffer entry) in
      if entry_length buffer entry < sizeof_directory_entry + unat (filename_size buffer entry)
      then use_iso_name limit buffer entry
      else
        let sysarea_len = entry_length buffer entry - sizeof_directory_entry
                            - unat (filename_size buffer entry) in
        if filename_size buffer entry AND 0x1 = 0 \<and> sysarea_len = 0
        then use_iso_name limit buffer entry
        else
          (case (if filename_size buffer entry AND 0x1 = 0
                 then nm_scan buffer (sysarea + 1) (sysarea_len - 1)
                 else nm_scan buffer sysarea sysarea_len) of
             (rrnamelen, Some nm_entry) \<Rightarrow>
               if rrnamelen > 0 then
                 if rrnamelen \<ge> limit then Inl Panic
                 else Inr (True, bytes_at buffer (nm_entry + 5) rrnamelen)
               else use_iso_name limit buffer entry
           | (rrnamelen, None) \<Rightarrow> use_iso_name limit buffer entry))"

definition ISO9660_SECTOR_SIZE :: nat where
  "ISO9660_SECTOR_SIZE = 2048"

text \<open>
  Modelled from the spec: \<^verbatim>\<open>ALIGN_DOWN\<close> and \<^verbatim>\<open>ALIGN_UP\<close> (lib/misc.h is not among the
  sources) round to a multiple of the alignment.
\<close>

definition ALIGN_DOWN :: "nat \<Rightarrow> nat \<Rightarrow> nat" where
  "ALIGN_DOWN x a = x - x mod a"

definition ALIGN_UP :: "nat \<Rightarrow> nat \<Rightarrow> nat" where
  "ALIGN_UP x a = ALIGN_DOWN (x + (a - 1)) a"

text \<open>
  \<^verbatim>\<open>iso9660_find\<close>, with the global \<^verbatim>\<open>case_insensitive_fopen\<close> as a parameter. \<open>pos\<close> is the
  offset \<^verbatim>\<open>buffer\<close> has advanced to; the result is the offset of the entry found. \<^verbatim>\<open>size\<close>
  (\<open>dir_size\<close>) only decreases, so it is a natural number.
\<close>

function iso9660_find ::
  "bool \<Rightarrow> u8 list \<Rightarrow> nat \<Rightarrow> nat \<Rightarrow> u8 list \<Rightarrow> fault + nat option" where
  "iso9660_find case_insensitive_fopen buffer pos dir_size filename =
     (if dir_size = 0 then Inr None
      else if entry_length buffer pos = 0 then
        if dir_size \<le> ISO9660_SECTOR_SIZE then Inr None
        else if dir_size = ALIGN_DOWN dir_size ISO9660_SECTOR_SIZE then
          if dir_size \<le> ISO9660_SECTOR_SIZE then Inr None
          else iso9660_find case_insensitive_fopen buffer (pos + ISO9660_SECTOR_SIZE)
                 (dir_size - ISO9660_SECTOR_SIZE) filename
        else iso9660_find case_insensitive_fopen buffer
               (pos + (dir_size - ALIGN_DOWN dir_size ISO9660_SECTOR_SIZE))
               (ALIGN_DOWN dir_size ISO9660_SECTOR_SIZE) filename
      else if entry_length buffer pos > dir_size then Inr None
      else if entry_length buffer pos < sizeof_directory_entry then Inr None
      else
        (case load_name 256 buffer pos of
           Inl f \<Rightarrow> Inl f
         | Inr (rr, entry_filename) \<Rightarrow>
             if (if rr \<and> \<not> case_insensitive_fopen
                 then strcmp filename entry_filename = 0
                 else strcasecmp filename entry_filename = 0)
             then Inr (Some pos)
             else iso9660_find case_insensitive_fopen buffer (pos + entry_length buffer pos)
                    (dir_size - entry_length buffer pos) filename))"
  by pat_completeness auto
termination
  by (relation "measure (\<lambda>(ci, buffer, pos, dir_size, filename). dir_size)")
    (auto simp add: ALIGN_DOWN_def ISO9660_SECTOR_SIZE_def)

text \<open>A directory entry as bytes, for the concrete directories below.\<close>

definition le32_bytes :: "u32 \<Rightarrow> u8 list" where
  "le32_bytes w = [ucast w, ucast (drop_bit 8 w), ucast (drop_bit 16 w), ucast (drop_bit 24 w)]"

definition both_endian32 :: "u32 \<Rightarrow> u8 list" where
  "both_endian32 w = le32_bytes w @ rev (le32_bytes w)"

definition directory_entry :: "u32 \<Rightarrow> u32 \<Rightarrow> u8 \<Rightarrow> u8 list \<Rightarrow> u8 list \<Rightarrow> u8 list" where
  "directory_entry lba bytes flags name sua =
     (let pad = (if even (length name) then [0] else []) in
      [of_nat (33 + length name + length pad + length sua), 0]
        @ both_endian32 lba @ both_endian32 bytes @ replicate 7 0
        @ [flags, 0, 0, 1, 0, 0, 1, of_nat (length name)] @ name @ pad @ sua)"

definition nm_entry_bytes :: "u8 list \<Rightarrow> u8 list" where
  "nm_entry_bytes name = cstr ''NM'' @ [of_nat (5 + length name), 1, 0] @ name"

declare nm_scan.simps [simp del] copy_iso_name.simps [simp del] iso9660_find.simps [simp del]

text \<open>
  The layout of one directory entry at offset \<open>entry\<close>: its name, the padding byte after a
  name of even length, and its System Use Area.
\<close>

definition name_pad :: "u8 list \<Rightarrow> nat" where
  "name_pad name = (if even (length name) then 1 else 0)"

definition entry_at :: "u8 list \<Rightarrow> nat \<Rightarrow> u8 list \<Rightarrow> u8 list \<Rightarrow> bool" where
  "entry_at buffer entry name sua =
     (length name < 256 \<and> filename_size buffer entry = of_nat (length name) \<and>
      entry_length buffer entry
        = sizeof_directory_entry + length name + name_pad name + length sua \<and>
      bytes_at buffer (entry + sizeof_directory_entry) (length name) = name \<and>
      bytes_at buffer (entry + sizeof_directory_entry + length name + name_pad name) (length sua)
        = sua)"

text \<open>A System Use entry: at least 4 bytes, its length in byte 2, version 1 in byte 3.\<close>

definition su_entry :: "u8 list \<Rightarrow> bool" where
  "su_entry x = (4 \<le> length x \<and> unat (x ! 2) = length x \<and> x ! 3 = 1)"

definition is_nm :: "u8 list \<Rightarrow> bool" where
  "is_nm x = (take 2 x = cstr ''NM'')"

text \<open>The ISO name without its version suffix, as the spec words it.\<close>

fun strip_version :: "u8 list \<Rightarrow> u8 list" where
  "strip_version [] = []"
| "strip_version (c # cs) =
     (if c = of_char CHR '';'' then []
      else if c = of_char CHR ''.'' \<and> take 1 cs = cstr '';'' then []
      else c # strip_version cs)"

lemma byte_at_of_bytes_at:
  assumes "bytes_at buffer a n = s" "i < n"
  shows "byte_at buffer (a + i) = s ! i"
proof -
  have "s ! i = map (byte_at buffer) [a ..< a + n] ! i"
    using assms(1) by (simp add: bytes_at_def)
  also have "\<dots> = byte_at buffer (a + i)"
    using assms(2) by simp
  finally show ?thesis
    by simp
qed

lemma bytes_at_add:
  "bytes_at buffer a (m + n) = bytes_at buffer a m @ bytes_at buffer (a + m) n"
proof -
  have "[a ..< a + (m + n)] = [a ..< a + m] @ [a + m ..< a + (m + n)]"
    using upt_add_eq_append [of a "a + m" n] by (simp add: add.assoc)
  then show ?thesis
    by (simp add: bytes_at_def add.assoc)
qed

lemma length_bytes_at [simp]: "length (bytes_at buffer a n) = n"
  by (simp add: bytes_at_def)

lemma bytes_at_split:
  assumes "bytes_at buffer a (length (x @ s)) = x @ s"
  shows "bytes_at buffer a (length x) = x" "bytes_at buffer (a + length x) (length s) = s"
  using assms by (simp_all add: bytes_at_add)

lemma nm_scan_skip:
  assumes b: "bytes_at buffer a (length (x @ s)) = x @ s"
    and x: "su_entry x" "\<not> is_nm x"
  shows "nm_scan buffer a (length (x @ s)) = nm_scan buffer (a + length x) (length s)"
proof -
  note bx = bytes_at_split(1) [OF b]
  have l: "4 \<le> length x" "unat (x ! 2) = length x" "x ! 3 = 1"
    using x(1) by (simp_all add: su_entry_def)
  have p: "0 < length x" "1 < length x" "2 < length x" "3 < length x"
    using l(1) by (auto simp del: length_greater_0_conv)
  have r: "byte_at buffer a = x ! 0" "byte_at buffer (Suc a) = x ! 1"
    "byte_at buffer (Suc (Suc a)) = x ! 2" "byte_at buffer (a + 3) = x ! 3"
    using byte_at_of_bytes_at [OF bx p(1)] byte_at_of_bytes_at [OF bx p(2)]
      byte_at_of_bytes_at [OF bx p(3)] byte_at_of_bytes_at [OF bx p(4)]
    by simp_all
  have nz: "x ! 2 \<noteq> 0"
    using l by auto
  obtain c0 c1 t where t: "x = c0 # c1 # t"
    using l(1) by (cases x; cases "tl x") auto
  have nn: "\<not> (x ! 0 = of_char CHR ''N'' \<and> x ! 1 = of_char CHR ''M'')"
    using x(2) t by (auto simp add: is_nm_def cstr_def)
  show ?thesis
    using l nz nn by (subst nm_scan.simps) (auto simp add: r)
qed

lemma nm_scan_skips:
  assumes "bytes_at buffer a (length (concat es @ s)) = concat es @ s"
    and "\<forall>x \<in> set es. su_entry x \<and> \<not> is_nm x"
  shows "nm_scan buffer a (length (concat es @ s))
           = nm_scan buffer (a + length (concat es)) (length s)
         \<and> bytes_at buffer (a + length (concat es)) (length s) = s"
  using assms
proof (induction es arbitrary: a)
  case Nil
  then show ?case
    by simp
next
  case (Cons x es)
  have b: "bytes_at buffer a (length (x @ (concat es @ s))) = x @ (concat es @ s)"
    using Cons.prems(1) by simp
  note s1 = nm_scan_skip [OF b] bytes_at_split(2) [OF b]
  have "nm_scan buffer a (length (x @ (concat es @ s)))
          = nm_scan buffer (a + length x) (length (concat es @ s))"
    using s1(1) Cons.prems(2) by simp
  moreover note Cons.IH [OF s1(2)]
  ultimately show ?case
    using Cons.prems(2) by (simp add: add.assoc)
qed

lemma nm_scan_found:
  assumes b: "bytes_at buffer a (length (nm @ s)) = nm @ s"
    and x: "su_entry nm" "is_nm nm" "5 \<le> length nm"
  shows "nm_scan buffer a (length (nm @ s)) = (length nm - 5, Some a)"
proof -
  note bx = bytes_at_split(1) [OF b]
  have l: "4 \<le> length nm" "unat (nm ! 2) = length nm" "nm ! 3 = 1"
    using x(1) by (simp_all add: su_entry_def)
  have p: "0 < length nm" "1 < length nm" "2 < length nm" "3 < length nm"
    using l(1) by (auto simp del: length_greater_0_conv)
  have r: "byte_at buffer a = nm ! 0" "byte_at buffer (Suc a) = nm ! 1"
    "byte_at buffer (Suc (Suc a)) = nm ! 2" "byte_at buffer (a + 3) = nm ! 3"
    using byte_at_of_bytes_at [OF bx p(1)] byte_at_of_bytes_at [OF bx p(2)]
      byte_at_of_bytes_at [OF bx p(3)] byte_at_of_bytes_at [OF bx p(4)]
    by simp_all
  obtain c0 c1 t where t: "nm = c0 # c1 # t"
    using l(1) by (cases nm; cases "tl nm") auto
  have nn: "nm ! 0 = of_char CHR ''N''" "nm ! 1 = of_char CHR ''M''"
    using x(2) t by (auto simp add: is_nm_def cstr_def)
  show ?thesis
    using l nn x(3) by (subst nm_scan.simps) (simp add: r)
qed

lemma nm_scan_short: "n < 4 \<Longrightarrow> nm_scan buffer a n = (0, None)"
  by (subst nm_scan.simps) simp

lemma copy_iso_name_strip:
  assumes "bytes_at buffer (entry + sizeof_directory_entry + j) (length cs) = cs"
  shows "copy_iso_name buffer entry (j + length cs) j = strip_version cs"
  using assms
proof (induction cs arbitrary: j)
  case Nil
  then show ?case
    by (subst copy_iso_name.simps) simp
next
  case (Cons c cs)
  have b: "bytes_at buffer (entry + sizeof_directory_entry + j) (length ([c] @ cs)) = [c] @ cs"
    using Cons.prems by simp
  note s = bytes_at_split [OF b]
  have c: "entry_name buffer entry j = c"
    using byte_at_of_bytes_at [OF Cons.prems, of 0] by (simp add: entry_name_def)
  have c1: "entry_name buffer entry (Suc j) = hd cs" if "cs \<noteq> []"
    using byte_at_of_bytes_at [OF Cons.prems, of 1] that
    by (cases cs) (simp_all add: entry_name_def add.assoc)
  have ih: "copy_iso_name buffer entry (Suc (j + length cs)) (Suc j) = strip_version cs"
    using Cons.IH [of "Suc j"] s(2) by simp
  have t: "(take (Suc 0) cs = [59]) = (cs \<noteq> [] \<and> hd cs = 59)"
    by (cases cs) auto
  show ?case
    using ih by (subst copy_iso_name.simps) (cases "cs = []"; auto simp add: c c1 t cstr_def)
qed

lemma filename_size_and_1:
  "length name < 256 \<Longrightarrow> ((of_nat (length name) :: u8) AND 1 = 0) = even (length name)"
  using even_iff_mod_2_eq_zero [of "of_nat (length name) :: u8"]
    even_of_nat [where ?'a = u8, of "length name"]
  by (simp add: and_one_eq)

lemma str_diff_eq_0:
  "0 \<notin> set a \<Longrightarrow> 0 \<notin> set b \<Longrightarrow> (str_diff a b = 0) = (a = b)"
  by (induction a b rule: str_diff.induct) (auto simp add: word_uint_eq_iff)

lemma c_string_no_zero: "0 \<notin> set (c_string bs)"
  by (auto simp add: c_string_def dest: set_takeWhileD)

lemma tolower_eq_0: "(tolower c = 0) = (c = 0)"
proof -
  have "c + 0x20 \<noteq> 0" if "0x41 \<le> c" "c \<le> 0x5a"
    using that by (auto simp add: word_le_nat_alt word_eq_iff_unsigned [where ?'a = nat] unat_add_lem [THEN iffD1])
  then show ?thesis
    by (auto simp add: tolower_def)
qed

lemma strcmp_eq_0: "(strcmp a b = 0) = (c_string a = c_string b)"
  by (simp add: strcmp_def str_diff_eq_0 c_string_no_zero)

lemma strcasecmp_eq_0:
  "(strcasecmp a b = 0) = (map tolower (c_string a) = map tolower (c_string b))"
proof -
  have "0 \<notin> set (map tolower (c_string x))" for x
    using c_string_no_zero [of x] by (auto simp add: tolower_eq_0)
  then show ?thesis
    by (simp add: strcasecmp_def str_diff_eq_0)
qed

lemma entry_at_fields:
  assumes "entry_at buffer entry name sua"
  shows "unat (filename_size buffer entry) = length name"
    and "(filename_size buffer entry AND 1 = 0) = even (length name)"
    and "entry_length buffer entry
           = sizeof_directory_entry + length name + name_pad name + length sua"
    and "bytes_at buffer (entry + sizeof_directory_entry) (length name) = name"
    and "bytes_at buffer (entry + sizeof_directory_entry + length name + name_pad name)
           (length sua) = sua"
  using assms
  by (simp_all add: entry_at_def filename_size_and_1 unsigned_of_nat take_bit_nat_eq_self)

lemma use_iso_name_strip:
  assumes "entry_at buffer entry name sua"
  shows "use_iso_name 256 buffer entry = Inr (False, strip_version name)"
proof -
  note f = entry_at_fields [OF assms]
  have "length name < 256"
    using assms by (simp add: entry_at_def)
  then show ?thesis
    using copy_iso_name_strip [of buffer entry 0 name] f(4)
    by (simp add: use_iso_name_def f(1,3))
qed

lemma load_name_scan:
  assumes "entry_at buffer entry name sua"
  shows "load_name 256 buffer entry =
     (if sua = [] then use_iso_name 256 buffer entry
      else
        (case nm_scan buffer (entry + sizeof_directory_entry + length name + name_pad name)
                (length sua) of
           (rrnamelen, Some nm_entry) \<Rightarrow>
             if rrnamelen > 0 then
               if rrnamelen \<ge> 256 then Inl Panic
               else Inr (True, bytes_at buffer (nm_entry + 5) rrnamelen)
             else use_iso_name 256 buffer entry
         | (rrnamelen, None) \<Rightarrow> use_iso_name 256 buffer entry))"
proof -
  note f = entry_at_fields [OF assms]
  show ?thesis
  proof (cases "sua = []")
    case True
    then show ?thesis
      by (simp add: load_name_def f(1,2,3) Let_def name_pad_def nm_scan_short)
  next
    case False
    then show ?thesis
      by (simp add: load_name_def f(1,2,3) Let_def name_pad_def)
  qed
qed

lemma load_name_rock_ridge:
  assumes e: "entry_at buffer entry name sua"
    and s: "sua = concat es @ nm @ rest" "\<forall>x \<in> set es. su_entry x \<and> \<not> is_nm x"
      "su_entry nm" "is_nm nm" "5 < length nm"
  shows "load_name 256 buffer entry = Inr (True, drop 5 nm)"
proof -
  note f = entry_at_fields [OF e]
  define a where "a = entry + sizeof_directory_entry + length name + name_pad name"
  have b: "bytes_at buffer a (length (concat es @ (nm @ rest))) = concat es @ (nm @ rest)"
    using f(5) s(1) by (simp add: a_def)
  note k = nm_scan_skips [OF b s(2)]
  have n: "nm_scan buffer (a + length (concat es)) (length (nm @ rest))
             = (length nm - 5, Some (a + length (concat es)))"
    using nm_scan_found [OF k [THEN conjunct2] s(3,4)] s(5) by simp
  have bn: "bytes_at buffer (a + length (concat es)) (length nm) = nm"
    using bytes_at_split(1) [OF k [THEN conjunct2]] .
  have "bytes_at buffer (a + length (concat es)) (5 + (length nm - 5)) = nm"
    using bn s(5) by simp
  then have d: "bytes_at buffer (a + length (concat es) + 5) (length nm - 5) = drop 5 nm"
    unfolding bytes_at_add [of buffer _ 5] by (metis append_eq_conv_conj length_bytes_at)
  have l: "length nm < 256"
    using s(3) unsigned_less [of "nm ! 2", where ?'a = nat] by (simp add: su_entry_def)
  have ne: "sua \<noteq> []"
    using s(1,5) by auto
  have "nm_scan buffer a (length sua) = (length nm - 5, Some (a + length (concat es)))"
    using k [THEN conjunct1] n s(1) by simp
  then show ?thesis
    using ne l s(5) d by (simp add: load_name_scan [OF e] a_def [symmetric])
qed

lemma load_name_iso:
  assumes e: "entry_at buffer entry name sua"
    and s: "sua = concat es @ rest" "\<forall>x \<in> set es. su_entry x \<and> \<not> is_nm x" "length rest < 4"
  shows "load_name 256 buffer entry = Inr (False, strip_version name)"
proof -
  note f = entry_at_fields [OF e]
  define a where "a = entry + sizeof_directory_entry + length name + name_pad name"
  have b: "bytes_at buffer a (length (concat es @ rest)) = concat es @ rest"
    using f(5) s(1) by (simp add: a_def)
  have "nm_scan buffer a (length sua) = (0, None)"
    using nm_scan_skips [OF b s(2)] s(1,3) by (simp add: nm_scan_short)
  then show ?thesis
    by (simp add: load_name_scan [OF e] a_def [symmetric] use_iso_name_strip [OF e])
qed

lemma iso9660_find_step:
  assumes "load_name 256 buffer pos = Inr (rr, entry_filename)"
    and "sizeof_directory_entry \<le> entry_length buffer pos"
    and "entry_length buffer pos \<le> dir_size"
  shows "iso9660_find ci buffer pos dir_size filename =
     (if (if rr \<and> \<not> ci then strcmp filename entry_filename = 0
          else strcasecmp filename entry_filename = 0)
      then Inr (Some pos)
      else iso9660_find ci buffer (pos + entry_length buffer pos)
             (dir_size - entry_length buffer pos) filename)"
  using assms
  by (subst iso9660_find.simps) (auto simp add: sizeof_directory_entry_def)

lemma byte_at_append: "byte_at (xs @ ys) (length xs + i) = byte_at ys i"
  by (simp add: byte_at_def nth_append)

lemma bytes_at_append: "bytes_at (xs @ ys) (length xs + i) n = bytes_at ys i n"
proof -
  have "map (byte_at (xs @ ys)) [length xs + i ..< length xs + i + n]
          = map (byte_at ys) [i ..< i + n]"
    by (rule nth_equalityI) (simp_all add: byte_at_append add.assoc)
  then show ?thesis
    by (simp add: bytes_at_def)
qed

lemma bytes_at_prefix: "bytes_at (ys @ zs) 0 (length ys) = ys"
  by (rule nth_equalityI) (simp_all add: bytes_at_def byte_at_def nth_append)

lemma bytes_at_middle: "bytes_at (xs @ ys @ zs) (length xs) (length ys) = ys"
  using bytes_at_append [of xs "ys @ zs" 0 "length ys"] by (simp add: bytes_at_prefix)

definition entry_header :: "u32 \<Rightarrow> u32 \<Rightarrow> u8 \<Rightarrow> u8 list \<Rightarrow> u8 list \<Rightarrow> u8 list" where
  "entry_header lba bytes flags name sua =
     [of_nat (33 + length name + name_pad name + length sua), 0]
        @ both_endian32 lba @ both_endian32 bytes @ replicate 7 0
        @ [flags, 0, 0, 1, 0, 0, 1, of_nat (length name)]"

lemma length_entry_header [simp]: "length (entry_header lba bytes flags name sua) = 33"
  by (simp add: entry_header_def both_endian32_def le32_bytes_def)

lemma directory_entry_parts:
  "directory_entry lba bytes flags name sua
     = entry_header lba bytes flags name sua @ name @ replicate (name_pad name) 0 @ sua"
  by (simp add: directory_entry_def entry_header_def name_pad_def Let_def)

lemma entry_header_bytes:
  "entry_header lba bytes flags name sua ! 0
     = of_nat (33 + length name + name_pad name + length sua)"
  "entry_header lba bytes flags name sua ! 25 = flags"
  "entry_header lba bytes flags name sua ! 32 = of_nat (length name)"
  by (simp_all add: entry_header_def both_endian32_def le32_bytes_def eval_nat_numeral)

lemma entry_at_directory_entry:
  assumes "33 + length name + name_pad name + length sua < 256"
  shows "entry_at (pre @ directory_entry lba bytes flags name sua @ post) (length pre) name sua"
proof -
  define h where "h = entry_header lba bytes flags name sua"
  define p where "p = replicate (name_pad name) (0 :: u8)"
  have lh: "length h = 33" and lp: "length p = name_pad name"
    by (simp_all add: h_def p_def)
  have d: "pre @ directory_entry lba bytes flags name sua @ post
             = pre @ h @ name @ p @ sua @ post"
    by (simp add: directory_entry_parts h_def p_def)
  have b: "byte_at (pre @ h @ name @ p @ sua @ post) (length pre + i) = h ! i" if "i < 33" for i
    using that lh by (simp add: byte_at_append) (simp add: byte_at_def nth_append)
  have n: "bytes_at (pre @ h @ name @ p @ sua @ post) (length pre + 33) (length name) = name"
    using bytes_at_middle [of "pre @ h" name "p @ sua @ post"] lh by simp
  have s: "bytes_at (pre @ h @ name @ p @ sua @ post)
             (length pre + 33 + length name + name_pad name) (length sua) = sua"
    using bytes_at_middle [of "pre @ h @ name @ p" sua post] lh lp by (simp add: add.assoc)
  define tot where "tot = 33 + length name + name_pad name + length sua"
  have u: "unat (of_nat tot :: u8) = tot" "length name < 256"
    using assms by (simp_all add: tot_def unsigned_of_nat take_bit_nat_eq_self del: of_nat_add)
  have h0: "h ! 0 = of_nat tot" "h ! 32 = of_nat (length name)"
    unfolding tot_def h_def by (rule entry_header_bytes)+
  have el: "entry_length (pre @ h @ name @ p @ sua @ post) (length pre) = tot"
    using b [of 0] h0(1) u(1) by (simp add: entry_length_def)
  have fs: "filename_size (pre @ h @ name @ p @ sua @ post) (length pre) = of_nat (length name)"
    using b [of 32] h0(2) by (simp add: filename_size_def)
  show ?thesis
    unfolding d entry_at_def sizeof_directory_entry_def el fs
    using u(2) n s by (simp add: tot_def add.assoc)
qed

lemma load_name_empty_nm:
  assumes e: "entry_at buffer entry name sua"
    and s: "sua = concat es @ nm @ rest" "\<forall>x \<in> set es. su_entry x \<and> \<not> is_nm x"
      "su_entry nm" "is_nm nm" "length nm = 5"
  shows "load_name 256 buffer entry = Inr (False, strip_version name)"
proof -
  note f = entry_at_fields [OF e]
  define a where "a = entry + sizeof_directory_entry + length name + name_pad name"
  have b: "bytes_at buffer a (length (concat es @ (nm @ rest))) = concat es @ (nm @ rest)"
    using f(5) s(1) by (simp add: a_def)
  note k = nm_scan_skips [OF b s(2)]
  have n: "nm_scan buffer (a + length (concat es)) (length (nm @ rest))
             = (0, Some (a + length (concat es)))"
    using nm_scan_found [OF k [THEN conjunct2] s(3,4)] s(5) by simp
  have ne: "sua \<noteq> []"
    using s(1,5) by auto
  have "nm_scan buffer a (length sua) = (0, Some (a + length (concat es)))"
    using k [THEN conjunct1] n s(1) by simp
  then show ?thesis
    using ne by (simp add: load_name_scan [OF e] a_def [symmetric] use_iso_name_strip [OF e])
qed

lemma iso9660_find_end: "iso9660_find ci buffer pos 0 filename = Inr None"
  by (subst iso9660_find.simps) simp

text \<open>
  One directory entry with the ISO name \<^verbatim>\<open>README.TXT;1\<close>: with an \<^verbatim>\<open>RR\<close> entry and an
  \<^verbatim>\<open>NM\<close> entry naming it \<^verbatim>\<open>readme.txt\<close>, with an \<^verbatim>\<open>NM\<close> entry of 5 bytes, and with no
  System Use Area.
\<close>

definition rr_entry_bytes :: "u8 list" where
  "rr_entry_bytes = cstr ''RR'' @ [5, 1, 0x89]"

definition readme_entry :: "u8 list \<Rightarrow> u8 list" where
  "readme_entry sua = directory_entry 20 100 0 (cstr ''README.TXT;1'') sua"

lemma readme_entry_at:
  "length sua < 200 \<Longrightarrow> entry_at (readme_entry sua) 0 (cstr ''README.TXT;1'') sua"
  using entry_at_directory_entry [of "cstr ''README.TXT;1''" sua "[]" 20 100 0 "[]"]
  by (simp add: readme_entry_def cstr_def name_pad_def)

lemma readme_entry_length:
  "length sua < 200 \<Longrightarrow> entry_length (readme_entry sua) 0 = 46 + length sua
     \<and> length (readme_entry sua) = 46 + length sua"
  using entry_at_fields(3) [OF readme_entry_at, of sua]
  by (simp add: sizeof_directory_entry_def name_pad_def cstr_def readme_entry_def
      directory_entry_parts)

lemma su_entries:
  "su_entry rr_entry_bytes" "\<not> is_nm rr_entry_bytes"
  "su_entry (nm_entry_bytes (cstr ''readme.txt''))" "is_nm (nm_entry_bytes (cstr ''readme.txt''))"
  "su_entry (nm_entry_bytes [])" "is_nm (nm_entry_bytes [])"
  by (simp_all add: su_entry_def is_nm_def rr_entry_bytes_def nm_entry_bytes_def cstr_def)

lemma readme_names:
  "strip_version (cstr ''README.TXT;1'') = cstr ''README.TXT''"
  "drop 5 (nm_entry_bytes (cstr ''readme.txt'')) = cstr ''readme.txt''"
  "strcmp (cstr ''readme.txt'') (cstr ''readme.txt'') = 0"
  "strcmp (cstr ''README.TXT'') (cstr ''readme.txt'') \<noteq> 0"
  "strcasecmp (cstr ''readme.txt'') (cstr ''README.TXT'') = 0"
  by (simp_all add: cstr_def nm_entry_bytes_def strcmp_eq_0 strcasecmp_eq_0 c_string_def
      tolower_def)

lemma readme_empty_nm:
  "load_name 256 (readme_entry (nm_entry_bytes [])) 0 = Inr (False, cstr ''README.TXT'') \<and>
   iso9660_find False (readme_entry (nm_entry_bytes [])) 0
     (length (readme_entry (nm_entry_bytes []))) (cstr ''readme.txt'') = Inr (Some 0)"
proof -
  have l: "length (nm_entry_bytes []) = 5"
    by (simp add: nm_entry_bytes_def cstr_def)
  have e: "entry_at (readme_entry (nm_entry_bytes [])) 0 (cstr ''README.TXT;1'') (nm_entry_bytes [])"
    using readme_entry_at [of "nm_entry_bytes []"] l by simp
  have n: "load_name 256 (readme_entry (nm_entry_bytes [])) 0 = Inr (False, cstr ''README.TXT'')"
    using load_name_empty_nm [OF e, of "[]" "nm_entry_bytes []" "[]"] l
    by (simp add: su_entries readme_names)
  show ?thesis
    using iso9660_find_step [OF n, of "length (readme_entry (nm_entry_bytes []))" False
        "cstr ''readme.txt''"] readme_entry_length [of "nm_entry_bytes []"] l n
    by (simp add: sizeof_directory_entry_def readme_names)
qed

section \<open>Claims about ISO 9660 name lookup\<close>

text \<open>
  C6, amended. With \<^verbatim>\<open>case_insensitive_fopen\<close> clear: when the System Use Area of an entry
  is a run of System Use entries other than \<^verbatim>\<open>NM\<close> followed by an \<^verbatim>\<open>NM\<close> entry of more than
  5 bytes, \<^verbatim>\<open>load_name\<close> gives the bytes after its 5-byte header and \<^verbatim>\<open>iso9660_find\<close>
  compares with \<^verbatim>\<open>strcmp\<close>; when the area holds no \<^verbatim>\<open>NM\<close> entry, the ISO name without its
  version suffix is compared with \<^verbatim>\<open>strcasecmp\<close>, whatever the flag.
\<close>

theorem iso9660_find_name_precedence:
  assumes "entry_at buffer pos name sua" and "entry_length buffer pos \<le> dir_size"
    and "\<forall>x \<in> set es. su_entry x \<and> \<not> is_nm x"
  shows "(sua = concat es @ nm @ rest \<and> su_entry nm \<and> is_nm nm \<and> 5 < length nm \<longrightarrow>
            load_name 256 buffer pos = Inr (True, drop 5 nm) \<and>
            iso9660_find False buffer pos dir_size filename =
              (if strcmp filename (drop 5 nm) = 0 then Inr (Some pos)
               else iso9660_find False buffer (pos + entry_length buffer pos)
                      (dir_size - entry_length buffer pos) filename)) \<and>
         (sua = concat es @ rest \<and> length rest < 4 \<longrightarrow>
            load_name 256 buffer pos = Inr (False, strip_version name) \<and>
            (\<forall>ci. iso9660_find ci buffer pos dir_size filename =
               (if strcasecmp filename (strip_version name) = 0 then Inr (Some pos)
                else iso9660_find ci buffer (pos + entry_length buffer pos)
                       (dir_size - entry_length buffer pos) filename))) \<and>
         (strcmp filename name = 0) = (c_string filename = c_string name) \<and>
         (strcasecmp filename name = 0)
           = (map tolower (c_string filename) = map tolower (c_string name))"
proof -
  have m: "sizeof_directory_entry \<le> entry_length buffer pos"
    using entry_at_fields(3) [OF assms(1)] by simp
  have 1: "load_name 256 buffer pos = Inr (True, drop 5 nm) \<and>
            iso9660_find False buffer pos dir_size filename =
              (if strcmp filename (drop 5 nm) = 0 then Inr (Some pos)
               else iso9660_find False buffer (pos + entry_length buffer pos)
                      (dir_size - entry_length buffer pos) filename)"
    if "sua = concat es @ nm @ rest \<and> su_entry nm \<and> is_nm nm \<and> 5 < length nm"
  proof -
    have n: "load_name 256 buffer pos = Inr (True, drop 5 nm)"
      using load_name_rock_ridge [OF assms(1) _ assms(3), of nm rest] that by simp
    show ?thesis
      using iso9660_find_step [OF n m assms(2), of False filename] n by simp
  qed
  have 2: "load_name 256 buffer pos = Inr (False, strip_version name) \<and>
            (\<forall>ci. iso9660_find ci buffer pos dir_size filename =
               (if strcasecmp filename (strip_version name) = 0 then Inr (Some pos)
                else iso9660_find ci buffer (pos + entry_length buffer pos)
                       (dir_size - entry_length buffer pos) filename))"
    if "sua = concat es @ rest \<and> length rest < 4"
  proof -
    have n: "load_name 256 buffer pos = Inr (False, strip_version name)"
      using load_name_iso [OF assms(1) _ assms(3), of rest] that by simp
    show ?thesis
      using iso9660_find_step [OF n m assms(2)] n by simp
  qed
  show ?thesis
    using 1 2 by (simp add: strcmp_eq_0 strcasecmp_eq_0)
qed

text \<open>
  C6 on the entry \<^verbatim>\<open>README.TXT;1\<close> with the \<^verbatim>\<open>NM\<close> name \<^verbatim>\<open>readme.txt\<close>: the lookup of
  \<^verbatim>\<open>readme.txt\<close> finds it, the lookup of \<^verbatim>\<open>README.TXT\<close> does not; without the \<^verbatim>\<open>NM\<close> entry
  the lookup of \<^verbatim>\<open>readme.txt\<close> finds it.
\<close>

theorem iso9660_find_name_precedence_witness:
  "entry_at (readme_entry (rr_entry_bytes @ nm_entry_bytes (cstr ''readme.txt''))) 0
     (cstr ''README.TXT;1'') (rr_entry_bytes @ nm_entry_bytes (cstr ''readme.txt'')) \<and>
   su_entry rr_entry_bytes \<and> \<not> is_nm rr_entry_bytes \<and>
   su_entry (nm_entry_bytes (cstr ''readme.txt'')) \<and> is_nm (nm_entry_bytes (cstr ''readme.txt'')) \<and>
   5 < length (nm_entry_bytes (cstr ''readme.txt'')) \<and>
   iso9660_find False (readme_entry (rr_entry_bytes @ nm_entry_bytes (cstr ''readme.txt''))) 0
     (length (readme_entry (rr_entry_bytes @ nm_entry_bytes (cstr ''readme.txt''))))
     (cstr ''readme.txt'') = Inr (Some 0) \<and>
   iso9660_find False (readme_entry (rr_entry_bytes @ nm_entry_bytes (cstr ''readme.txt''))) 0
     (length (readme_entry (rr_entry_bytes @ nm_entry_bytes (cstr ''readme.txt''))))
     (cstr ''README.TXT'') = Inr None \<and>
   entry_at (readme_entry rr_entry_bytes) 0 (cstr ''README.TXT;1'') rr_entry_bytes \<and>
   iso9660_find False (readme_entry rr_entry_bytes) 0 (length (readme_entry rr_entry_bytes))
     (cstr ''readme.txt'') = Inr (Some 0)"
proof -
  define sua where "sua = rr_entry_bytes @ nm_entry_bytes (cstr ''readme.txt'')"
  have l: "length sua = 20" "length rr_entry_bytes = 5"
    "length (nm_entry_bytes (cstr ''readme.txt'')) = 15"
    by (simp_all add: sua_def rr_entry_bytes_def nm_entry_bytes_def cstr_def)
  have e: "entry_at (readme_entry sua) 0 (cstr ''README.TXT;1'') sua"
    "entry_at (readme_entry rr_entry_bytes) 0 (cstr ''README.TXT;1'') rr_entry_bytes"
    using readme_entry_at [of sua] readme_entry_at [of rr_entry_bytes] l by simp_all
  have n: "entry_length (readme_entry sua) 0 = 66" "length (readme_entry sua) = 66"
    "entry_length (readme_entry rr_entry_bytes) 0 = 51" "length (readme_entry rr_entry_bytes) = 51"
    using readme_entry_length [of sua] readme_entry_length [of rr_entry_bytes] l by simp_all
  have es: "\<forall>x \<in> set [rr_entry_bytes]. su_entry x \<and> \<not> is_nm x"
    by (simp add: su_entries)
  have a: "sua = concat [rr_entry_bytes] @ nm_entry_bytes (cstr ''readme.txt'') @ []"
    "rr_entry_bytes = concat [rr_entry_bytes] @ []"
    by (simp_all add: sua_def)
  have "iso9660_find False (readme_entry sua) 0 (length (readme_entry sua)) filename =
     (if strcmp filename (drop 5 (nm_entry_bytes (cstr ''readme.txt''))) = 0 then Inr (Some 0)
      else iso9660_find False (readme_entry sua) (0 + entry_length (readme_entry sua) 0)
             (length (readme_entry sua) - entry_length (readme_entry sua) 0) filename)"
    for filename
    using iso9660_find_name_precedence [OF e(1) _ es,
        of "length (readme_entry sua)" "nm_entry_bytes (cstr ''readme.txt'')" "[]" filename]
      a(1) n l by (simp add: su_entries)
  then have 1: "iso9660_find False (readme_entry sua) 0 (length (readme_entry sua))
       (cstr ''readme.txt'') = Inr (Some 0)"
    "iso9660_find False (readme_entry sua) 0 (length (readme_entry sua))
       (cstr ''README.TXT'') = Inr None"
    by (simp_all add: readme_names n iso9660_find_end)
  have "iso9660_find False (readme_entry rr_entry_bytes) 0 (length (readme_entry rr_entry_bytes))
          (cstr ''readme.txt'') =
     (if strcasecmp (cstr ''readme.txt'') (strip_version (cstr ''README.TXT;1'')) = 0
      then Inr (Some 0)
      else iso9660_find False (readme_entry rr_entry_bytes)
             (0 + entry_length (readme_entry rr_entry_bytes) 0)
             (length (readme_entry rr_entry_bytes) - entry_length (readme_entry rr_entry_bytes) 0)
             (cstr ''readme.txt''))"
    using iso9660_find_name_precedence [OF e(2) _ es,
        of "length (readme_entry rr_entry_bytes)" "[]" "[]" "cstr ''readme.txt''"]
      a(2) n by simp
  then have 2: "iso9660_find False (readme_entry rr_entry_bytes) 0
      (length (readme_entry rr_entry_bytes)) (cstr ''readme.txt'') = Inr (Some 0)"
    by (simp add: readme_names)
  show ?thesis
    using e 1 2 l by (simp add: su_entries sua_def)
qed

text \<open>
  C6 as stated fails: an \<^verbatim>\<open>NM\<close> entry of exactly 5 bytes lies within the System Use Area,
  yet the ISO name is used and compared without regard to case.
\<close>

theorem iso9660_find_empty_nm_counterexample:
  "entry_at (readme_entry (nm_entry_bytes [])) 0 (cstr ''README.TXT;1'') (nm_entry_bytes []) \<and>
   su_entry (nm_entry_bytes []) \<and> is_nm (nm_entry_bytes []) \<and> length (nm_entry_bytes []) = 5 \<and>
   load_name 256 (readme_entry (nm_entry_bytes [])) 0 = Inr (False, cstr ''README.TXT'') \<and>
   iso9660_find False (readme_entry (nm_entry_bytes [])) 0
     (length (readme_entry (nm_entry_bytes []))) (cstr ''readme.txt'') = Inr (Some 0)"
  using readme_empty_nm readme_entry_at [of "nm_entry_bytes []"]
  by (simp add: su_entries) (simp add: nm_entry_bytes_def cstr_def)

section \<open>ISO 9660 files of several extents\<close>

text \<open>
  \<^verbatim>\<open>struct iso9660_extent\<close> and \<^verbatim>\<open>struct iso9660_file_handle\<close>; the field \<^verbatim>\<open>size\<close> is
  \<open>size_ext\<close> here, and the handle's \<^verbatim>\<open>context\<close> is the volume passed to the functions.
\<close>

record iso9660_extent =
  LBA :: u32
  size_ext :: u32

record iso9660_file_handle =
  total_size :: u64
  extent_count :: u32
  extents :: "iso9660_extent list"

definition ISO9660_FLAG_MULTI_EXTENT :: u8 where
  "ISO9660_FLAG_MULTI_EXTENT = 0x80"

definition ISO9660_MAX_EXTENT_COUNT :: u32 where
  "ISO9660_MAX_EXTENT_COUNT = 65536"

text \<open>
  \<^verbatim>\<open>iso9660_next_entry\<close>. The buffer starts at address \<open>base\<close>, \<open>current\<close> and \<open>buffer_end\<close>
  are offsets into it, and the result is the offset of the next entry or \<open>None\<close> for null.
  The sector boundary is taken on the address, as the source does.
\<close>

definition iso9660_next_entry :: "nat \<Rightarrow> u8 list \<Rightarrow> nat \<Rightarrow> nat \<Rightarrow> nat option" where
  "iso9660_next_entry base buffer current buffer_end =
     (if entry_length buffer current = 0 then
        (let next_sector = ALIGN_UP (base + current + 1) ISO9660_SECTOR_SIZE in
         if next_sector \<ge> base + buffer_end then None
         else if entry_length buffer (next_sector - base) = 0 then None
         else Some (next_sector - base))
      else
        (let next = current + entry_length buffer current in
         if next \<ge> buffer_end then None
         else if entry_length buffer next = 0 then
           (let next_sector = ALIGN_UP (base + next + 1) ISO9660_SECTOR_SIZE in
            if next_sector \<ge> base + buffer_end then None
            else if entry_length buffer (next_sector - base) = 0 then None
            else if entry_length buffer (next_sector - base) < sizeof_directory_entry then None
            else Some (next_sector - base))
         else if entry_length buffer next < sizeof_directory_entry then None
         else Some next))"

text \<open>
  The first pass of \<^verbatim>\<open>iso9660_open\<close> over the extents of the entry found, from the loop
  test on, with \<open>count\<close> and \<open>total_bytes\<close> for \<^verbatim>\<open>extent_count\<close> and \<^verbatim>\<open>total_size\<close>. The
  directory buffer holds \<open>length buffer\<close> bytes (\<^verbatim>\<open>current_size\<close>); a read of a field that
  lies past its end is the fault \<open>OutOfBounds\<close>.
\<close>

function count_extents ::
  "nat \<Rightarrow> u8 list \<Rightarrow> nat \<Rightarrow> u32 \<Rightarrow> u64 \<Rightarrow> fault + (u32 \<times> u64)" where
  "count_extents base buffer e count total_bytes =
     (if length buffer < e + 26 then Inl OutOfBounds
      else if entry_flags buffer e AND ISO9660_FLAG_MULTI_EXTENT \<noteq> 0 then
        (case iso9660_next_entry base buffer e (length buffer) of
           None \<Rightarrow> Inr (count, total_bytes)
         | Some next \<Rightarrow>
             if length buffer < next + 14 then Inl OutOfBounds
             else if count + 1 \<ge> ISO9660_MAX_EXTENT_COUNT
             then Inr (count + 1, total_bytes + ucast (extent_size_little buffer next))
             else count_extents base buffer next (count + 1)
                    (total_bytes + ucast (extent_size_little buffer next)))
      else Inr (count, total_bytes))"
  by pat_completeness auto
termination
proof (relation "measure (\<lambda>(base, buffer, e, count, total_bytes). unat (65535 - count))",
    goal_cases)
  case 1
  show ?case
    by simp
next
  case (2 base buffer e count total_bytes x2)
  have dec: "unat (w - 1) < unat w" if "w \<noteq> 0" for w :: u32
    using that by (simp add: unat_minus_one unat_gt_0)
  from 2 have "count + 1 < 65536"
    by (simp add: ISO9660_MAX_EXTENT_COUNT_def not_le)
  then have "count \<noteq> 65535"
    by auto
  then have "65535 - count \<noteq> 0"
    by simp
  then have "unat (65535 - count - 1) < unat (65535 - count)"
    by (rule dec)
  then show ?case
    by (simp add: diff_diff_eq add.commute)
qed

text \<open>
  The second pass, with \<open>n\<close> extents still to store. The array comes zeroed from
  \<^verbatim>\<open>ext_mem_alloc\<close>; a \<^verbatim>\<open>break\<close> leaves the rest of it so.
\<close>

fun fill_extents :: "nat \<Rightarrow> u8 list \<Rightarrow> nat \<Rightarrow> nat \<Rightarrow> fault + iso9660_extent list" where
  "fill_extents base buffer e 0 = Inr []"
| "fill_extents base buffer e (Suc n) =
     (if length buffer < e + 14 then Inl OutOfBounds
      else if n = 0
      then Inr [\<lparr>LBA = extent_little buffer e, size_ext = extent_size_little buffer e\<rparr>]
      else
        (case iso9660_next_entry base buffer e (length buffer) of
           None \<Rightarrow>
             Inr (\<lparr>LBA = extent_little buffer e, size_ext = extent_size_little buffer e\<rparr>
                    # replicate n \<lparr>LBA = 0, size_ext = 0\<rparr>)
         | Some next \<Rightarrow>
             (case fill_extents base buffer next n of
                Inl f \<Rightarrow> Inl f
              | Inr rest \<Rightarrow>
                  Inr (\<lparr>LBA = extent_little buffer e, size_ext = extent_size_little buffer e\<rparr>
                         # rest))))"

text \<open>
  \<^verbatim>\<open>iso9660_open\<close> from the point where the last path component has been found as the
  entry at offset \<open>entry\<close> of the directory buffer: the handle it sets up.
\<close>

definition iso9660_open_entry :: "nat \<Rightarrow> u8 list \<Rightarrow> nat \<Rightarrow> fault + iso9660_file_handle" where
  "iso9660_open_entry base buffer entry =
     (if length buffer < entry + 14 then Inl OutOfBounds
      else
        (case count_extents base buffer entry 1 (ucast (extent_size_little buffer entry)) of
           Inl f \<Rightarrow> Inl f
         | Inr (count, total_bytes) \<Rightarrow>
             (case fill_extents base buffer entry (unat count) of
                Inl f \<Rightarrow> Inl f
              | Inr array \<Rightarrow>
                  Inr \<lparr>total_size = total_bytes, extent_count = count, extents = array\<rparr>)))"

text \<open>
  \<^verbatim>\<open>iso9660_read\<close>: the locals \<^verbatim>\<open>offset_in_extent\<close> and \<^verbatim>\<open>to_read\<close>, the loop over the extents
  not yet visited, and the function. The result is the bytes stored in \<^verbatim>\<open>buf\<close>, in order,
  and the volume with its cache.
\<close>

definition offset_in_extent :: "u64 \<Rightarrow> u64 \<Rightarrow> u64" where
  "offset_in_extent extent_start loc = (if loc > extent_start then loc - extent_start else 0)"

definition to_read :: "iso9660_extent \<Rightarrow> u64 \<Rightarrow> u64 \<Rightarrow> u64 \<Rightarrow> u64" where
  "to_read x extent_start loc count =
     (if count < ucast (size_ext x) - offset_in_extent extent_start loc then count
      else ucast (size_ext x) - offset_in_extent extent_start loc)"

fun read_extents ::
  "disk \<Rightarrow> volume \<Rightarrow> iso9660_extent list \<Rightarrow> u64 \<Rightarrow> u64 \<Rightarrow> u64 \<Rightarrow> fault + (u8 list \<times> volume)" where
  "read_extents d vol [] extent_start loc count = Inr ([], vol)"
| "read_extents d vol (x # xs) extent_start loc count =
     (if count > 0 then
        if loc < extent_start + ucast (size_ext x) then
          (case volume_read d vol
                  (ucast (LBA x) * 2048 + offset_in_extent extent_start loc)
                  (to_read x extent_start loc count) of
             Inl f \<Rightarrow> Inl f
           | Inr (ok, bytes, vol') \<Rightarrow>
               if \<not> ok then Inl Panic
               else
                 (case read_extents d vol' xs (extent_start + ucast (size_ext x))
                         (loc + to_read x extent_start loc count)
                         (count - to_read x extent_start loc count) of
                    Inl f \<Rightarrow> Inl f
                  | Inr (rest, vol'') \<Rightarrow> Inr (bytes @ rest, vol'')))
        else read_extents d vol xs (extent_start + ucast (size_ext x)) loc count
      else Inr ([], vol))"

definition iso9660_read ::
  "disk \<Rightarrow> volume \<Rightarrow> iso9660_file_handle \<Rightarrow> u64 \<Rightarrow> u64 \<Rightarrow> fault + (u8 list \<times> volume)" where
  "iso9660_read d vol f loc count =
     read_extents d vol (take (unat (extent_count f)) (extents f)) 0 loc count"

text \<open>
  The layout of a directory: a record is followed at once by the next record or, where that
  one does not fit into the rest of the sector, by zero bytes up to the sector boundary at
  which it starts. \<open>record_end\<close> is the offset behind a record, \<open>sector_after base p\<close> the
  offset of the first sector boundary of the memory behind offset \<open>p\<close> of a buffer at
  address \<open>base\<close>. \<open>next_record\<close> says that the record at \<open>b\<close> follows the one at \<open>a\<close>,
  \<open>no_next_record\<close> that none does: the buffer ends, or what follows is shorter than a
  directory entry.
\<close>

definition record_end :: "u8 list \<Rightarrow> nat \<Rightarrow> nat" where
  "record_end buffer a = a + entry_length buffer a"

definition sector_after :: "nat \<Rightarrow> nat \<Rightarrow> nat" where
  "sector_after base p = ((base + p) div 2048 + 1) * 2048 - base"

definition next_record :: "nat \<Rightarrow> u8 list \<Rightarrow> nat \<Rightarrow> nat \<Rightarrow> bool" where
  "next_record base buffer a b =
     (record_end buffer a < length buffer \<and>
      (if entry_length buffer (record_end buffer a) \<noteq> 0 then b = record_end buffer a
       else b = sector_after base (record_end buffer a) \<and> b < length buffer) \<and>
      sizeof_directory_entry \<le> entry_length buffer b)"

definition no_next_record :: "nat \<Rightarrow> u8 list \<Rightarrow> nat \<Rightarrow> bool" where
  "no_next_record base buffer a =
     (length buffer \<le> record_end buffer a \<or>
      (if entry_length buffer (record_end buffer a) \<noteq> 0
       then entry_length buffer (record_end buffer a) < sizeof_directory_entry
       else length buffer \<le> sector_after base (record_end buffer a) \<or>
            entry_length buffer (sector_after base (record_end buffer a))
              < sizeof_directory_entry))"

text \<open>
  A run of records at the offsets \<open>es\<close>: the fixed part of each lies in the buffer, each but
  the last has the multi-extent flag and is followed by the next of the list. The run ends
  with the first record without the flag, with the 65536th, or with a record behind which
  the buffer holds no further record.
\<close>

fun extent_run :: "nat \<Rightarrow> u8 list \<Rightarrow> nat list \<Rightarrow> bool" where
  "extent_run base buffer [] = False"
| "extent_run base buffer [a] = (a + sizeof_directory_entry \<le> length buffer)"
| "extent_run base buffer (a # b # es) =
     (a + sizeof_directory_entry \<le> length buffer \<and>
      entry_flags buffer a AND ISO9660_FLAG_MULTI_EXTENT \<noteq> 0 \<and>
      next_record base buffer a b \<and> extent_run base buffer (b # es))"

definition run_ends :: "nat \<Rightarrow> u8 list \<Rightarrow> nat list \<Rightarrow> bool" where
  "run_ends base buffer es =
     (entry_flags buffer (last es) AND ISO9660_FLAG_MULTI_EXTENT = 0 \<or>
      length es = 65536 \<or> no_next_record base buffer (last es))"

definition entry_extent :: "u8 list \<Rightarrow> nat \<Rightarrow> iso9660_extent" where
  "entry_extent buffer e =
     \<lparr>LBA = extent_little buffer e, size_ext = extent_size_little buffer e\<rparr>"

declare count_extents.simps [simp del]

lemma byte_at_middle: "i < length l \<Longrightarrow> byte_at (xs @ l @ ys) (length xs + i) = l ! i"
  by (simp add: byte_at_def nth_append)

lemma length_le32_bytes [simp]: "length (le32_bytes w) = 4"
  by (simp add: le32_bytes_def)

lemma le32_at_le32_bytes: "le32_at (xs @ le32_bytes w @ ys) (length xs) = w"
proof -
  define B where "B = xs @ le32_bytes w @ ys"
  have b: "byte_at B (length xs) = ucast w"
    "byte_at B (Suc (length xs)) = ucast (drop_bit 8 w)"
    "byte_at B (Suc (Suc (length xs))) = ucast (drop_bit 16 w)"
    "byte_at B (Suc (Suc (Suc (length xs)))) = ucast (drop_bit 24 w)"
    by (simp_all add: B_def byte_at_def nth_append le32_bytes_def)
  have "le32_at B (length xs)
          = ucast (ucast (ucast w :: u8) OR push_bit 8 (ucast (ucast (drop_bit 8 w) :: u8)) :: u16)
            OR push_bit 16 (ucast (ucast (ucast (drop_bit 16 w) :: u8)
                 OR push_bit 8 (ucast (ucast (drop_bit 24 w) :: u8)) :: u16))"
    by (simp add: le32_at_def le16_at_def add.assoc b)
  also have "\<dots> = w"
  proof (rule bit_word_eqI)
    fix n
    assume "n < LENGTH(32)"
    then consider "n < 8" | "8 \<le> n" "n < 16" | "16 \<le> n" "n < 24" | "24 \<le> n" "n < 32"
      by fastforce
    then show "bit (ucast (ucast (ucast w :: u8)
          OR push_bit 8 (ucast (ucast (drop_bit 8 w) :: u8)) :: u16)
        OR push_bit 16 (ucast (ucast (ucast (drop_bit 16 w) :: u8)
             OR push_bit 8 (ucast (ucast (drop_bit 24 w) :: u8)) :: u16)) :: u32) n = bit w n"
      by cases (auto simp add: bit_simps)
  qed
  finally show ?thesis
    by (simp add: B_def)
qed

text \<open>A directory record by its fields, and its bytes, for the concrete directories below.\<close>

record dir_record =
  rec_lba :: u32
  rec_size :: u32
  rec_flags :: u8
  rec_name :: "u8 list"
  rec_sua :: "u8 list"

definition record_bytes :: "dir_record \<Rightarrow> u8 list" where
  "record_bytes r = directory_entry (rec_lba r) (rec_size r) (rec_flags r) (rec_name r) (rec_sua r)"

definition record_fits :: "dir_record \<Rightarrow> bool" where
  "record_fits r = (33 + length (rec_name r) + name_pad (rec_name r) + length (rec_sua r) < 256)"

lemma length_record_bytes:
  "length (record_bytes r)
     = 33 + length (rec_name r) + name_pad (rec_name r) + length (rec_sua r)"
  by (simp add: record_bytes_def directory_entry_parts)

lemma record_fields:
  assumes "record_fits r"
  shows "entry_length (pre @ record_bytes r @ post) (length pre) = length (record_bytes r)"
    and "extent_little (pre @ record_bytes r @ post) (length pre) = rec_lba r"
    and "extent_size_little (pre @ record_bytes r @ post) (length pre) = rec_size r"
    and "entry_flags (pre @ record_bytes r @ post) (length pre) = rec_flags r"
proof -
  define t where "t = rec_name r @ replicate (name_pad (rec_name r)) 0 @ rec_sua r @ post"
  define l :: u8 where
    "l = of_nat (33 + length (rec_name r) + name_pad (rec_name r) + length (rec_sua r))"
  define h2 where "h2 = replicate 7 (0 :: u8)
    @ [rec_flags r, 0, 0, 1, 0, 0, 1, of_nat (length (rec_name r))]"
  have d: "pre @ record_bytes r @ post
      = pre @ [l, 0] @ le32_bytes (rec_lba r) @ rev (le32_bytes (rec_lba r))
          @ le32_bytes (rec_size r) @ rev (le32_bytes (rec_size r)) @ h2 @ t"
    by (simp add: record_bytes_def directory_entry_parts entry_header_def both_endian32_def
        t_def l_def h2_def)
  show "entry_length (pre @ record_bytes r @ post) (length pre) = length (record_bytes r)"
    using entry_at_fields(3) [OF entry_at_directory_entry, of "rec_name r" "rec_sua r" pre
        "rec_lba r" "rec_size r" "rec_flags r" post] assms
    by (simp add: record_fits_def record_bytes_def [symmetric] length_record_bytes
        sizeof_directory_entry_def)
  show "extent_little (pre @ record_bytes r @ post) (length pre) = rec_lba r"
    unfolding d extent_little_def
    using le32_at_le32_bytes [of "pre @ [l, 0]" "rec_lba r"] by simp
  show "extent_size_little (pre @ record_bytes r @ post) (length pre) = rec_size r"
    unfolding d extent_size_little_def
    using le32_at_le32_bytes [of "pre @ [l, 0] @ le32_bytes (rec_lba r)
        @ rev (le32_bytes (rec_lba r))" "rec_size r"] by (simp add: add.assoc)
  have "byte_at (pre @ record_bytes r @ post) (length pre + 25) = rec_flags r"
    unfolding d
    using byte_at_middle [of 0 "[rec_flags r]" "pre @ [l, 0] @ le32_bytes (rec_lba r)
        @ rev (le32_bytes (rec_lba r)) @ le32_bytes (rec_size r) @ rev (le32_bytes (rec_size r))
        @ replicate 7 0"]
    by (simp add: h2_def add.assoc)
  then show "entry_flags (pre @ record_bytes r @ post) (length pre) = rec_flags r"
    by (simp add: entry_flags_def)
qed

lemma record_bytes_min: "33 \<le> length (record_bytes r)"
  by (simp add: length_record_bytes)

lemma count_extents_bound:
  "count_extents base buffer e c t = Inr (c', t') \<Longrightarrow> unat c < 65536 \<Longrightarrow> unat c' \<le> 65536"
proof (induction base buffer e c t rule: count_extents.induct)
  case (1 base buffer e c t)
  have c1: "unat (c + 1) = unat c + 1"
    using 1(3) by (simp add: unat_add_lem [THEN iffD1])
  have cap: "(65536 \<le> c + 1) = (unat c = 65535)"
    using 1(3) c1 by (auto simp add: word_le_nat_alt)
  show ?case
  proof (cases "iso9660_next_entry base buffer e (length buffer)")
    case None
    then show ?thesis
      using 1(2,3) by (subst (asm) count_extents.simps) (auto split: if_splits)
  next
    case (Some nx)
    show ?thesis
    proof (cases "\<not> length buffer < e + 26
        \<and> entry_flags buffer e AND ISO9660_FLAG_MULTI_EXTENT \<noteq> 0
        \<and> \<not> length buffer < nx + 14 \<and> \<not> ISO9660_MAX_EXTENT_COUNT \<le> c + 1")
      case True
      then have "count_extents base buffer nx (c + 1)
          (t + ucast (extent_size_little buffer nx)) = Inr (c', t')"
        using 1(2) Some by (subst (asm) count_extents.simps) simp
      moreover have "unat (c + 1) < 65536"
        using True cap c1 1(3) by (simp add: ISO9660_MAX_EXTENT_COUNT_def)
      ultimately show ?thesis
        using 1(1) [OF _ _ Some] True by simp
    next
      case False
      then show ?thesis
        using 1(2,3) Some c1 cap
        by (subst (asm) count_extents.simps)
          (auto simp add: ISO9660_MAX_EXTENT_COUNT_def split: if_splits)
    qed
  qed
qed

lemma fill_extents_length: "fill_extents base buffer e n = Inr xs \<Longrightarrow> length xs = n"
proof (induction n arbitrary: e xs)
  case 0
  then show ?case
    by simp
next
  case (Suc n)
  then show ?case
    by (auto split: if_splits option.splits sum.splits)
qed

text \<open>
  The bytes of an extent on a medium, the bytes of a file in extent order, and the extents
  \<^verbatim>\<open>volume_read\<close> accepts whole.
\<close>

definition extent_bytes :: "(nat \<Rightarrow> u8) \<Rightarrow> volume \<Rightarrow> iso9660_extent \<Rightarrow> u8 list" where
  "extent_bytes content v x = device_bytes content v (unat (LBA x) * 2048) (unat (size_ext x))"

definition file_bytes :: "(nat \<Rightarrow> u8) \<Rightarrow> volume \<Rightarrow> iso9660_extent list \<Rightarrow> u8 list" where
  "file_bytes content v xs = concat (map (extent_bytes content v) xs)"

definition extent_readable :: "volume \<Rightarrow> iso9660_extent \<Rightarrow> bool" where
  "extent_readable v x =
     (readable v (ucast (LBA x) * 2048) (unat (size_ext x)) \<and>
      dev_base v + unat (LBA x) * 2048 + unat (size_ext x) \<le> 2 ^ 64)"

definition extents_size :: "iso9660_extent list \<Rightarrow> nat" where
  "extents_size xs = sum_list (map (unat \<circ> size_ext) xs)"

lemma length_device_bytes [simp]: "length (device_bytes content v a n) = n"
  by (simp add: device_bytes_def)

lemma length_extent_bytes [simp]: "length (extent_bytes content v x) = unat (size_ext x)"
  by (simp add: extent_bytes_def)

lemma device_bytes_sub:
  "off + n \<le> m \<Longrightarrow> take n (drop off (device_bytes c v a m)) = device_bytes c v (a + off) n"
  by (rule nth_equalityI) (simp_all add: device_bytes_def add.assoc)

lemma extent_bytes_same_device:
  "same_device v v' \<Longrightarrow> extent_bytes content v' = extent_bytes content v"
  by (simp add: fun_eq_iff extent_bytes_def device_bytes_def dev_base_same_device)

lemma file_bytes_same_device:
  "same_device v v' \<Longrightarrow> file_bytes content v' xs = file_bytes content v xs"
  by (simp add: file_bytes_def extent_bytes_same_device)

lemma extent_readable_same_device:
  "same_device v v' \<Longrightarrow> extent_readable v' x = extent_readable v x"
  by (simp add: extent_readable_def readable_same_device dev_base_same_device)

lemma unat_lba_offset: "unat (ucast (w :: u32) * 2048 :: u64) = unat w * 2048"
proof -
  have "unat w < 2 ^ 32"
    using unsigned_less [of w, where 'a = nat] by simp
  then have "unat (ucast w :: u64) * unat (2048 :: u64) < 2 ^ 64"
    by (simp add: unat_ucast_u32_u64)
  then show ?thesis
    by (simp add: unat_mult_lem [THEN iffD1] unat_ucast_u32_u64)
qed

lemma read_extents_zero: "read_extents d v xs start loc 0 = Inr ([], v)"
  by (cases xs) simp_all

lemma extent_read:
  assumes m: "vol_ok v" "coherent content v" "sector_size v = ss"
    and r: "extent_readable v x"
    and b: "unat off + unat n \<le> unat (size_ext x)" "unat off < unat (size_ext x)"
  shows "volume_read (media content ss) v (ucast (LBA x) * 2048 + off) n
           = Inr (True, take (unat n) (drop (unat off) (extent_bytes content v x)),
                  media_after content v (ucast (LBA x) * 2048 + off) n)"
proof -
  have rd: "readable v (ucast (LBA x) * 2048) (unat (size_ext x))"
    and db: "dev_base v + unat (LBA x) * 2048 + unat (size_ext x) \<le> 2 ^ 64"
    using r by (simp_all add: extent_readable_def)
  note s = readable_sub [OF rd b]
  have u: "unat (ucast (LBA x) * 2048 + off) = unat (LBA x) * 2048 + unat off"
    using s(1) by (simp add: unat_lba_offset)
  have "dev_base v + unat (ucast (LBA x) * 2048 + off) + unat n \<le> 2 ^ 64"
    using db b(1) u by simp
  from volume_read_media_simp [OF m(1,2) s(2) this m(3)]
  show ?thesis
    using device_bytes_sub [OF b(1), of content v "unat (LBA x) * 2048"]
    by (simp add: u extent_bytes_def)
qed

lemma read_extents_media:
  assumes "vol_ok v" "coherent content v" "sector_size v = ss"
    and "\<forall>x \<in> set xs. extent_readable v x"
    and "unat start \<le> unat loc" "unat start + extents_size xs < 2 ^ 64"
    and "unat loc + unat count \<le> unat start + extents_size xs"
  shows "\<exists>v'. read_extents (media content ss) v xs start loc count
           = Inr (take (unat count) (drop (unat loc - unat start) (file_bytes content v xs)), v')
         \<and> same_device v v' \<and> coherent content v'"
  using assms
proof (induction xs arbitrary: v start loc count)
  case Nil
  then show ?case
    by (simp add: same_device_refl file_bytes_def)
next
  case (Cons x xs)
  define z where "z = unat (size_ext x)"
  define e where "e = start + ucast (size_ext x)"
  have fs: "extents_size (x # xs) = z + extents_size xs"
    by (simp add: extents_size_def z_def)
  have fb: "file_bytes content v (x # xs) = extent_bytes content v x @ file_bytes content v xs"
    by (simp add: file_bytes_def)
  have ue: "unat e = unat start + z"
    using Cons.prems(6) fs
    by (simp add: e_def z_def unat_add_lem [THEN iffD1] unat_ucast_u32_u64)
  have rx: "extent_readable v x" and rxs: "\<forall>y \<in> set xs. extent_readable v y"
    using Cons.prems(4) by simp_all
  show ?case
  proof (cases "count = 0")
    case True
    then show ?thesis
      using Cons.prems(2) by (simp add: read_extents_zero same_device_refl)
  next
    case False
    then have c0: "0 < count"
      by (simp add: word_gt_0)
    show ?thesis
    proof (cases "loc < e")
      case skip: False
      then have le: "unat start + z \<le> unat loc"
        by (simp add: word_less_nat_alt ue not_less)
      have "unat e \<le> unat loc" "unat e + extents_size xs < 2 ^ 64"
        "unat loc + unat count \<le> unat e + extents_size xs"
        using Cons.prems(6,7) fs ue le by simp_all
      from Cons.IH [OF Cons.prems(1-3) rxs this]
      obtain v' where v': "read_extents (media content ss) v xs e loc count
           = Inr (take (unat count) (drop (unat loc - unat e) (file_bytes content v xs)), v')"
        "same_device v v'" "coherent content v'"
        by auto
      have "drop (unat loc - unat start) (file_bytes content v (x # xs))
              = drop (unat loc - unat e) (file_bytes content v xs)"
        using le by (simp add: fb ue z_def)
      then show ?thesis
        using v' c0 skip by (simp add: e_def [symmetric])
    next
      case True
      then have lt: "unat loc < unat start + z"
        by (simp add: word_less_nat_alt ue)
      define off where "off = offset_in_extent start loc"
      have uo: "unat off = unat loc - unat start"
        using Cons.prems(5)
        by (auto simp add: off_def offset_in_extent_def unat_sub word_less_nat_alt
            word_le_nat_alt)
      have ua: "unat (ucast (size_ext x) - off) = z - (unat loc - unat start)"
        using lt Cons.prems(5) uo
        by (simp add: unat_sub word_le_nat_alt unat_ucast_u32_u64 z_def)
      define n where "n = to_read x start loc count"
      have un: "unat n = min (unat count) (z - (unat loc - unat start))"
        using ua by (auto simp add: n_def to_read_def off_def [symmetric] word_less_nat_alt)
      have b: "unat off + unat n \<le> unat (size_ext x)" "unat off < unat (size_ext x)"
        using lt Cons.prems(5) by (simp_all add: uo un z_def)
      define v1 where "v1 = media_after content v (ucast (LBA x) * 2048 + off) n"
      have rd: "volume_read (media content ss) v (ucast (LBA x) * 2048 + off) n
           = Inr (True, take (unat n) (drop (unat off) (extent_bytes content v x)), v1)"
        using extent_read [OF Cons.prems(1-3) rx b] by (simp add: v1_def)
      have sd: "same_device v v1" and co: "coherent content v1" and ok: "vol_ok v1"
        and ss: "sector_size v1 = ss"
        using media_after_props(1) [of v content] media_after_props(2) [of content v] Cons.prems(1-3)
        by (simp_all add: v1_def media_after_simps)
      have rxs1: "\<forall>y \<in> set xs. extent_readable v1 y"
        using rxs by (simp add: extent_readable_same_device [OF sd])
      show ?thesis
      proof (cases "unat count \<le> z - (unat loc - unat start)")
        case last: True
        then have "n = count"
          using un by (simp add: word_eq_iff_unsigned [where ?'a = nat])
        then have rest: "read_extents (media content ss) v1 xs e (loc + n) (count - n)
                     = Inr ([], v1)"
          by (simp add: read_extents_zero)
        have "take (unat count) (drop (unat loc - unat start) (file_bytes content v (x # xs)))
                = take (unat n) (drop (unat off) (extent_bytes content v x))"
          using last \<open>n = count\<close> by (simp add: fb uo z_def)
        then show ?thesis
          using rd rest c0 True sd co
          by (simp add: e_def [symmetric] off_def [symmetric] n_def [symmetric])
      next
        case more: False
        then have un': "unat n = z - (unat loc - unat start)"
          using un by simp
        have ul: "unat (loc + n) = unat e"
          using lt Cons.prems(5,6) fs un' ue
          by (simp add: unat_add_lem [THEN iffD1])
        have uc: "unat (count - n) = unat count - unat n"
          using more un' by (simp add: unat_sub word_le_nat_alt)
        have "unat e \<le> unat (loc + n)" "unat e + extents_size xs < 2 ^ 64"
          "unat (loc + n) + unat (count - n) \<le> unat e + extents_size xs"
          using Cons.prems(5,6,7) fs ue ul uc un' more lt by simp_all
        from Cons.IH [OF ok co ss rxs1 this]
        obtain v' where v': "read_extents (media content ss) v1 xs e (loc + n) (count - n)
             = Inr (take (unat (count - n)) (drop (unat (loc + n) - unat e)
                 (file_bytes content v1 xs)), v')"
          "same_device v1 v'" "coherent content v'"
          by auto
        have "take (unat count) (drop (unat loc - unat start) (file_bytes content v (x # xs)))
                = take (unat n) (drop (unat off) (extent_bytes content v x))
                  @ take (unat (count - n)) (file_bytes content v xs)"
          using more un' uc lt Cons.prems(5) by (simp add: fb uo z_def)
        then show ?thesis
          using rd v' c0 True sd same_device_trans [OF sd v'(2)]
          by (simp add: e_def [symmetric] off_def [symmetric] n_def [symmetric] ul
              file_bytes_same_device [OF sd])
      qed
    qed
  qed
qed

lemma length_file_bytes: "length (file_bytes content v xs) = extents_size xs"
  by (induction xs) (simp_all add: file_bytes_def extents_size_def)

lemma iso9660_read_media:
  assumes "vol_ok vol" "coherent content vol" "sector_size vol = ss"
    and "\<forall>x \<in> set (extents h). extent_readable vol x"
    and "unat (extent_count h) = length (extents h)"
    and "unat (total_size h) = extents_size (extents h)"
    and "unat loc + unat count \<le> unat (total_size h)"
  shows "\<exists>v'. iso9660_read (media content ss) vol h loc count
           = Inr (take (unat count) (drop (unat loc) (file_bytes content vol (extents h))), v')"
proof -
  have "extents_size (extents h) < 2 ^ 64"
    using unsigned_less [of "total_size h", where 'a = nat] assms(6) by simp
  then show ?thesis
    using read_extents_media [OF assms(1-4), of 0 loc count] assms(5-7)
    by (auto simp add: iso9660_read_def)
qed

lemma iso9660_open_entry_bound:
  assumes "iso9660_open_entry base buffer e = Inr h"
  shows "unat (extent_count h) \<le> 65536 \<and> length (extents h) = unat (extent_count h)"
proof -
  from assms obtain c t xs where
    c: "count_extents base buffer e 1 (ucast (extent_size_little buffer e)) = Inr (c, t)"
    and f: "fill_extents base buffer e (unat c) = Inr xs"
    and h: "h = \<lparr>total_size = t, extent_count = c, extents = xs\<rparr>"
    by (auto simp add: iso9660_open_entry_def split: if_splits sum.splits prod.splits)
  show ?thesis
    using count_extents_bound [OF c] fill_extents_length [OF f] h by simp
qed

lemma no_next_record_iff:
  "no_next_record base buffer a \<longleftrightarrow> \<not> (\<exists>b. next_record base buffer a b)"
  by (auto simp add: no_next_record_def next_record_def not_le not_less)

lemma sector_after_aligned:
  assumes "2048 dvd base"
  shows "sector_after base p = (p div 2048 + 1) * 2048"
proof -
  from assms obtain k where "base = 2048 * k" ..
  then show ?thesis
    by (simp add: sector_after_def algebra_simps)
qed

lemma align_up_sector:
  "ALIGN_UP (Suc (base + p)) ISO9660_SECTOR_SIZE = sector_after base p + base"
  "base + p < ALIGN_UP (Suc (base + p)) ISO9660_SECTOR_SIZE"
proof -
  define x where "x = base + p"
  have m: "x mod 2048 \<le> x" "x mod 2048 < 2048"
    by simp_all
  have d: "x div 2048 * 2048 = x - x mod 2048"
    by (simp add: minus_mod_eq_div_mult [symmetric])
  have "ALIGN_UP (Suc x) ISO9660_SECTOR_SIZE = x + 2048 - x mod 2048"
    by (simp add: ALIGN_UP_def ALIGN_DOWN_def ISO9660_SECTOR_SIZE_def)
  then have a: "ALIGN_UP (Suc x) ISO9660_SECTOR_SIZE = (x div 2048 + 1) * 2048"
    using m d by simp
  show l: "base + p < ALIGN_UP (Suc (base + p)) ISO9660_SECTOR_SIZE"
    using a m d by (simp add: x_def [symmetric])
  have "base \<le> x"
    by (simp add: x_def)
  then have "base \<le> (x div 2048 + 1) * 2048"
    using l a by (simp add: x_def [symmetric])
  then show "ALIGN_UP (Suc (base + p)) ISO9660_SECTOR_SIZE = sector_after base p + base"
    using a by (simp add: sector_after_def x_def [symmetric])
qed

lemma next_entry_follows:
  assumes "entry_length buffer a \<noteq> 0" "next_record base buffer a b"
  shows "iso9660_next_entry base buffer a (length buffer) = Some b"
proof -
  define p where "p = a + entry_length buffer a"
  define q where "q = sector_after base p"
  have al: "ALIGN_UP (Suc (base + p)) ISO9660_SECTOR_SIZE = q + base"
    unfolding q_def by (rule align_up_sector)
  have n: "p < length buffer"
    "entry_length buffer p \<noteq> 0 \<Longrightarrow> b = p"
    "entry_length buffer p = 0 \<Longrightarrow> b = q \<and> q < length buffer"
    "sizeof_directory_entry \<le> entry_length buffer b"
    using assms(2) unfolding next_record_def record_end_def p_def q_def by simp_all
  have s: "0 < sizeof_directory_entry"
    by (simp add: sizeof_directory_entry_def)
  show ?thesis
  proof (cases "entry_length buffer p = 0")
    case True
    then have "b = q" "q < length buffer" "entry_length buffer q \<noteq> 0"
      "\<not> entry_length buffer q < sizeof_directory_entry"
      using n s by auto
    then show ?thesis
      using assms(1) n(1) True
      by (simp add: iso9660_next_entry_def Let_def p_def [symmetric] al)
  next
    case False
    then show ?thesis
      using assms(1) n
      by (simp add: iso9660_next_entry_def Let_def p_def [symmetric])
  qed
qed

lemma next_entry_none:
  assumes "entry_length buffer a \<noteq> 0" "no_next_record base buffer a"
  shows "iso9660_next_entry base buffer a (length buffer) = None"
proof -
  define p where "p = a + entry_length buffer a"
  define q where "q = sector_after base p"
  have al: "ALIGN_UP (Suc (base + p)) ISO9660_SECTOR_SIZE = q + base"
    unfolding q_def by (rule align_up_sector)
  have n: "length buffer \<le> p \<or>
      (if entry_length buffer p \<noteq> 0 then entry_length buffer p < sizeof_directory_entry
       else length buffer \<le> q \<or> entry_length buffer q < sizeof_directory_entry)"
    using assms(2) unfolding no_next_record_def record_end_def p_def q_def .
  show ?thesis
    using assms(1) n
    by (auto simp add: iso9660_next_entry_def Let_def p_def [symmetric] al split: if_splits)
qed

lemma extent_run_head: "extent_run base buffer (e # es) \<Longrightarrow> e + sizeof_directory_entry \<le> length buffer"
  by (cases es) simp_all

lemma extent_run_tail:
  "extent_run base buffer (e # x # es) \<Longrightarrow> sizeof_directory_entry \<le> entry_length buffer x"
  by (simp add: next_record_def)

lemma count_extents_run:
  assumes "extent_run base buffer (e # es)" "entry_length buffer e \<noteq> 0"
    and "entry_flags buffer (last (e # es)) AND ISO9660_FLAG_MULTI_EXTENT = 0 \<or>
         unat c + length es = 65536 \<or> no_next_record base buffer (last (e # es))"
    and "unat c + length es \<le> 65536" "unat c < 65536"
  shows "count_extents base buffer e c t
           = Inr (c + of_nat (length es),
                  t + of_nat (sum_list (map (\<lambda>x. unat (extent_size_little buffer x)) es)))"
  using assms
proof (induction es arbitrary: e c t)
  case Nil
  have l: "\<not> length buffer < e + 26"
    using Nil.prems(1) by (simp add: sizeof_directory_entry_def)
  show ?case
  proof (cases "entry_flags buffer e AND ISO9660_FLAG_MULTI_EXTENT = 0")
    case True
    then show ?thesis
      using l by (subst count_extents.simps) simp
  next
    case False
    then have "no_next_record base buffer e"
      using Nil.prems(3,5) by simp
    then have "iso9660_next_entry base buffer e (length buffer) = None"
      using Nil.prems(2) by (intro next_entry_none)
    then show ?thesis
      using l False by (subst count_extents.simps) simp
  qed
next
  case (Cons x es)
  have l: "\<not> length buffer < e + 26" "\<not> length buffer < x + 14"
    using Cons.prems(1) extent_run_head [of base buffer x es]
    by (simp_all add: sizeof_directory_entry_def)
  have fl: "entry_flags buffer e AND ISO9660_FLAG_MULTI_EXTENT \<noteq> 0"
    and nr: "next_record base buffer e x" and run: "extent_run base buffer (x # es)"
    using Cons.prems(1) by simp_all
  have n: "iso9660_next_entry base buffer e (length buffer) = Some x"
    using Cons.prems(2) nr by (rule next_entry_follows)
  have x0: "entry_length buffer x \<noteq> 0"
    using extent_run_tail [OF Cons.prems(1)] by (simp add: sizeof_directory_entry_def)
  have c1: "unat (c + 1) = unat c + 1"
    using Cons.prems(5) by (simp add: unat_add_lem [THEN iffD1])
  have cap: "(65536 \<le> c + 1) = (unat c = 65535)"
    using Cons.prems(5) c1 by (auto simp add: word_le_nat_alt)
  have s: "(ucast (extent_size_little buffer x) :: u64)
             = of_nat (unat (extent_size_little buffer x))"
    by simp
  show ?case
  proof (cases "unat c = 65535")
    case True
    then have "es = []"
      using Cons.prems(4) by simp
    then show ?thesis
      using True fl n l cap
      by (subst count_extents.simps) (simp add: ISO9660_MAX_EXTENT_COUNT_def)
  next
    case False
    have ih: "count_extents base buffer x (c + 1) (t + ucast (extent_size_little buffer x))
              = Inr (c + 1 + of_nat (length es),
                  t + ucast (extent_size_little buffer x)
                    + of_nat (sum_list (map (\<lambda>x. unat (extent_size_little buffer x)) es)))"
      using run x0 Cons.prems(3,4,5) False c1 by (intro Cons.IH) auto
    show ?thesis
      using False fl n l cap ih
      by (subst count_extents.simps) (simp add: ISO9660_MAX_EXTENT_COUNT_def s del: of_nat_unat)
  qed
qed

lemma fill_extents_run:
  assumes "extent_run base buffer (e # es)" "entry_length buffer e \<noteq> 0"
  shows "fill_extents base buffer e (Suc (length es)) = Inr (map (entry_extent buffer) (e # es))"
  using assms
proof (induction es arbitrary: e)
  case Nil
  then show ?case
    by (simp add: entry_extent_def sizeof_directory_entry_def)
next
  case (Cons x es)
  have l: "\<not> length buffer < e + 14"
    using Cons.prems(1) by (simp add: sizeof_directory_entry_def)
  have nr: "next_record base buffer e x" and run: "extent_run base buffer (x # es)"
    using Cons.prems(1) by simp_all
  have n: "iso9660_next_entry base buffer e (length buffer) = Some x"
    using Cons.prems(2) nr by (rule next_entry_follows)
  have x0: "entry_length buffer x \<noteq> 0"
    using extent_run_tail [OF Cons.prems(1)] by (simp add: sizeof_directory_entry_def)
  have ih: "fill_extents base buffer x (Suc (length es)) = Inr (map (entry_extent buffer) (x # es))"
    using run x0 by (rule Cons.IH)
  show ?case
    using n l ih by (simp add: entry_extent_def)
qed

lemma extents_size_entries:
  "extents_size (map (entry_extent buffer) es)
     = sum_list (map (\<lambda>x. unat (extent_size_little buffer x)) es)"
  by (induction es) (simp_all add: extents_size_def entry_extent_def)

lemma extents_size_bound: "extents_size xs \<le> length xs * 2 ^ 32"
proof (induction xs)
  case Nil
  show ?case
    by (simp add: extents_size_def)
next
  case (Cons x xs)
  have "unat (size_ext x) < 2 ^ 32"
    using unsigned_less [of "size_ext x", where 'a = nat] by simp
  then show ?case
    using Cons by (simp add: extents_size_def)
qed

lemma iso9660_open_entry_run:
  assumes "extent_run base buffer (e # es)" "entry_length buffer e \<noteq> 0"
    and "run_ends base buffer (e # es)" "Suc (length es) \<le> 65536"
  shows "\<exists>h. iso9660_open_entry base buffer e = Inr h \<and>
             extents h = map (entry_extent buffer) (e # es) \<and>
             unat (extent_count h) = Suc (length es) \<and>
             unat (total_size h) = extents_size (extents h)"
proof -
  define S where "S = sum_list (map (\<lambda>x. unat (extent_size_little buffer x)) es)"
  have l: "\<not> length buffer < e + 14"
    using extent_run_head [OF assms(1)] by (simp add: sizeof_directory_entry_def)
  have "entry_flags buffer (last (e # es)) AND ISO9660_FLAG_MULTI_EXTENT = 0 \<or>
         unat (1 :: u32) + length es = 65536 \<or> no_next_record base buffer (last (e # es))"
    using assms(3) by (simp add: run_ends_def)
  then have c: "count_extents base buffer e 1 (ucast (extent_size_little buffer e))
             = Inr (1 + of_nat (length es), ucast (extent_size_little buffer e) + of_nat S)"
    unfolding S_def using assms(1,2,4) by (intro count_extents_run) simp_all
  have uc: "unat (1 + of_nat (length es) :: u32) = Suc (length es)"
  proof -
    have "unat (of_nat (length es) :: u32) = length es"
      using assms(4) by (simp add: unsigned_of_nat take_bit_nat_eq_self)
    then show ?thesis
      using assms(4) by (simp add: unat_add_lem [THEN iffD1])
  qed
  have f: "fill_extents base buffer e (Suc (length es)) = Inr (map (entry_extent buffer) (e # es))"
    using assms(1,2) by (rule fill_extents_run)
  have "S \<le> length es * 2 ^ 32"
    using extents_size_bound [of "map (entry_extent buffer) es"]
    by (simp add: S_def extents_size_entries)
  then have "S \<le> 65536 * 2 ^ 32"
    using assms(4) by (meson Suc_leD le_trans mult_le_mono1)
  moreover have "unat (extent_size_little buffer e) < 2 ^ 32"
    using unsigned_less [of "extent_size_little buffer e", where 'a = nat] by simp
  ultimately have ut: "unat (ucast (extent_size_little buffer e) + of_nat S :: u64)
      = unat (extent_size_little buffer e) + S"
    by (simp add: unat_add_lem [THEN iffD1] unat_ucast_u32_u64 unsigned_of_nat
        take_bit_nat_eq_self)
  have "extents_size (map (entry_extent buffer) (e # es)) = unat (extent_size_little buffer e) + S"
    unfolding extents_size_entries S_def by simp
  then show ?thesis
    using l c uc f ut by (simp add: iso9660_open_entry_def)
qed

text \<open>
  Every directory has such a run from every entry whose fixed part lies in the buffer, unless
  a record of the run with the flag is followed by one whose fixed part runs past the end of
  the buffer.
\<close>

lemma extent_run_total:
  assumes "e + sizeof_directory_entry \<le> length buffer" "0 < k"
  shows "(\<exists>es. extent_run base buffer (e # es) \<and> Suc (length es) \<le> k \<and>
            (entry_flags buffer (last (e # es)) AND ISO9660_FLAG_MULTI_EXTENT = 0 \<or>
             Suc (length es) = k \<or> no_next_record base buffer (last (e # es)))) \<or>
         (\<exists>es x. extent_run base buffer (e # es) \<and> Suc (length es) < k \<and>
            entry_flags buffer (last (e # es)) AND ISO9660_FLAG_MULTI_EXTENT \<noteq> 0 \<and>
            next_record base buffer (last (e # es)) x \<and>
            length buffer < x + sizeof_directory_entry)"
  using assms
proof (induction k arbitrary: e)
  case 0
  then show ?case
    by simp
next
  case (Suc k)
  let ?flagged = "\<lambda>a. entry_flags buffer a AND ISO9660_FLAG_MULTI_EXTENT \<noteq> 0"
  have one: "extent_run base buffer [e]"
    using Suc.prems(1) by simp
  show ?case
  proof (cases "k = 0 \<or> \<not> ?flagged e \<or> no_next_record base buffer e")
    case True
    then have "extent_run base buffer (e # []) \<and> Suc (length ([] :: nat list)) \<le> Suc k \<and>
            (entry_flags buffer (last (e # [])) AND ISO9660_FLAG_MULTI_EXTENT = 0 \<or>
             Suc (length ([] :: nat list)) = Suc k \<or> no_next_record base buffer (last (e # [])))"
      using one by auto
    then show ?thesis
      by blast
  next
    case False
    then have k: "0 < k" and fl: "?flagged e"
      by simp_all
    from False obtain x where x: "next_record base buffer e x"
      by (auto simp add: no_next_record_iff)
    show ?thesis
    proof (cases "x + sizeof_directory_entry \<le> length buffer")
      case out: False
      then have "extent_run base buffer (e # []) \<and> Suc (length ([] :: nat list)) < Suc k \<and>
            ?flagged (last (e # [])) \<and> next_record base buffer (last (e # [])) x \<and>
            length buffer < x + sizeof_directory_entry"
        using one k fl x by simp
      then show ?thesis
        by blast
    next
      case True
      from Suc.IH [OF True k] consider
        (run) es where "extent_run base buffer (x # es)" "Suc (length es) \<le> k"
          "entry_flags buffer (last (x # es)) AND ISO9660_FLAG_MULTI_EXTENT = 0 \<or>
             Suc (length es) = k \<or> no_next_record base buffer (last (x # es))"
        | (out) es y where "extent_run base buffer (x # es)" "Suc (length es) < k"
          "?flagged (last (x # es))" "next_record base buffer (last (x # es)) y"
          "length buffer < y + sizeof_directory_entry"
        by blast
      then show ?thesis
      proof cases
        case a: run
        have "extent_run base buffer (e # x # es) \<and> Suc (length (x # es)) \<le> Suc k \<and>
            (entry_flags buffer (last (e # x # es)) AND ISO9660_FLAG_MULTI_EXTENT = 0 \<or>
             Suc (length (x # es)) = Suc k \<or> no_next_record base buffer (last (e # x # es)))"
          using a Suc.prems(1) fl x by auto
        then show ?thesis
          by blast
      next
        case a: out
        have "extent_run base buffer (e # x # es) \<and> Suc (length (x # es)) < Suc k \<and>
            ?flagged (last (e # x # es)) \<and> next_record base buffer (last (e # x # es)) y \<and>
            length buffer < y + sizeof_directory_entry"
          using a Suc.prems(1) fl x by auto
        then show ?thesis
          by blast
      qed
    qed
  qed
qed

lemma extent_run_exists:
  assumes "e + sizeof_directory_entry \<le> length buffer"
  shows "(\<exists>es. extent_run base buffer (e # es) \<and> run_ends base buffer (e # es) \<and>
            Suc (length es) \<le> 65536) \<or>
         (\<exists>es x. extent_run base buffer (e # es) \<and>
            entry_flags buffer (last (e # es)) AND ISO9660_FLAG_MULTI_EXTENT \<noteq> 0 \<and>
            next_record base buffer (last (e # es)) x \<and>
            length buffer < x + sizeof_directory_entry)"
proof -
  have "0 < (65536 :: nat)"
    by simp
  from extent_run_total [OF assms this, of base] show ?thesis
    unfolding run_ends_def length_Cons by blast
qed

text \<open>
  The entry \<^verbatim>\<open>iso9660_find\<close> returns is at least as long as the fixed part of a directory
  entry and lies in the part of the buffer searched; these are the entries
  \<^verbatim>\<open>iso9660_open\<close> collects extents from. \<^verbatim>\<open>iso9660_next_entry\<close> on an entry of length 0,
  which \<^verbatim>\<open>iso9660_open\<close> therefore never passes, goes to the next sector boundary.
\<close>

lemma iso9660_find_found:
  "iso9660_find ci buffer pos dir_size filename = Inr (Some e) \<Longrightarrow>
   sizeof_directory_entry \<le> entry_length buffer e \<and>
   pos \<le> e \<and> e + entry_length buffer e \<le> pos + dir_size"
proof (induction ci buffer pos dir_size filename rule: iso9660_find.induct)
  case (1 ci buffer pos dir_size filename)
  from "1.prems" have a: "dir_size \<noteq> 0"
    by (subst (asm) iso9660_find.simps) (auto split: if_splits)
  show ?case
  proof (cases "entry_length buffer pos = 0")
    case True
    then have b: "\<not> dir_size \<le> ISO9660_SECTOR_SIZE"
      using "1.prems" a by (subst (asm) iso9660_find.simps) (auto split: if_splits)
    show ?thesis
    proof (cases "dir_size = ALIGN_DOWN dir_size ISO9660_SECTOR_SIZE")
      case al: True
      then have "iso9660_find ci buffer (pos + ISO9660_SECTOR_SIZE)
                   (dir_size - ISO9660_SECTOR_SIZE) filename = Inr (Some e)"
        using "1.prems" a b True by (subst (asm) iso9660_find.simps) (simp split: if_splits)
      from "1.IH"(1) [OF a True b al b this] show ?thesis
        using b by auto
    next
      case al: False
      then have "iso9660_find ci buffer (pos + (dir_size - ALIGN_DOWN dir_size ISO9660_SECTOR_SIZE))
                   (ALIGN_DOWN dir_size ISO9660_SECTOR_SIZE) filename = Inr (Some e)"
        using "1.prems" a b True by (subst (asm) iso9660_find.simps) (simp split: if_splits)
      from "1.IH"(2) [OF a True b al this] show ?thesis
        by (auto simp add: ALIGN_DOWN_def)
    qed
  next
    case False
    then have c: "\<not> dir_size < entry_length buffer pos"
      "\<not> entry_length buffer pos < sizeof_directory_entry"
      using "1.prems" a by (subst (asm) iso9660_find.simps, auto split: if_splits)+
    obtain rr entry_filename where ln: "load_name 256 buffer pos = Inr (rr, entry_filename)"
      using "1.prems" a False c
      by (subst (asm) iso9660_find.simps) (auto split: if_splits sum.splits)
    show ?thesis
    proof (cases "if rr \<and> \<not> ci then strcmp filename entry_filename = 0
                  else strcasecmp filename entry_filename = 0")
      case True
      then have "e = pos"
        using "1.prems" a False c ln by (subst (asm) iso9660_find.simps) (simp split: if_splits)
      then show ?thesis
        using c by simp
    next
      case m: False
      then have "iso9660_find ci buffer (pos + entry_length buffer pos)
                   (dir_size - entry_length buffer pos) filename = Inr (Some e)"
        using "1.prems" a False c ln by (subst (asm) iso9660_find.simps) (simp split: if_splits)
      from "1.IH"(3) [OF a False c ln refl m this] show ?thesis
        using c by auto
    qed
  qed
qed

lemma next_entry_padding:
  assumes "entry_length buffer a = 0"
  shows "iso9660_next_entry base buffer a (length buffer) =
     (if sector_after base a < length buffer \<and> entry_length buffer (sector_after base a) \<noteq> 0
      then Some (sector_after base a) else None)"
  using assms align_up_sector(1) [of base a]
  by (auto simp add: iso9660_next_entry_def Let_def)

lemma iso9660_read_whole:
  assumes "vol_ok vol" "coherent content vol" "sector_size vol = ss"
    and "\<forall>x \<in> set (extents h). extent_readable vol x"
    and "unat (extent_count h) = length (extents h)"
    and "unat (total_size h) = extents_size (extents h)"
  shows "\<exists>v'. iso9660_read (media content ss) vol h 0 (total_size h)
                = Inr (concat (map (extent_bytes content vol) (extents h)), v')"
proof -
  have l: "length (file_bytes content vol (extents h)) = unat (total_size h)"
    unfolding assms(6) by (rule length_file_bytes)
  show ?thesis
    using iso9660_read_media [OF assms, of 0 "total_size h"] l by (simp add: file_bytes_def)
qed

text \<open>
  The records of a file of three extents and of another file, and a medium whose sector
  \<open>n\<close> holds the bytes \<open>16 n, 16 n + 1, \<dots>\<close>
\<close>

definition big_file :: "dir_record list" where
  "big_file =
     [\<lparr>rec_lba = 1, rec_size = 3, rec_flags = 0x80, rec_name = cstr ''BIG.BIN;1'', rec_sua = []\<rparr>,
      \<lparr>rec_lba = 3, rec_size = 2, rec_flags = 0x80, rec_name = cstr ''BIG.BIN;1'', rec_sua = []\<rparr>,
      \<lparr>rec_lba = 2, rec_size = 4, rec_flags = 0, rec_name = cstr ''BIG.BIN;1'', rec_sua = []\<rparr>]"

definition other_file :: dir_record where
  "other_file =
     \<lparr>rec_lba = 9, rec_size = 9, rec_flags = 0, rec_name = cstr ''NEXT.TXT;1'', rec_sua = []\<rparr>"

definition sector_image :: "nat \<Rightarrow> u8" where
  "sector_image i = of_nat (16 * (i div 2048) + i mod 16)"

text \<open>
  A directory whose first sector holds 40 records of 50 bytes and then the first record of
  a file of three extents; the second record does not fit into the 6 bytes left of the
  sector, which are zero, and starts the second sector, followed by the third record and by
  another file. And a directory that ends behind the second record of the file.
\<close>

definition filler :: dir_record where
  "filler =
     \<lparr>rec_lba = 7, rec_size = 1, rec_flags = 0, rec_name = cstr ''FILLER0000000.X;1'',
      rec_sua = []\<rparr>"

definition padded_directory :: "u8 list" where
  "padded_directory =
     concat (replicate 40 (record_bytes filler)) @ record_bytes (big_file ! 0) @ replicate 6 0
       @ record_bytes (big_file ! 1) @ record_bytes (big_file ! 2) @ record_bytes other_file"

definition cut_directory :: "u8 list" where
  "cut_directory = record_bytes (big_file ! 0) @ record_bytes (big_file ! 1)"

lemma big_file_records:
  "record_fits (big_file ! 0)" "record_fits (big_file ! 1)" "record_fits (big_file ! 2)"
  "length (record_bytes (big_file ! 0)) = 42" "length (record_bytes (big_file ! 1)) = 42"
  "length (record_bytes (big_file ! 2)) = 42" "length (record_bytes other_file) = 44"
  "length (concat (replicate 40 (record_bytes filler))) = 2000"
  "rec_lba (big_file ! 0) = 1" "rec_size (big_file ! 0) = 3" "rec_flags (big_file ! 0) = 0x80"
  "rec_lba (big_file ! 1) = 3" "rec_size (big_file ! 1) = 2" "rec_flags (big_file ! 1) = 0x80"
  "rec_lba (big_file ! 2) = 2" "rec_size (big_file ! 2) = 4" "rec_flags (big_file ! 2) = 0"
  by (simp_all add: big_file_def other_file_def filler_def record_fits_def length_record_bytes
      cstr_def name_pad_def length_concat sum_list_replicate)

lemma padded_directory_fields:
  "length padded_directory = 2176"
  "entry_length padded_directory 2000 = 42" "entry_flags padded_directory 2000 = 0x80"
  "extent_little padded_directory 2000 = 1" "extent_size_little padded_directory 2000 = 3"
  "entry_length padded_directory 2042 = 0"
  "entry_length padded_directory 2048 = 42" "entry_flags padded_directory 2048 = 0x80"
  "extent_little padded_directory 2048 = 3" "extent_size_little padded_directory 2048 = 2"
  "entry_length padded_directory 2090 = 42" "entry_flags padded_directory 2090 = 0"
  "extent_little padded_directory 2090 = 2" "extent_size_little padded_directory 2090 = 4"
proof -
  define P where "P = concat (replicate 40 (record_bytes filler))"
  define r1 where "r1 = big_file ! 0"
  define r2 where "r2 = big_file ! 1"
  define r3 where "r3 = big_file ! 2"
  define Z where "Z = replicate 6 (0 :: u8)"
  define Q where "Q = record_bytes other_file"
  note b = big_file_records [folded P_def r1_def r2_def r3_def Q_def]
  have d: "padded_directory = P @ record_bytes r1 @ (Z @ record_bytes r2 @ record_bytes r3 @ Q)"
    "padded_directory = (P @ record_bytes r1 @ Z) @ record_bytes r2 @ (record_bytes r3 @ Q)"
    "padded_directory = (P @ record_bytes r1 @ Z @ record_bytes r2) @ record_bytes r3 @ Q"
    "padded_directory = (P @ record_bytes r1) @ Z @ (record_bytes r2 @ record_bytes r3 @ Q)"
    by (simp_all add: padded_directory_def P_def r1_def r2_def r3_def Z_def Q_def)
  have l: "length P = 2000" "length (P @ record_bytes r1 @ Z) = 2048"
    "length (P @ record_bytes r1 @ Z @ record_bytes r2) = 2090"
    "length (P @ record_bytes r1) = 2042"
    using b by (simp_all add: Z_def)
  show "length padded_directory = 2176"
    unfolding d(1) using b by (simp add: Z_def)
  show "entry_length padded_directory 2000 = 42" "entry_flags padded_directory 2000 = 0x80"
    "extent_little padded_directory 2000 = 1" "extent_size_little padded_directory 2000 = 3"
    unfolding d(1)
    using record_fields [OF b(1), of P "Z @ record_bytes r2 @ record_bytes r3 @ Q"] b
    by (simp_all add: l(1))
  show "entry_length padded_directory 2048 = 42" "entry_flags padded_directory 2048 = 0x80"
    "extent_little padded_directory 2048 = 3" "extent_size_little padded_directory 2048 = 2"
    unfolding d(2)
    using record_fields [OF b(2), of "P @ record_bytes r1 @ Z" "record_bytes r3 @ Q"] b
    by (simp_all only: l(2))
  show "entry_length padded_directory 2090 = 42" "entry_flags padded_directory 2090 = 0"
    "extent_little padded_directory 2090 = 2" "extent_size_little padded_directory 2090 = 4"
    unfolding d(3)
    using record_fields [OF b(3), of "P @ record_bytes r1 @ Z @ record_bytes r2" Q] b
    by (simp_all only: l(3))
  have "byte_at ((P @ record_bytes r1) @ Z @ (record_bytes r2 @ record_bytes r3 @ Q))
          (length (P @ record_bytes r1) + 0) = Z ! 0"
    by (rule byte_at_middle) (simp add: Z_def)
  then have "byte_at padded_directory 2042 = 0"
    unfolding d(4) [symmetric] l(4) by (simp add: Z_def)
  then show "entry_length padded_directory 2042 = 0"
    by (simp add: entry_length_def)
qed

lemma padded_directory_run:
  "extent_run 4096 padded_directory [2000, 2048, 2090]"
  "run_ends 4096 padded_directory [2000, 2048, 2090]"
  "sizeof_directory_entry \<le> entry_length padded_directory 2000"
  by (simp_all add: run_ends_def next_record_def record_end_def sector_after_def
      padded_directory_fields sizeof_directory_entry_def ISO9660_FLAG_MULTI_EXTENT_def)

lemma cut_directory_fields:
  "length cut_directory = 84"
  "entry_length cut_directory 0 = 42" "entry_flags cut_directory 0 = 0x80"
  "extent_little cut_directory 0 = 1" "extent_size_little cut_directory 0 = 3"
  "entry_length cut_directory 42 = 42" "entry_flags cut_directory 42 = 0x80"
  "extent_little cut_directory 42 = 3" "extent_size_little cut_directory 42 = 2"
proof -
  define r1 where "r1 = big_file ! 0"
  define r2 where "r2 = big_file ! 1"
  note b = big_file_records [folded r1_def r2_def]
  have d: "cut_directory = [] @ record_bytes r1 @ record_bytes r2"
    "cut_directory = record_bytes r1 @ record_bytes r2 @ []"
    by (simp_all add: cut_directory_def r1_def r2_def)
  show "length cut_directory = 84"
    unfolding d(1) using b by simp
  show "entry_length cut_directory 0 = 42" "entry_flags cut_directory 0 = 0x80"
    "extent_little cut_directory 0 = 1" "extent_size_little cut_directory 0 = 3"
    unfolding d(1) using record_fields [OF b(1), of "[]" "record_bytes r2"] b
    by simp_all
  show "entry_length cut_directory 42 = 42" "entry_flags cut_directory 42 = 0x80"
    "extent_little cut_directory 42 = 3" "extent_size_little cut_directory 42 = 2"
    unfolding d(2) using record_fields [OF b(2), of "record_bytes r1" "[]"] b
    by simp_all
qed

section \<open>Claims about ISO 9660 files of several extents\<close>

text \<open>
  C7, as the code has it. Take any directory buffer and in it a matched entry, which is at
  least 33 bytes long, and the records that follow it, each right behind the one before or,
  where a zero length byte stands there, at the next 2048-byte boundary of the memory, the
  fixed part of each lying in the buffer. \<^verbatim>\<open>iso9660_open\<close> collects the entry and the records
  that follow it as long as they have the multi-extent flag, up to and including the first
  record without the flag, or the 65536th record, or the last record behind which the
  buffer holds no further record (it ends there, or what stands there is shorter than 33
  bytes), whichever comes first. The handle lists exactly their extents in that order and
  its total size is the sum of their sizes; on a medium that delivers every extent, reading
  the whole file gives the extents' bytes one after the other, and reading any range inside
  the file gives that range of them. No handle has more than 65536 extents.
\<close>

theorem iso9660_multi_extent:
  assumes "sizeof_directory_entry \<le> entry_length buffer e"
    and "extent_run base buffer (e # es)" and "run_ends base buffer (e # es)"
    and "Suc (length es) \<le> 65536"
    and "vol_ok vol" "coherent content vol" "sector_size vol = ss"
    and "\<forall>x \<in> set (e # es). extent_readable vol (entry_extent buffer x)"
  shows "\<exists>h. iso9660_open_entry base buffer e = Inr h \<and>
             extents h = map (entry_extent buffer) (e # es) \<and>
             unat (extent_count h) = Suc (length es) \<and>
             unat (total_size h) = sum_list (map (unat \<circ> size_ext) (extents h)) \<and>
             (\<exists>v'. iso9660_read (media content ss) vol h 0 (total_size h)
                     = Inr (concat (map (extent_bytes content vol) (extents h)), v')) \<and>
             (\<forall>loc count. unat loc + unat count \<le> unat (total_size h) \<longrightarrow>
                (\<exists>v'. iso9660_read (media content ss) vol h loc count
                        = Inr (take (unat count) (drop (unat loc)
                                 (concat (map (extent_bytes content vol) (extents h)))), v'))) \<and>
             (\<forall>buffer e g. iso9660_open_entry base buffer e = Inr g \<longrightarrow>
                unat (extent_count g) \<le> 65536 \<and> length (extents g) = unat (extent_count g))"
proof -
  have e0: "entry_length buffer e \<noteq> 0"
    using assms(1) by (simp add: sizeof_directory_entry_def)
  from iso9660_open_entry_run [OF assms(2) e0 assms(3,4)]
  obtain h where h: "iso9660_open_entry base buffer e = Inr h"
    "extents h = map (entry_extent buffer) (e # es)" "unat (extent_count h) = Suc (length es)"
    "unat (total_size h) = extents_size (extents h)"
    by blast
  have a: "\<forall>x \<in> set (extents h). extent_readable vol x"
    "unat (extent_count h) = length (extents h)"
    using h(2,3) assms(8) by simp_all
  note rd = iso9660_read_media [OF assms(5-7) a h(4)]
  note whole = iso9660_read_whole [OF assms(5-7) a h(4)]
  have part: "\<exists>v'. iso9660_read (media content ss) vol h loc count
                        = Inr (take (unat count) (drop (unat loc)
                                 (concat (map (extent_bytes content vol) (extents h)))), v')"
    if "unat loc + unat count \<le> unat (total_size h)" for loc count
    using rd [OF that] by (simp add: file_bytes_def)
  have t: "unat (total_size h) = sum_list (map (unat \<circ> size_ext) (extents h))"
    using h(4) by (simp add: extents_size_def)
  show ?thesis
    using h(1-3) t whole part iso9660_open_entry_bound [of base] by (intro exI [of _ h]) blast
qed

text \<open>
  C7 on a file of three extents of 3, 2 and 4 bytes at sectors 1, 3 and 2 whose first record
  ends 6 bytes before a sector boundary of the directory and whose second record starts at
  the boundary: the handle, the whole file, and the 3 bytes from offset 2, which cross from
  the first extent into the second.
\<close>

theorem iso9660_multi_extent_witness:
  "sizeof_directory_entry \<le> entry_length padded_directory 2000 \<and>
   extent_run 4096 padded_directory [2000, 2048, 2090] \<and>
   run_ends 4096 padded_directory [2000, 2048, 2090] \<and>
   entry_length padded_directory 2042 = 0 \<and>
   vol_ok whole_disk \<and> coherent sector_image whole_disk \<and> sector_size whole_disk = 512 \<and>
   list_all (\<lambda>x. extent_readable whole_disk (entry_extent padded_directory x))
     [2000, 2048, 2090] \<and>
   (\<exists>h v' v''.
      iso9660_open_entry 4096 padded_directory 2000 = Inr h \<and>
      extents h = [\<lparr>LBA = 1, size_ext = 3\<rparr>, \<lparr>LBA = 3, size_ext = 2\<rparr>,
                   \<lparr>LBA = 2, size_ext = 4\<rparr>] \<and>
      unat (extent_count h) = 3 \<and> unat (total_size h) = 9 \<and>
      iso9660_read (media sector_image 512) whole_disk h 0 (total_size h)
        = Inr ([16, 17, 18, 48, 49, 32, 33, 34, 35], v') \<and>
      iso9660_read (media sector_image 512) whole_disk h 2 3 = Inr ([18, 48, 49], v''))"
proof -
  have x: "entry_extent padded_directory 2000 = \<lparr>LBA = 1, size_ext = 3\<rparr>"
    "entry_extent padded_directory 2048 = \<lparr>LBA = 3, size_ext = 2\<rparr>"
    "entry_extent padded_directory 2090 = \<lparr>LBA = 2, size_ext = 4\<rparr>"
    by (simp_all add: entry_extent_def padded_directory_fields)
  have rd: "extent_readable whole_disk (entry_extent padded_directory 2000)"
    "extent_readable whole_disk (entry_extent padded_directory 2048)"
    "extent_readable whole_disk (entry_extent padded_directory 2090)"
    by (simp_all add: x extent_readable_def readable_def whole_disk_media)
  have m: "vol_ok whole_disk" "coherent sector_image whole_disk" "sector_size whole_disk = 512"
    by (rule whole_disk_media)+
  from iso9660_multi_extent [of padded_directory 2000 4096 "[2048, 2090]" whole_disk
      sector_image 512]
  obtain h where h:
    "iso9660_open_entry 4096 padded_directory 2000 = Inr h"
    "extents h = map (entry_extent padded_directory) [2000, 2048, 2090]"
    "unat (extent_count h) = 3"
    "unat (total_size h) = sum_list (map (unat \<circ> size_ext) (extents h))"
    "\<exists>v'. iso9660_read (media sector_image 512) whole_disk h 0 (total_size h)
           = Inr (concat (map (extent_bytes sector_image whole_disk) (extents h)), v')"
    "\<forall>loc count. unat loc + unat count \<le> unat (total_size h) \<longrightarrow>
        (\<exists>v'. iso9660_read (media sector_image 512) whole_disk h loc count
           = Inr (take (unat count) (drop (unat loc)
                    (concat (map (extent_bytes sector_image whole_disk) (extents h)))), v'))"
    using padded_directory_run rd m by auto
  have e: "extents h = [\<lparr>LBA = 1, size_ext = 3\<rparr>, \<lparr>LBA = 3, size_ext = 2\<rparr>,
                   \<lparr>LBA = 2, size_ext = 4\<rparr>]"
    using h(2) by (simp add: x)
  have t: "unat (total_size h) = 9"
    using h(4) by (simp add: e)
  have c: "concat (map (extent_bytes sector_image whole_disk) (extents h))
             = [16, 17, 18, 48, 49, 32, 33, 34, 35]"
  proof -
    have u: "[0 ..< 2] = [0, 1 :: nat]" "[0 ..< 3] = [0, 1, 2 :: nat]"
      "[0 ..< 4] = [0, 1, 2, 3 :: nat]"
      by (simp_all add: eval_nat_numeral)
    show ?thesis
      by (simp add: e extent_bytes_def device_bytes_def whole_disk_media sector_image_def u)
  qed
  have w: "\<exists>v'. iso9660_read (media sector_image 512) whole_disk h 0 (total_size h)
           = Inr ([16, 17, 18, 48, 49, 32, 33, 34, 35], v')"
    using h(5) c by simp
  have "\<exists>v'. iso9660_read (media sector_image 512) whole_disk h 2 3
           = Inr (take (unat (3 :: u64)) (drop (unat (2 :: u64))
                    (concat (map (extent_bytes sector_image whole_disk) (extents h)))), v')"
    using h(6) [THEN spec, of 2, THEN spec, of 3] t by simp
  then have p: "\<exists>v'. iso9660_read (media sector_image 512) whole_disk h 2 3
           = Inr ([18, 48, 49], v')"
    by (simp add: c)
  show ?thesis
    using padded_directory_run padded_directory_fields(6) rd m h(1,3) t e w p by auto
qed

text \<open>
  C7 as stated fails: where the directory buffer ends behind a record that has the
  multi-extent flag, the handle holds the records up to that one. No record without the flag
  is collected, the count stays below the cap, and the file is the shorter for it.
\<close>

theorem iso9660_open_cut_run_counterexample:
  "length cut_directory = 84 \<and>
   entry_length cut_directory 0 = 42 \<and> entry_flags cut_directory 0 = 0x80 \<and>
   entry_length cut_directory 42 = 42 \<and> entry_flags cut_directory 42 = 0x80 \<and>
   (\<exists>h. iso9660_open_entry 4096 cut_directory 0 = Inr h \<and>
      extents h = [\<lparr>LBA = 1, size_ext = 3\<rparr>, \<lparr>LBA = 3, size_ext = 2\<rparr>] \<and>
      unat (extent_count h) = 2 \<and> unat (total_size h) = 5)"
proof -
  have r: "extent_run 4096 cut_directory [0, 42]" "run_ends 4096 cut_directory [0, 42]"
    "entry_length cut_directory 0 \<noteq> 0"
    by (simp_all add: run_ends_def next_record_def no_next_record_def record_end_def
        cut_directory_fields sizeof_directory_entry_def ISO9660_FLAG_MULTI_EXTENT_def)
  from iso9660_open_entry_run [OF r(1,3,2)]
  obtain h where h: "iso9660_open_entry 4096 cut_directory 0 = Inr h"
    "extents h = map (entry_extent cut_directory) [0, 42]"
    "unat (extent_count h) = Suc (length [42 :: nat])"
    "unat (total_size h) = extents_size (extents h)"
    by auto
  have e: "extents h = [\<lparr>LBA = 1, size_ext = 3\<rparr>, \<lparr>LBA = 3, size_ext = 2\<rparr>]"
    using h(2) by (simp add: entry_extent_def cut_directory_fields)
  have "unat (total_size h) = 5"
    using h(4) by (simp add: e extents_size_def)
  then show ?thesis
    using h(1,3) e cut_directory_fields by auto
qed

section \<open>Path canonicalisation\<close>

text \<open>
  \<^verbatim>\<open>get_absolute_path\<close> (lib/misc.c). The output buffer is a list of bytes and \<open>path_ptr\<close> an
  index into it; \<^verbatim>\<open>path\<close> is the list of characters not yet consumed, the end of the list
  being the terminator; an access outside the buffer is the fault \<open>OutOfBounds\<close>. The result
  is the value returned and the buffer as the call leaves it. \<open>deref\<close> is \<^verbatim>\<open>*path\<close>.
\<close>

definition deref :: "u8 list \<Rightarrow> u8" where
  "deref s = (case s of [] \<Rightarrow> 0 | c # cs \<Rightarrow> c)"

text \<open>
  Modelled from the spec: \<^verbatim>\<open>strlen\<close>, \<^verbatim>\<open>memcpy\<close> and \<^verbatim>\<open>strncmp\<close> (lib/libc.h is not among the
  sources) are the C library's: \<open>strncmp_eq a b n\<close> is \<^verbatim>\<open>strncmp(a, b, n) == 0\<close>, the first
  \<open>n\<close> characters agreeing up to and including a terminator; \<open>memcpy dest src\<close> stores the
  bytes \<open>src\<close> at the start of \<open>dest\<close>.
\<close>

definition strlen :: "u8 list \<Rightarrow> nat" where
  "strlen s = length (c_string s)"

definition strncmp_eq :: "u8 list \<Rightarrow> u8 list \<Rightarrow> nat \<Rightarrow> bool" where
  "strncmp_eq a b n = (take n (c_string a @ [0]) = take n (c_string b @ [0]))"

definition memcpy :: "u8 list \<Rightarrow> u8 list \<Rightarrow> fault + u8 list" where
  "memcpy dest src =
     (if length src \<le> length dest then Inr (src @ drop (length src) dest)
      else Inl OutOfBounds)"

text \<open>\<^verbatim>\<open>while (*path_ptr != '/') path_ptr--;\<close>\<close>

fun back_to_slash :: "u8 list \<Rightarrow> nat \<Rightarrow> fault + nat" where
  "back_to_slash buf 0 =
     (if 0 < length buf \<and> buf ! 0 = of_char CHR ''/'' then Inr 0 else Inl OutOfBounds)"
| "back_to_slash buf (Suc q) =
     (if length buf \<le> Suc q then Inl OutOfBounds
      else if buf ! Suc q = of_char CHR ''/'' then Inr (Suc q)
      else back_to_slash buf q)"

text \<open>The code at the label \<^verbatim>\<open>term\<close>.\<close>

definition term_path :: "u8 list \<Rightarrow> nat \<Rightarrow> fault + (bool \<times> u8 list)" where
  "term_path buf path_ptr =
     (if path_ptr = 0 \<or> length buf < path_ptr then Inl OutOfBounds
      else if buf ! (path_ptr - 1) = of_char CHR ''/'' \<and> path_ptr - 1 \<noteq> 0 then
        Inr (True, buf[path_ptr - 1 := 0])
      else if length buf \<le> path_ptr then Inl OutOfBounds
      else Inr (True, buf[path_ptr := 0]))"

text \<open>
  The \<^verbatim>\<open>for (;;)\<close> loop from its \<^verbatim>\<open>switch\<close>, and the code from the label \<^verbatim>\<open>first_run\<close> up to
  the next \<^verbatim>\<open>continue\<close>.
\<close>

function path_loop :: "nat \<Rightarrow> u8 list \<Rightarrow> nat \<Rightarrow> u8 list \<Rightarrow> fault + (bool \<times> u8 list)"
  and first_run :: "nat \<Rightarrow> u8 list \<Rightarrow> nat \<Rightarrow> u8 list \<Rightarrow> fault + (bool \<times> u8 list)" where
  "path_loop size_buf buf path_ptr path =
     (if deref path = of_char CHR ''/'' then first_run size_buf buf path_ptr (tl path)
      else if deref path = 0 then term_path buf path_ptr
      else if path_ptr \<ge> size_buf - 1 then Inr (False, buf)
      else if length buf \<le> path_ptr then Inl OutOfBounds
      else path_loop size_buf (buf[path_ptr := deref path]) (path_ptr + 1) (tl path))"
| "first_run size_buf buf path_ptr path =
     (if deref path = of_char CHR ''/'' then path_loop size_buf buf path_ptr path
      else if strncmp_eq path (cstr ''.'') 2 \<or> strncmp_eq path (cstr ''./'') 3
      then term_path buf path_ptr
      else if strncmp_eq path (cstr ''..'') 3 \<or> strncmp_eq path (cstr ''../'') 4 then
        (case back_to_slash buf path_ptr of
           Inl f \<Rightarrow> Inl f
         | Inr q \<Rightarrow> term_path buf (if q = 0 then q + 1 else q))
      else if strncmp_eq path (cstr ''../'') 3 then
        (case back_to_slash buf path_ptr of
           Inl f \<Rightarrow> Inl f
         | Inr q \<Rightarrow>
             if length buf \<le> (if q = 0 then q + 1 else q) then Inl OutOfBounds
             else path_loop size_buf (buf[(if q = 0 then q + 1 else q) := 0])
                    (if q = 0 then q + 1 else q) (drop 2 path))
      else if strncmp_eq path (cstr ''./'') 2 then path_loop size_buf buf path_ptr (drop 1 path)
      else if path_ptr \<noteq> 1 \<and> (path_ptr = 0 \<or> length buf < path_ptr) then Inl OutOfBounds
      else if path_ptr \<noteq> 1 \<and> buf ! (path_ptr - 1) \<noteq> of_char CHR ''/'' then
        if path_ptr \<ge> size_buf - 1 then Inr (False, buf)
        else if length buf \<le> path_ptr then Inl OutOfBounds
        else path_loop size_buf (buf[path_ptr := of_char CHR ''/'']) (path_ptr + 1) path
      else path_loop size_buf buf path_ptr path)"
  by pat_completeness auto
termination
proof (relation "measure (\<lambda>x. case x of
    Inl (size_buf, buf, path_ptr, path) \<Rightarrow> 2 * length path
  | Inr (size_buf, buf, path_ptr, path) \<Rightarrow> 2 * length path + 1)", goal_cases)
  case 1
  show ?case
    by simp
next
  case (2 size_buf buf path_ptr path)
  then show ?case
    by (cases path) (simp_all add: deref_def)
next
  case (3 size_buf buf path_ptr path)
  then show ?case
    by (cases path) (simp_all add: deref_def)
next
  case (4 size_buf buf path_ptr path)
  then show ?case
    by simp
next
  case (5 size_buf buf path_ptr path x2)
  then show ?case
    by (cases path) (simp_all add: strncmp_eq_def cstr_def c_string_def)
next
  case (6 size_buf buf path_ptr path)
  then show ?case
    by (cases path) (simp_all add: strncmp_eq_def cstr_def c_string_def)
next
  case (7 size_buf buf path_ptr path)
  then show ?case
    by simp
next
  case (8 size_buf buf path_ptr path)
  then show ?case
    by simp
qed

definition get_absolute_path ::
  "u8 list \<Rightarrow> u8 list \<Rightarrow> u8 list \<Rightarrow> nat \<Rightarrow> fault + (bool \<times> u8 list)" where
  "get_absolute_path buf path pwd size_buf =
     (if size_buf = 0 then Inr (False, buf)
      else if deref (c_string path) = 0 then
        if strlen pwd \<ge> size_buf then Inr (False, buf)
        else
          (case memcpy buf (c_string pwd @ [0]) of
             Inl f \<Rightarrow> Inl f
           | Inr buf' \<Rightarrow> Inr (True, buf'))
      else if deref (c_string path) \<noteq> of_char CHR ''/'' then
        if strlen pwd \<ge> size_buf then Inr (False, buf)
        else
          (case memcpy buf (c_string pwd @ [0]) of
             Inl f \<Rightarrow> Inl f
           | Inr buf' \<Rightarrow> first_run size_buf buf' (strlen pwd) (c_string path))
      else if length buf = 0 then Inl OutOfBounds
      else first_run size_buf (buf[0 := of_char CHR ''/'']) 1 (tl (c_string path)))"

declare path_loop.simps [simp del] first_run.simps [simp del]

text \<open>
  Canonical paths: \<^verbatim>\<open>/\<close>, or one or more components each preceded by a slash, a component
  being a non-empty string without slash other than \<^verbatim>\<open>.\<close> and \<^verbatim>\<open>..\<close>
\<close>

definition component :: "u8 list \<Rightarrow> bool" where
  "component c =
     (c \<noteq> [] \<and> of_char CHR ''/'' \<notin> set c \<and> 0 \<notin> set c \<and> c \<noteq> cstr ''.'' \<and> c \<noteq> cstr ''..'')"

definition join :: "u8 list list \<Rightarrow> u8 list" where
  "join cs = concat (map (\<lambda>c. of_char CHR ''/'' # c) cs)"

definition render :: "u8 list list \<Rightarrow> u8 list" where
  "render cs = (if cs = [] then cstr ''/'' else join cs)"

definition canonical :: "u8 list \<Rightarrow> bool" where
  "canonical s = (\<exists>cs. list_all component cs \<and> s = render cs)"

text \<open>
  The states of the copy: the buffer holds a canonical path up to \<open>path_ptr\<close>, or one
  followed by a slash and the part \<open>w\<close> of a component copied so far.
\<close>

definition at_dir :: "nat \<Rightarrow> u8 list \<Rightarrow> nat \<Rightarrow> u8 list list \<Rightarrow> bool" where
  "at_dir size_buf buf p cs =
     (list_all component cs \<and> take p buf = render cs \<and> p = length (render cs) \<and>
      p < size_buf \<and> size_buf \<le> length buf)"

definition in_component :: "nat \<Rightarrow> u8 list \<Rightarrow> nat \<Rightarrow> u8 list list \<Rightarrow> u8 list \<Rightarrow> bool" where
  "in_component size_buf buf p cs w =
     (list_all component cs \<and> take p buf = join cs @ 47 # w \<and> p = length (join cs) + 1 + length w \<and>
      47 \<notin> set w \<and> 0 \<notin> set w \<and> p < size_buf \<and> size_buf \<le> length buf)"

lemma join_simps [simp]:
  "join [] = []" "join (c # cs) = 47 # c @ join cs" "join (cs @ ds) = join cs @ join ds"
  by (simp_all add: join_def)

lemma component_simps:
  "component c = (c \<noteq> [] \<and> 47 \<notin> set c \<and> 0 \<notin> set c \<and> c \<noteq> [46] \<and> c \<noteq> [46, 46])"
  by (simp add: component_def cstr_def)

lemma render_simps: "render [] = [47]" "cs \<noteq> [] \<Longrightarrow> render cs = join cs"
  by (simp_all add: render_def cstr_def)

lemma zero_notin_join: "list_all component cs \<Longrightarrow> 0 \<notin> set (join cs)"
  by (induction cs) (auto simp add: component_simps)

lemma zero_notin_render: "list_all component cs \<Longrightarrow> 0 \<notin> set (render cs)"
  by (cases "cs = []") (simp_all add: render_simps zero_notin_join)

lemma join_not_Nil: "cs \<noteq> [] \<Longrightarrow> join cs \<noteq> []"
  by (cases cs) simp_all

lemma last_join: "list_all component cs \<Longrightarrow> cs \<noteq> [] \<Longrightarrow> last (join cs) \<noteq> 47"
proof (induction cs)
  case Nil
  then show ?case
    by simp
next
  case (Cons c cs)
  have c: "c \<noteq> []" "47 \<notin> set c"
    using Cons.prems(1) by (simp_all add: component_simps)
  then have "last c \<noteq> 47"
    by (metis last_in_set)
  then show ?case
    using Cons c(1) join_not_Nil [of cs] by (cases "cs = []") simp_all
qed

lemma length_join_ge: "list_all component cs \<Longrightarrow> cs \<noteq> [] \<Longrightarrow> 2 \<le> length (join cs)"
  by (cases cs) (auto simp add: component_simps Suc_le_eq)

lemma render_hd: "render cs ! 0 = 47"
  by (cases cs) (simp_all add: render_simps)

lemma length_render_one: "list_all component cs \<Longrightarrow> (length (render cs) = 1) = (cs = [])"
  using length_join_ge [of cs] by (cases "cs = []") (auto simp add: render_simps)

lemma c_string_append_zero: "0 \<notin> set xs \<Longrightarrow> c_string (xs @ 0 # ys) = xs"
  by (induction xs) (simp_all add: c_string_def)

lemma c_string_store:
  assumes "0 \<notin> set (take p b)" "p < length b"
  shows "c_string (b[p := 0]) = take p b"
proof -
  have "b[p := 0] = take p b @ 0 # drop (Suc p) b"
    using assms(2) by (simp add: upd_conv_take_nth_drop)
  then show ?thesis
    using assms(1) c_string_append_zero [of "take p b" "drop (Suc p) b"] by simp
qed

lemma take_Suc_update: "p < length b \<Longrightarrow> take (Suc p) (b[p := c]) = take p b @ [c]"
  by (simp add: take_Suc_conv_app_nth)

lemma canonicalI: "list_all component cs \<Longrightarrow> canonical (render cs)"
  by (auto simp add: canonical_def)

lemma c_string_id: "0 \<notin> set s \<Longrightarrow> c_string s = s"
  by (auto simp add: c_string_def takeWhile_eq_all_conv)

lemma deref_simps [simp]: "deref [] = 0" "deref (c # cs) = c"
  by (simp_all add: deref_def)

lemma deref_eq_0: "0 \<notin> set s \<Longrightarrow> (deref s = 0) = (s = [])"
  by (cases s) auto

lemma strncmp_dot:
  assumes "0 \<notin> set path"
  shows "strncmp_eq path (cstr ''.'') 2 = (path = [46])"
    and "strncmp_eq path (cstr ''./'') 3 = (path = [46, 47])"
    and "strncmp_eq path (cstr ''..'') 3 = (path = [46, 46])"
    and "strncmp_eq path (cstr ''../'') 4 = (path = [46, 46, 47])"
    and "strncmp_eq path (cstr ''../'') 3 = (take 3 path = [46, 46, 47])"
    and "strncmp_eq path (cstr ''./'') 2 = (take 2 path = [46, 47])"
proof -
  have c: "c_string path = path"
    using assms by (rule c_string_id)
  obtain a b c d r where
    "path = [] \<or> path = [a] \<or> path = [a, b] \<or> path = [a, b, c] \<or> path = a # b # c # d # r"
    by (cases path; cases "tl path"; cases "tl (tl path)"; cases "tl (tl (tl path))") auto
  then show "strncmp_eq path (cstr ''.'') 2 = (path = [46])"
    "strncmp_eq path (cstr ''./'') 3 = (path = [46, 47])"
    "strncmp_eq path (cstr ''..'') 3 = (path = [46, 46])"
    "strncmp_eq path (cstr ''../'') 4 = (path = [46, 46, 47])"
    "strncmp_eq path (cstr ''../'') 3 = (take 3 path = [46, 46, 47])"
    "strncmp_eq path (cstr ''./'') 2 = (take 2 path = [46, 47])"
    using assms unfolding strncmp_eq_def c
    by (auto simp add: cstr_def c_string_def)
qed

lemma not_special:
  assumes "0 \<notin> set path" "path \<noteq> [46]" "take 2 path \<noteq> [46, 47]"
    "path \<noteq> [46, 46]" "take 3 path \<noteq> [46, 46, 47]"
  shows "takeWhile (\<lambda>c. c \<noteq> 47) path \<notin> {[46], [46, 46]}"
proof -
  obtain a b c r where
    "path = [] \<or> path = [a] \<or> path = [a, b] \<or> path = a # b # c # r"
    by (cases path; cases "tl path"; cases "tl (tl path)") auto
  then show ?thesis
    using assms by (auto split: if_splits)
qed

lemma nth_of_take: "take p buf = s \<Longrightarrow> i < length s \<Longrightarrow> buf ! i = s ! i"
  using nth_take [of i p buf] by auto

text \<open>What a call keeps of the buffer, and the results that are as the path needs them.\<close>

definition kept :: "nat \<Rightarrow> u8 list \<Rightarrow> u8 list \<Rightarrow> bool" where
  "kept size_buf buf buf' = (length buf' = length buf \<and> drop size_buf buf' = drop size_buf buf)"

definition good :: "nat \<Rightarrow> u8 list \<Rightarrow> fault + (bool \<times> u8 list) \<Rightarrow> bool" where
  "good size_buf buf r =
     (\<exists>ok buf'. r = Inr (ok, buf') \<and> kept size_buf buf buf' \<and>
        (ok \<longrightarrow> canonical (c_string buf') \<and> length (c_string buf') < size_buf))"

lemma kept_refl: "kept n b b"
  by (simp add: kept_def)

lemma kept_update: "q < n \<Longrightarrow> kept n b (b[q := c])"
  by (simp add: kept_def)

lemma good_kept: "kept n b b1 \<Longrightarrow> good n b1 r \<Longrightarrow> good n b r"
  by (auto simp add: good_def kept_def)

lemma good_false: "good n b (Inr (False, b))"
  by (auto simp add: good_def kept_refl)

lemma good_true:
  "kept n b b' \<Longrightarrow> c_string b' = render cs \<Longrightarrow> list_all component cs
     \<Longrightarrow> length (render cs) < n \<Longrightarrow> good n b (Inr (True, b'))"
  by (auto simp add: good_def canonicalI)

lemma at_dir_last:
  assumes "at_dir n buf p cs"
  shows "0 < p" "p < length buf" "buf ! 0 = 47" "(p = 1) = (cs = [])"
    "cs \<noteq> [] \<Longrightarrow> buf ! (p - 1) \<noteq> 47" "0 \<notin> set (take p buf)"
proof -
  have a: "list_all component cs" "take p buf = render cs" "p = length (render cs)"
    "p < n" "n \<le> length buf"
    using assms unfolding at_dir_def by blast+
  show p: "0 < p"
    using a(3) by (cases "cs = []") (simp_all add: render_simps join_not_Nil)
  show "p < length buf"
    using a by simp
  have "buf ! 0 = take p buf ! 0"
    using p by simp
  then show "buf ! 0 = 47"
    by (simp add: a(2) render_hd)
  show "(p = 1) = (cs = [])"
    using length_render_one [OF a(1)] a(3) by simp
  show "0 \<notin> set (take p buf)"
    using zero_notin_render [OF a(1)] a(2) by simp
  show "buf ! (p - 1) \<noteq> 47" if "cs \<noteq> []"
  proof -
    have "buf ! (p - 1) = render cs ! (p - 1)"
      using p a(3) by (intro nth_of_take [OF a(2)]) simp
    also have "\<dots> = last (join cs)"
      using that a(3) by (simp add: render_simps last_conv_nth join_not_Nil)
    finally show ?thesis
      using last_join [OF a(1) that] by simp
  qed
qed

lemma term_path_at_dir:
  assumes "at_dir n buf p cs"
  shows "\<exists>b'. term_path buf p = Inr (True, b') \<and> c_string b' = render cs \<and> kept n buf b'"
proof -
  note l = at_dir_last [OF assms]
  have a: "take p buf = render cs" "p < n"
    using assms unfolding at_dir_def by blast+
  have "term_path buf p = Inr (True, buf[p := 0])"
    using l(1,2,4,5) by (cases "cs = []") (auto simp add: term_path_def)
  then show ?thesis
    using c_string_store [OF l(6,2)] a by (simp add: kept_update)
qed

lemma term_path_in_component:
  assumes "in_component n buf p cs w" "w = [] \<or> component w"
  shows "\<exists>b'. term_path buf p = Inr (True, b') \<and>
           c_string b' = render (if w = [] then cs else cs @ [w]) \<and> kept n buf b'"
proof -
  have a: "list_all component cs" "take p buf = join cs @ 47 # w"
    "p = length (join cs) + 1 + length w" "47 \<notin> set w" "0 \<notin> set w" "p < n" "n \<le> length buf"
    using assms(1) unfolding in_component_def by blast+
  have z: "0 \<notin> set (take p buf)"
    using zero_notin_join [OF a(1)] a(5) by (simp add: a(2))
  have n: "buf ! (p - 1) = (join cs @ 47 # w) ! (p - 1)"
    using a(3) by (intro nth_of_take [OF a(2)]) simp
  show ?thesis
  proof (cases "w = []")
    case True
    have b: "buf ! (p - 1) = 47"
      using n a(3) True by (simp add: nth_append)
    show ?thesis
    proof (cases "cs = []")
      case True
      then have "p = 1"
        using a(3) \<open>w = []\<close> by simp
      then have "term_path buf p = Inr (True, buf[p := 0])"
        using a(6,7) by (auto simp add: term_path_def)
      moreover have "take p buf = render cs"
        using True \<open>w = []\<close> a(2) by (simp add: render_simps)
      ultimately show ?thesis
        using c_string_store [OF z] a(6,7) \<open>w = []\<close> by (simp add: kept_update)
    next
      case False
      then have p: "p - 1 \<noteq> 0" "p - 1 = length (join cs)"
        using a(3) \<open>w = []\<close> join_not_Nil [of cs] by simp_all
      then have t: "term_path buf p = Inr (True, buf[p - 1 := 0])"
        using a(6,7) b False join_not_Nil [of cs] by (simp add: term_path_def)
      have "take (p - 1) buf = take (p - 1) (take p buf)"
        by simp
      also have "\<dots> = join cs"
        unfolding a(2) using p(2) by simp
      finally have k: "take (p - 1) buf = render cs"
        using False by (simp add: render_simps)
      have "0 \<notin> set (take (p - 1) buf)"
        unfolding k using zero_notin_render [OF a(1)] .
      from c_string_store [OF this] show ?thesis
        using t k a(6,7) \<open>w = []\<close> by (simp add: kept_update)
    qed
  next
    case False
    then have "(join cs @ 47 # w) ! (p - 1) = last w"
      using a(3) by (simp add: nth_append last_conv_nth)
    then have "buf ! (p - 1) \<noteq> 47"
      using n a(4) False by (metis last_in_set)
    then have "term_path buf p = Inr (True, buf[p := 0])"
      using a(3,6,7) by (simp add: term_path_def)
    moreover have "take p buf = render (cs @ [w])"
      using a(2) by (simp add: render_simps)
    ultimately show ?thesis
      using c_string_store [OF z] a(6,7) False by (simp add: kept_update)
  qed
qed

lemma back_to_slash_found:
  assumes "q \<le> p" "p < length buf" "buf ! q = 47" "\<forall>i. q < i \<and> i \<le> p \<longrightarrow> buf ! i \<noteq> 47"
  shows "back_to_slash buf p = Inr q"
  using assms
proof (induction p)
  case 0
  then show ?case
    by simp
next
  case (Suc p)
  show ?case
  proof (cases "q = Suc p")
    case True
    then show ?thesis
      using Suc.prems by simp
  next
    case False
    then have "back_to_slash buf p = Inr q"
      using Suc.prems by (intro Suc.IH) auto
    moreover have "buf ! Suc p \<noteq> 47"
      using Suc.prems False by auto
    ultimately show ?thesis
      using Suc.prems(2) by simp
  qed
qed

lemma back_to_slash_at_dir:
  assumes "at_dir n buf p cs"
  shows "\<exists>q cs'. back_to_slash buf p = Inr q \<and> at_dir n buf (if q = 0 then q + 1 else q) cs'"
proof -
  note l = at_dir_last [OF assms]
  have a: "list_all component cs" "take p buf = render cs" "p = length (render cs)"
    "p < n" "n \<le> length buf"
    using assms unfolding at_dir_def by blast+
  show ?thesis
  proof (cases "buf ! p = 47")
    case True
    then have "back_to_slash buf p = Inr p"
      using l(2) by (intro back_to_slash_found) auto
    then show ?thesis
      using assms l(1) by auto
  next
    case False
    have root: "at_dir n buf 1 []"
      using a(4,5) l(1,2,3) by (cases buf) (auto simp add: at_dir_def render_simps)
    show ?thesis
    proof (cases cs rule: rev_cases)
      case Nil
      then have "p = 1"
        using l(4) by simp
      then have "back_to_slash buf p = Inr 0"
        using l(2,3) False by (intro back_to_slash_found) (auto simp add: le_Suc_eq)
      then show ?thesis
        using root by auto
    next
      case (snoc cs0 c)
      define q where "q = length (join cs0)"
      have c: "component c" "list_all component cs0"
        using a(1) snoc by simp_all
      have r: "take p buf = join cs0 @ 47 # c" "p = q + 1 + length c"
        using a(2,3) snoc by (simp_all add: render_simps q_def)
      have nth: "buf ! i = (join cs0 @ 47 # c) ! i" if "i < p" for i
        using that r(2) by (intro nth_of_take [OF r(1)]) (simp add: q_def)
      have "buf ! q = 47"
        using nth [of q] r(2) by (simp add: q_def)
      moreover have "buf ! i \<noteq> 47" if "q < i \<and> i \<le> p" for i
      proof (cases "i = p")
        case True
        then show ?thesis
          using False by simp
      next
        case False
        then have "buf ! i = c ! (i - q - 1)" "i - q - 1 < length c"
          using that nth [of i] r(2) by (auto simp add: nth_append q_def nth_Cons')
        then show ?thesis
          using c(1) by (auto simp add: component_simps dest: nth_mem)
      qed
      ultimately have b: "back_to_slash buf p = Inr q"
        using l(2) r(2) by (intro back_to_slash_found) auto
      show ?thesis
      proof (cases "cs0 = []")
        case True
        then show ?thesis
          using b root by (auto simp add: q_def)
      next
        case False
        have "take q buf = take q (take p buf)"
          using r(2) by simp
        also have "\<dots> = join cs0"
          unfolding r(1) by (simp add: q_def)
        finally have "at_dir n buf q cs0"
          using c(2) False a(4,5) r(2) by (simp add: at_dir_def render_simps q_def)
        moreover have "q \<noteq> 0"
          using False join_not_Nil [of cs0] by (simp add: q_def)
        ultimately show ?thesis
          using b by auto
      qed
    qed
  qed
qed

definition loop_ready :: "nat \<Rightarrow> u8 list \<Rightarrow> nat \<Rightarrow> u8 list \<Rightarrow> bool" where
  "loop_ready n buf p path =
     ((\<exists>cs. at_dir n buf p cs \<and> path \<noteq> [] \<and> hd path = 47) \<or>
      (\<exists>cs w. in_component n buf p cs w \<and> (w = [] \<longrightarrow> path = [] \<or> hd path \<noteq> 47) \<and>
         w @ takeWhile (\<lambda>c. c \<noteq> 47) path \<notin> {[46], [46, 46]}))"

lemma of_char_eq_47: "(of_char CHR ''/'' :: u8) = 47"
  by simp

lemma in_component_to_dir:
  assumes "in_component n buf p cs w" "w \<noteq> []" "w \<notin> {[46], [46, 46]}"
  shows "at_dir n buf p (cs @ [w])"
  using assms unfolding in_component_def at_dir_def
  by (auto simp add: render_simps component_simps)

lemma in_component_push:
  assumes "in_component n buf p cs w" "c \<noteq> 47" "c \<noteq> 0" "\<not> n - 1 \<le> p"
  shows "in_component n (buf[p := c]) (Suc p) cs (w @ [c])"
proof -
  have a: "list_all component cs" "take p buf = join cs @ 47 # w"
    "p = length (join cs) + 1 + length w" "47 \<notin> set w" "0 \<notin> set w" "p < n" "n \<le> length buf"
    using assms(1) unfolding in_component_def by blast+
  have "take (Suc p) (buf[p := c]) = join cs @ 47 # w @ [c]"
    using take_Suc_update [of p buf c] a(2,6,7) by simp
  then show ?thesis
    using a assms(2-4) unfolding in_component_def by auto
qed

lemma at_dir_slash:
  assumes "at_dir n buf p cs" "cs \<noteq> []" "\<not> n - 1 \<le> p"
  shows "in_component n (buf[p := 47]) (Suc p) cs []"
proof -
  have a: "list_all component cs" "take p buf = render cs" "p = length (render cs)"
    "p < n" "n \<le> length buf"
    using assms(1) unfolding at_dir_def by blast+
  have "take (Suc p) (buf[p := 47]) = join cs @ [47]"
    using take_Suc_update [of p buf 47] a(2,4,5) assms(2) by (simp add: render_simps)
  then show ?thesis
    using a assms(2,3) unfolding in_component_def by (auto simp add: render_simps)
qed

lemma at_dir_root: "at_dir n buf p [] \<Longrightarrow> in_component n buf p [] []"
  unfolding at_dir_def in_component_def by (auto simp add: render_simps)

lemma at_dir_update: "at_dir n buf q cs \<Longrightarrow> q \<le> i \<Longrightarrow> at_dir n (buf[i := c]) q cs"
  unfolding at_dir_def by auto

lemma at_dir_length: "at_dir n buf p cs \<Longrightarrow> length (render cs) < n \<and> list_all component cs"
  unfolding at_dir_def by auto

lemma first_run_unfold:
  assumes "0 \<notin> set path"
  shows "first_run n buf p path =
     (if path \<noteq> [] \<and> hd path = 47 then path_loop n buf p path
      else if path = [46] \<or> path = [46, 47] then term_path buf p
      else if path = [46, 46] \<or> path = [46, 46, 47] then
        (case back_to_slash buf p of
           Inl f \<Rightarrow> Inl f
         | Inr q \<Rightarrow> term_path buf (if q = 0 then q + 1 else q))
      else if take 3 path = [46, 46, 47] then
        (case back_to_slash buf p of
           Inl f \<Rightarrow> Inl f
         | Inr q \<Rightarrow>
             if length buf \<le> (if q = 0 then q + 1 else q) then Inl OutOfBounds
             else path_loop n (buf[(if q = 0 then q + 1 else q) := 0])
                    (if q = 0 then q + 1 else q) (drop 2 path))
      else if take 2 path = [46, 47] then path_loop n buf p (drop 1 path)
      else if p \<noteq> 1 \<and> (p = 0 \<or> length buf < p) then Inl OutOfBounds
      else if p \<noteq> 1 \<and> buf ! (p - 1) \<noteq> 47 then
        if p \<ge> n - 1 then Inr (False, buf)
        else if length buf \<le> p then Inl OutOfBounds
        else path_loop n (buf[p := 47]) (p + 1) path
      else path_loop n buf p path)"
proof -
  have d: "(deref path = 47) = (path \<noteq> [] \<and> hd path = 47)"
    by (cases path) simp_all
  show ?thesis
    by (subst first_run.simps) (simp only: strncmp_dot [OF assms] d of_char_eq_47)
qed

lemma path_loop_unfold:
  "path_loop n buf p [] = term_path buf p"
  "path_loop n buf p (47 # rest) = first_run n buf p rest"
  "c \<noteq> 47 \<Longrightarrow> c \<noteq> 0 \<Longrightarrow> path_loop n buf p (c # rest) =
     (if p \<ge> n - 1 then Inr (False, buf)
      else if length buf \<le> p then Inl OutOfBounds
      else path_loop n (buf[p := c]) (p + 1) rest)"
  by (subst path_loop.simps, simp)+

lemma in_component_done:
  assumes "in_component n buf p cs w" "w \<notin> {[46], [46, 46]}"
  shows "good n buf (term_path buf p)"
proof -
  have a: "list_all component cs" "p = length (join cs) + 1 + length w" "47 \<notin> set w"
    "0 \<notin> set w" "p < n"
    using assms(1) unfolding in_component_def by blast+
  have cw: "w = [] \<or> component w"
    using a(3,4) assms(2) by (auto simp add: component_simps)
  from term_path_in_component [OF assms(1) cw]
  obtain b' where b: "term_path buf p = Inr (True, b')"
    "c_string b' = render (if w = [] then cs else cs @ [w])" "kept n buf b'"
    by blast
  have "list_all component (if w = [] then cs else cs @ [w])"
    using a(1) cw by auto
  moreover have "length (render (if w = [] then cs else cs @ [w])) < n"
    using a(2,5) by (cases "cs = []") (auto simp add: render_simps)
  ultimately show ?thesis
    unfolding b(1) using b(2,3) by (intro good_true)
qed

lemma at_dir_done:
  assumes "at_dir n buf p cs"
  shows "good n buf (term_path buf p)"
proof -
  from term_path_at_dir [OF assms]
  obtain b' where b: "term_path buf p = Inr (True, b')" "c_string b' = render cs" "kept n buf b'"
    by blast
  show ?thesis
    unfolding b(1) using b(2,3) at_dir_length [OF assms] by (intro good_true) auto
qed

lemma path_loop_first_run_good:
  "loop_ready n buf p path \<Longrightarrow> 0 \<notin> set path \<Longrightarrow> good n buf (path_loop n buf p path)"
  "\<exists>cs. at_dir n buf p cs \<Longrightarrow> 0 \<notin> set path \<Longrightarrow> good n buf (first_run n buf p path)"
proof (induction n buf p path and n buf p path rule: path_loop_first_run.induct)
  case (1 n buf p path)
  note lr = "1.prems"(1) and z = "1.prems"(2)
  show ?case
  proof (cases path)
    case Nil
    then obtain cs w where "in_component n buf p cs w" "w \<notin> {[46], [46, 46]}"
      using lr by (auto simp add: loop_ready_def)
    then show ?thesis
      unfolding Nil path_loop_unfold by (rule in_component_done)
  next
    case (Cons c rest)
    have c0: "c \<noteq> 0" and zr: "0 \<notin> set rest"
      using z Cons by auto
    show ?thesis
    proof (cases "c = 47")
      case True
      have "\<exists>cs. at_dir n buf p cs"
      proof (cases "\<exists>cs. at_dir n buf p cs \<and> path \<noteq> [] \<and> hd path = 47")
        case True
        then show ?thesis
          by blast
      next
        case False
        then obtain cs w where w: "in_component n buf p cs w" "w \<noteq> []"
          "w \<notin> {[46], [46, 46]}"
          using lr Cons \<open>c = 47\<close> by (auto simp add: loop_ready_def)
        then show ?thesis
          using in_component_to_dir by blast
      qed
      then have "good n buf (first_run n buf p rest)"
        using "1.IH"(1) zr Cons True by simp
      then show ?thesis
        by (simp add: Cons True path_loop_unfold)
    next
      case False
      then obtain cs w where w: "in_component n buf p cs w"
        "w @ takeWhile (\<lambda>c. c \<noteq> 47) path \<notin> {[46], [46, 46]}"
        using lr Cons by (auto simp add: loop_ready_def)
      have pl: "p < n" "n \<le> length buf"
        using w(1) unfolding in_component_def by blast+
      show ?thesis
      proof (cases "n - 1 \<le> p")
        case True
        then show ?thesis
          using False c0 by (simp add: Cons path_loop_unfold good_false)
      next
        case nf: False
        have ic: "in_component n (buf[p := c]) (Suc p) cs (w @ [c])"
          using in_component_push [OF w(1) False c0 nf] .
        have "w @ [c] @ takeWhile (\<lambda>c. c \<noteq> 47) rest \<notin> {[46], [46, 46]}"
          using w(2) False Cons by simp
        then have "\<exists>cs v. in_component n (buf[p := c]) (Suc p) cs v \<and>
            (v = [] \<longrightarrow> rest = [] \<or> hd rest \<noteq> 47) \<and>
            v @ takeWhile (\<lambda>c. c \<noteq> 47) rest \<notin> {[46], [46, 46]}"
          using ic by (intro exI [of _ cs] exI [of _ "w @ [c]"]) simp
        then have "loop_ready n (buf[p := c]) (Suc p) rest"
          unfolding loop_ready_def by blast
        then have "good n (buf[p := c]) (path_loop n (buf[p := c]) (Suc p) rest)"
          using "1.IH"(2) zr Cons False c0 nf pl by simp
        then have "good n buf (path_loop n (buf[p := c]) (Suc p) rest)"
          using good_kept [OF kept_update [OF pl(1)]] by blast
        then show ?thesis
          using False c0 nf pl by (simp add: Cons path_loop_unfold)
      qed
    qed
  qed
next
  case (2 n buf p path)
  note z = "2.prems"(2)
  obtain cs where ad: "at_dir n buf p cs"
    using "2.prems"(1) by blast
  note l = at_dir_last [OF ad]
  have pl: "p < n" "n \<le> length buf"
    using ad unfolding at_dir_def by blast+
  note sp = strncmp_dot [OF z]
  have d: "(deref path = 47) = (path \<noteq> [] \<and> hd path = 47)"
    by (cases path) simp_all
  consider (slash) "path \<noteq> []" "hd path = 47"
    | (dot) "path = [46] \<or> path = [46, 47]"
    | (dotdot) "path = [46, 46] \<or> path = [46, 46, 47]"
    | (up) "take 3 path = [46, 46, 47]" "path \<noteq> [46, 46, 47]"
    | (skip) "take 2 path = [46, 47]" "path \<noteq> [46, 47]"
    | (name) "\<not> (path \<noteq> [] \<and> hd path = 47)" "path \<noteq> [46]" "take 2 path \<noteq> [46, 47]"
        "path \<noteq> [46, 46]" "take 3 path \<noteq> [46, 46, 47]"
    by (cases "take 2 path = [46, 47]"; cases "take 3 path = [46, 46, 47]") auto
  then show ?case
  proof cases
    case slash
    then have "loop_ready n buf p path"
      using ad by (auto simp add: loop_ready_def)
    then have "good n buf (path_loop n buf p path)"
      using "2.IH"(1) z slash d by simp
    then show ?thesis
      using slash by (simp add: first_run_unfold [OF z])
  next
    case dot
    then show ?thesis
      using at_dir_done [OF ad] by (auto simp add: first_run_unfold [OF z])
  next
    case dotdot
    from back_to_slash_at_dir [OF ad]
    obtain q cs' where q: "back_to_slash buf p = Inr q"
      "at_dir n buf (if q = 0 then q + 1 else q) cs'"
      by blast
    show ?thesis
      using dotdot at_dir_done [OF q(2)] q(1) by (auto simp add: first_run_unfold [OF z])
  next
    case up
    from back_to_slash_at_dir [OF ad]
    obtain q cs' where q: "back_to_slash buf p = Inr q"
      "at_dir n buf (if q = 0 then q + 1 else q) cs'"
      by blast
    define q' where "q' = (if q = 0 then q + 1 else q)"
    have ql: "q' < n" "q' < length buf"
      using q(2) unfolding at_dir_def q'_def by auto
    have dr: "drop 2 path = 47 # drop 3 path"
      using up(1) by (cases path; cases "tl path"; cases "tl (tl path)") auto
    have "at_dir n (buf[q' := 0]) q' cs'"
      using at_dir_update [OF q(2), of q' 0] by (simp add: q'_def)
    then have "loop_ready n (buf[q' := 0]) q' (drop 2 path)"
      unfolding loop_ready_def dr by auto
    moreover have "0 \<notin> set (drop 2 path)"
      using z by (auto dest: in_set_dropD)
    moreover have "deref path \<noteq> 47" "path \<noteq> [46]" "path \<noteq> [46, 47]" "path \<noteq> [46, 46]"
      using up by (cases path; auto)+
    ultimately have "good n (buf[q' := 0]) (path_loop n (buf[q' := 0]) q' (drop 2 path))"
      using "2.IH"(2) [of q] q(1) up ql by (simp add: sp q'_def)
    then have "good n buf (path_loop n (buf[q' := 0]) q' (drop 2 path))"
      using good_kept [OF kept_update [OF ql(1)]] by blast
    moreover have "first_run n buf p path = path_loop n (buf[q' := 0]) q' (drop 2 path)"
      using up q(1) ql \<open>deref path \<noteq> 47\<close> \<open>path \<noteq> [46]\<close> \<open>path \<noteq> [46, 47]\<close>
        \<open>path \<noteq> [46, 46]\<close>
      by (simp add: first_run_unfold [OF z] d [symmetric] q'_def)
    ultimately show ?thesis
      by simp
  next
    case skip
    have dr: "drop 1 path = 47 # drop 2 path"
      using skip(1) by (cases path; cases "tl path") auto
    have n3: "take 3 path \<noteq> [46, 46, 47]" "deref path \<noteq> 47" "path \<noteq> [46]"
      "path \<noteq> [46, 46]" "path \<noteq> [46, 46, 47]"
      using skip by (cases path; cases "tl path"; auto)+
    have "loop_ready n buf p (drop 1 path)"
      unfolding loop_ready_def dr using ad by auto
    moreover have "0 \<notin> set (drop 1 path)"
      using z by (auto dest: in_set_dropD)
    ultimately have "good n buf (path_loop n buf p (drop 1 path))"
      using "2.IH"(3) skip n3 by (simp add: sp)
    then show ?thesis
      using skip n3 by (simp add: first_run_unfold [OF z] d [symmetric])
  next
    case name
    note ns = not_special [OF z name(2-5)]
    have hd: "path = [] \<or> hd path \<noteq> 47" "deref path \<noteq> 47" "path \<noteq> [46, 47]"
      "path \<noteq> [46, 46, 47]"
      using name d by auto
    show ?thesis
    proof (cases "cs = []")
      case True
      then have p1: "p = 1"
        using l(4) by simp
      have "in_component n buf p [] []"
        using ad True by (simp add: at_dir_root)
      then have "\<exists>cs v. in_component n buf p cs v \<and>
            (v = [] \<longrightarrow> path = [] \<or> hd path \<noteq> 47) \<and>
            v @ takeWhile (\<lambda>c. c \<noteq> 47) path \<notin> {[46], [46, 46]}"
        using ns hd(1) by (intro exI [of _ "[]"]) simp
      then have "loop_ready n buf p path"
        unfolding loop_ready_def by blast
      then have "good n buf (path_loop n buf p path)"
        using "2.IH"(5) z name hd p1 by (simp add: sp)
      then show ?thesis
        using name hd p1 by (auto simp add: first_run_unfold [OF z])
    next
      case False
      then have p1: "p \<noteq> 1" "buf ! (p - 1) \<noteq> 47" "\<not> (p = 0 \<or> length buf < p)"
        using l by auto
      show ?thesis
      proof (cases "n - 1 \<le> p")
        case True
        then show ?thesis
          using name hd p1 by (auto simp add: first_run_unfold [OF z] good_false)
      next
        case nf: False
        have "in_component n (buf[p := 47]) (Suc p) cs []"
          using at_dir_slash [OF ad False nf] .
        then have "\<exists>cs v. in_component n (buf[p := 47]) (Suc p) cs v \<and>
            (v = [] \<longrightarrow> path = [] \<or> hd path \<noteq> 47) \<and>
            v @ takeWhile (\<lambda>c. c \<noteq> 47) path \<notin> {[46], [46, 46]}"
          using ns hd(1) by (intro exI [of _ cs] exI [of _ "[]"]) simp
        then have "loop_ready n (buf[p := 47]) (Suc p) path"
          unfolding loop_ready_def by blast
        then have "good n (buf[p := 47]) (path_loop n (buf[p := 47]) (Suc p) path)"
          using "2.IH"(4) z name hd p1 nf pl by (simp add: sp)
        then have "good n buf (path_loop n (buf[p := 47]) (Suc p) path)"
          using good_kept [OF kept_update [OF pl(1)]] by blast
        then show ?thesis
          using name hd p1 nf pl by (auto simp add: first_run_unfold [OF z])
      qed
    qed
  qed
qed

lemma kept_trans: "kept n a b \<Longrightarrow> kept n b c \<Longrightarrow> kept n a c"
  by (simp add: kept_def)

lemma path_loop_copy:
  assumes "in_component n buf p cs w" "47 \<notin> set v" "0 \<notin> set v" "p + length v < n"
  shows "\<exists>buf'. path_loop n buf p (v @ rest) = path_loop n buf' (p + length v) rest \<and>
           in_component n buf' (p + length v) cs (w @ v) \<and> kept n buf buf'"
  using assms
proof (induction v arbitrary: buf p w)
  case Nil
  then show ?case
    using kept_refl by auto
next
  case (Cons c v)
  have c: "c \<noteq> 47" "c \<noteq> 0" "\<not> n - 1 \<le> p" "p < n"
    using Cons.prems by auto
  have l: "\<not> length buf \<le> p"
    using Cons.prems(1) unfolding in_component_def by auto
  note ic = in_component_push [OF Cons.prems(1) c(1-3)]
  from Cons.IH [OF ic] Cons.prems
  obtain buf' where b: "path_loop n (buf[p := c]) (Suc p) (v @ rest)
      = path_loop n buf' (Suc p + length v) rest"
    "in_component n buf' (Suc p + length v) cs ((w @ [c]) @ v)" "kept n (buf[p := c]) buf'"
    by auto
  have "path_loop n buf p ((c # v) @ rest) = path_loop n buf' (p + length (c # v)) rest"
    using b(1) c l by (simp add: path_loop_unfold)
  moreover have "kept n buf buf'"
    using kept_trans [OF kept_update [OF c(4)] b(3)] .
  ultimately show ?case
    using b(2) by auto
qed

lemma takeWhile_component:
  "47 \<notin> set c \<Longrightarrow> takeWhile (\<lambda>x. x \<noteq> 47) (c @ join rest) = c"
  by (induction c) (cases rest; simp)+

lemma special_takeWhile:
  fixes path :: "u8 list"
  shows "path = [46] \<or> take 2 path = [46, 47] \<Longrightarrow> takeWhile (\<lambda>x. x \<noteq> 47) path = [46]"
    and "path = [46, 46] \<or> take 3 path = [46, 46, 47]
      \<Longrightarrow> takeWhile (\<lambda>x. x \<noteq> 47) path = [46, 46]"
proof -
  obtain a b c r where
    p: "path = [] \<or> path = [a] \<or> path = [a, b] \<or> path = a # b # c # r"
    by (cases path; cases "tl path"; cases "tl (tl path)") auto
  show "path = [46] \<or> take 2 path = [46, 47] \<Longrightarrow> takeWhile (\<lambda>x. x \<noteq> 47) path = [46]"
    using p by auto
  show "path = [46, 46] \<or> take 3 path = [46, 46, 47]
      \<Longrightarrow> takeWhile (\<lambda>x. x \<noteq> 47) path = [46, 46]"
    using p by auto
qed

lemma first_run_name:
  assumes ad: "at_dir n buf p dn" and c: "component c" and r: "list_all component rest"
    and l: "length (join dn) + 1 + length c < n"
  shows "\<exists>buf1. first_run n buf p (c @ join rest)
             = path_loop n buf1 (length (join dn) + 1) (c @ join rest) \<and>
           in_component n buf1 (length (join dn) + 1) dn [] \<and> kept n buf buf1"
proof -
  define path where "path = c @ join rest"
  have c': "c \<noteq> []" "47 \<notin> set c" "0 \<notin> set c" "c \<noteq> [46]" "c \<noteq> [46, 46]"
    using c by (simp_all add: component_simps)
  have z: "0 \<notin> set path"
    using c'(3) zero_notin_join [OF r] by (simp add: path_def)
  have tw: "takeWhile (\<lambda>x. x \<noteq> 47) path = c"
    unfolding path_def using c'(2) by (rule takeWhile_component)
  have n1: "\<not> (path = [46] \<or> take 2 path = [46, 47])"
    "\<not> (path = [46, 46] \<or> take 3 path = [46, 46, 47])"
    using special_takeWhile [of path] tw c'(4,5) by auto
  have n2: "path \<noteq> [46, 47]" "path \<noteq> [46, 46, 47]"
    using n1 by auto
  have h: "\<not> (path \<noteq> [] \<and> hd path = 47)"
    using c'(1,2) by (cases c) (auto simp add: path_def)
  note lst = at_dir_last [OF ad]
  have pl: "p < n" "n \<le> length buf" "p = length (render dn)"
    using ad unfolding at_dir_def by blast+
  show ?thesis
  proof (cases "dn = []")
    case True
    then have p1: "p = 1"
      using lst(4) by simp
    have "first_run n buf p path = path_loop n buf p path"
      using n1 n2 h p1 by (auto simp add: first_run_unfold [OF z])
    then show ?thesis
      using at_dir_root [of n buf p] ad True p1 kept_refl [of n buf]
      by (auto simp add: path_def)
  next
    case False
    then have p1: "p \<noteq> 1" "buf ! (p - 1) \<noteq> 47" "\<not> (p = 0 \<or> length buf < p)"
      using lst by auto
    have pj: "p = length (join dn)"
      using pl(3) False by (simp add: render_simps)
    have nf: "\<not> n - 1 \<le> p"
      using l pj by simp
    have "first_run n buf p path = path_loop n (buf[p := 47]) (Suc p) path"
      using n1 n2 h p1 nf pl by (auto simp add: first_run_unfold [OF z])
    then show ?thesis
      using at_dir_slash [OF ad False nf] kept_update [OF pl(1), of buf 47] pj
      by (auto simp add: path_def)
  qed
qed

lemma first_run_exact:
  assumes "at_dir n buf p dn" "component c" "list_all component rest"
    and "length (render (dn @ c # rest)) < n"
  shows "\<exists>b'. first_run n buf p (c @ join rest) = Inr (True, b') \<and>
           c_string b' = render (dn @ c # rest) \<and> kept n buf b'"
  using assms
proof (induction rest arbitrary: buf p dn c)
  case Nil
  have l: "length (join dn) + 1 + length c < n"
    using Nil.prems(4) by (simp add: render_simps)
  from first_run_name [OF Nil.prems(1,2) _ l, of "[]"]
  obtain buf1 where b1: "first_run n buf p c = path_loop n buf1 (length (join dn) + 1) c"
    "in_component n buf1 (length (join dn) + 1) dn []" "kept n buf buf1"
    by auto
  have c': "47 \<notin> set c" "0 \<notin> set c"
    using Nil.prems(2) by (simp_all add: component_simps)
  from path_loop_copy [OF b1(2) c', of "[]"] l
  obtain buf2 where b2: "path_loop n buf1 (length (join dn) + 1) c
      = path_loop n buf2 (length (join dn) + 1 + length c) []"
    "in_component n buf2 (length (join dn) + 1 + length c) dn c" "kept n buf1 buf2"
    by auto
  from term_path_in_component [OF b2(2)] Nil.prems(2)
  obtain b' where b': "term_path buf2 (length (join dn) + 1 + length c) = Inr (True, b')"
    "c_string b' = render (dn @ [c])" "kept n buf2 b'"
    by (auto simp add: component_simps)
  show ?case
    using b1(1) b2(1) b' kept_trans [OF kept_trans [OF b1(3) b2(3)] b'(3)]
    by (simp add: path_loop_unfold)
next
  case (Cons c2 rest)
  have l: "length (join dn) + 1 + length c < n"
    using Cons.prems(4) by (simp add: render_simps)
  from first_run_name [OF Cons.prems(1,2,3) l]
  obtain buf1 where b1: "first_run n buf p (c @ join (c2 # rest))
      = path_loop n buf1 (length (join dn) + 1) (c @ join (c2 # rest))"
    "in_component n buf1 (length (join dn) + 1) dn []" "kept n buf buf1"
    by auto
  have c': "47 \<notin> set c" "0 \<notin> set c" "c \<noteq> []" "c \<notin> {[46], [46, 46]}"
    using Cons.prems(2) by (simp_all add: component_simps)
  from path_loop_copy [OF b1(2) c'(1,2), of "join (c2 # rest)"] l
  obtain buf2 where b2: "path_loop n buf1 (length (join dn) + 1) (c @ join (c2 # rest))
      = path_loop n buf2 (length (join dn) + 1 + length c) (join (c2 # rest))"
    "in_component n buf2 (length (join dn) + 1 + length c) dn c" "kept n buf1 buf2"
    by auto
  have ad: "at_dir n buf2 (length (join dn) + 1 + length c) (dn @ [c])"
    using in_component_to_dir [OF b2(2) c'(3,4)] .
  have "length (render ((dn @ [c]) @ c2 # rest)) < n"
    using Cons.prems(4) by simp
  from Cons.IH [OF ad _ _ this] Cons.prems(3)
  obtain b' where b': "first_run n buf2 (length (join dn) + 1 + length c) (c2 @ join rest)
      = Inr (True, b')" "c_string b' = render ((dn @ [c]) @ c2 # rest)" "kept n buf2 b'"
    by auto
  show ?case
    using b1(1) b2(1) b' kept_trans [OF kept_trans [OF b1(3) b2(3)] b'(3)]
    by (simp add: path_loop_unfold)
qed

lemma get_absolute_path_fixed:
  assumes "list_all component cs" "length (render cs) < n" "n \<le> length buf"
  shows "\<exists>b'. get_absolute_path buf (render cs) pwd n = Inr (True, b') \<and>
           c_string b' = render cs"
proof -
  define b where "b = buf[0 := 47]"
  have cs: "c_string (render cs) = render cs"
    using zero_notin_render [OF assms(1)] by (rule c_string_id)
  have h: "deref (render cs) = 47" "render cs \<noteq> []"
    by (cases cs; simp add: render_simps)+
  have n: "1 < n" "n \<noteq> 0" "length buf \<noteq> 0"
    using assms(2,3) h(2) by (cases "render cs"; auto)+
  have g: "get_absolute_path buf (render cs) pwd n = first_run n b 1 (tl (render cs))"
    using h n by (simp add: get_absolute_path_def cs b_def)
  have ad: "at_dir n b 1 []"
    using n assms(3) by (cases buf) (auto simp add: at_dir_def b_def render_simps)
  show ?thesis
  proof (cases cs)
    case Nil
    have "first_run n b 1 [] = term_path b 1"
      by (simp add: first_run_unfold path_loop_unfold)
    then show ?thesis
      unfolding g using term_path_at_dir [OF ad] by (auto simp add: Nil render_simps)
  next
    case (Cons c rest)
    have "length (render ([] @ c # rest)) < n"
      using assms(2) Cons by simp
    from first_run_exact [OF ad _ _ this] assms(1) Cons
    show ?thesis
      unfolding g by (auto simp add: render_simps)
  qed
qed

lemma kept_memcpy:
  assumes "length xs \<le> n" "n \<le> length buf"
  shows "kept n buf (xs @ drop (length xs) buf)"
  using assms by (simp add: kept_def)

lemma get_absolute_path_good:
  assumes "n \<noteq> 1" "n \<le> length buf"
    and "(c_string path \<noteq> [] \<and> hd (c_string path) = 47) \<or> canonical (c_string pwd)"
  shows "good n buf (get_absolute_path buf path pwd n)"
proof (cases "n = 0")
  case True
  then show ?thesis
    by (simp add: get_absolute_path_def good_false)
next
  case False
  define s where "s = c_string path"
  define k where "k = strlen pwd"
  have z: "0 \<notin> set s"
    unfolding s_def by (rule c_string_no_zero)
  have d0: "(deref s = 0) = (s = [])"
    using z by (rule deref_eq_0)
  show ?thesis
  proof (cases "s \<noteq> [] \<and> hd s = 47")
    case True
    then have d: "deref s = 47"
      by (cases s) simp_all
    have n: "1 < n" "0 < length buf"
      using False assms(1,2) by (auto simp del: length_greater_0_conv)
    have ad: "at_dir n (buf[0 := 47]) 1 []"
      using n assms(2) by (cases buf) (auto simp add: at_dir_def render_simps)
    have "0 \<notin> set (tl s)"
      using z True by (cases s) auto
    from path_loop_first_run_good(2) [OF _ this, of n "buf[0 := 47]" 1] ad
    have "good n (buf[0 := 47]) (first_run n (buf[0 := 47]) 1 (tl s))"
      by blast
    then have "good n buf (first_run n (buf[0 := 47]) 1 (tl s))"
      using good_kept [OF kept_update, of 0 n buf 47] n by simp
    then show ?thesis
      using False d n by (simp add: get_absolute_path_def s_def [symmetric])
  next
    case rel: False
    then obtain cs where cs: "list_all component cs" "c_string pwd = render cs"
      using assms(3) by (auto simp add: canonical_def s_def)
    have dn: "deref s \<noteq> 47 \<or> s = []"
      using rel by (cases s) auto
    show ?thesis
    proof (cases "n \<le> k")
      case True
      then show ?thesis
        using False dn d0
        by (auto simp add: get_absolute_path_def s_def [symmetric] k_def [symmetric] good_false)
    next
      case fits: False
      define b1 where "b1 = (c_string pwd @ [0]) @ drop (length (c_string pwd @ [0])) buf"
      have m: "memcpy buf (c_string pwd @ [0]) = Inr b1"
        using fits assms(2) by (simp add: memcpy_def b1_def k_def strlen_def)
      have kp: "kept n buf b1"
        unfolding b1_def using fits assms(2)
        by (intro kept_memcpy) (simp_all add: k_def strlen_def)
      have cb: "c_string b1 = render cs"
        using c_string_append_zero [of "c_string pwd"] zero_notin_render [OF cs(1)]
        by (simp add: b1_def cs(2))
      have lk: "length (render cs) = k"
        by (simp add: k_def strlen_def cs(2))
      have ad: "at_dir n b1 k cs"
        using cs(1) fits assms(2) lk kp
        by (simp add: at_dir_def b1_def cs(2) kept_def)
      show ?thesis
      proof (cases "s = []")
        case True
        have "good n buf (Inr (True, b1))"
          using kp cb cs(1) lk fits by (intro good_true) auto
        then show ?thesis
          using False fits True m
          by (simp add: get_absolute_path_def s_def [symmetric] k_def [symmetric])
      next
        case ne: False
        from path_loop_first_run_good(2) [OF _ z, of n b1 k] ad
        have "good n b1 (first_run n b1 k s)"
          by blast
        then have "good n buf (first_run n b1 k s)"
          using good_kept [OF kp] by blast
        then show ?thesis
          using False fits ne m dn d0
          by (simp add: get_absolute_path_def s_def [symmetric] k_def [symmetric])
      qed
    qed
  qed
qed

text \<open>Calls on concrete arguments.\<close>

lemma relative_call:
  "get_absolute_path (replicate 16 0xAA) (cstr ''x/./y//z/../..'') (cstr ''/p/q'') 16
     = Inr (True, [47, 112, 47, 113, 47, 120, 0, 121, 0, 122, 170, 170, 170, 170, 170, 170])"
  by code_simp

lemma trailing_slash_calls:
  "get_absolute_path (replicate 16 0) (cstr '''') (cstr ''/a/'') 16
     = Inr (True, cstr ''/a/'' @ replicate 13 0)"
  "get_absolute_path (replicate 16 0) (cstr ''/a/'') (cstr ''/a/'') 16
     = Inr (True, cstr ''/a'' @ replicate 14 0)"
  "c_string (cstr ''/a/'' @ replicate 13 0) = cstr ''/a/''"
  "c_string (cstr ''/a'' @ replicate 14 0) = cstr ''/a''"
  by code_simp+

lemma size_one_call:
  "get_absolute_path [0xAA, 0xAA] (cstr ''/'') (cstr ''/'') 1 = Inr (True, [47, 0])"
  by code_simp

section \<open>Claims about path canonicalisation\<close>

text \<open>
  C8, amended. For a size other than 1, a buffer of at least that size, and a path that
  is absolute or a working directory that is canonical: \<^verbatim>\<open>get_absolute_path\<close> returns, leaves
  every byte from index \<open>size\<close> on as it was, and when it returns true the string in the
  buffer is canonical, shorter than \<open>size\<close>, and a fixed point: the call on that string, with
  the same working directory and any buffer of that size, returns true with the same string.
\<close>

theorem get_absolute_path_idempotent:
  assumes "n \<noteq> 1" "n \<le> length buf"
    and "(c_string path \<noteq> [] \<and> hd (c_string path) = 47) \<or> canonical (c_string pwd)"
  shows "\<exists>ok buf'. get_absolute_path buf path pwd n = Inr (ok, buf') \<and>
           length buf' = length buf \<and> drop n buf' = drop n buf \<and>
           (ok \<longrightarrow> canonical (c_string buf') \<and> length (c_string buf') < n \<and>
              (\<forall>buf2. n \<le> length buf2 \<longrightarrow>
                 (\<exists>buf''. get_absolute_path buf2 (c_string buf') pwd n = Inr (True, buf'') \<and>
                    c_string buf'' = c_string buf')))"
proof -
  from get_absolute_path_good [OF assms]
  obtain ok buf' where r: "get_absolute_path buf path pwd n = Inr (ok, buf')"
    "kept n buf buf'" "ok \<longrightarrow> canonical (c_string buf') \<and> length (c_string buf') < n"
    unfolding good_def by blast
  have "\<exists>buf''. get_absolute_path buf2 (c_string buf') pwd n = Inr (True, buf'') \<and>
                    c_string buf'' = c_string buf'"
    if ok: "ok" and len: "n \<le> length buf2" for buf2
  proof -
    obtain cs where cs: "list_all component cs" "c_string buf' = render cs"
      using r(3) ok by (auto simp add: canonical_def)
    have "length (render cs) < n"
      using r(3) ok cs(2) by simp
    from get_absolute_path_fixed [OF cs(1) this len, of pwd]
    show ?thesis
      by (simp add: cs(2))
  qed
  then show ?thesis
    using r by (auto simp add: kept_def)
qed

text \<open>
  C8 on the path \<^verbatim>\<open>x/./y//z/../..\<close> in the directory \<^verbatim>\<open>/p/q\<close> with 16 bytes: the result is
  \<^verbatim>\<open>/p/q/x\<close>, and so is the result of the call on \<^verbatim>\<open>/p/q/x\<close>.
\<close>

theorem get_absolute_path_idempotent_witness:
  "(16 :: nat) \<noteq> 1 \<and> 16 \<le> length (replicate 16 (0xAA :: u8)) \<and>
   canonical (c_string (cstr ''/p/q'')) \<and>
   (\<exists>buf' buf''.
      get_absolute_path (replicate 16 0xAA) (cstr ''x/./y//z/../..'') (cstr ''/p/q'') 16
        = Inr (True, buf') \<and>
      c_string buf' = cstr ''/p/q/x'' \<and>
      get_absolute_path (replicate 16 0x2F) (cstr ''/p/q/x'') (cstr ''/p/q'') 16
        = Inr (True, buf'') \<and>
      c_string buf'' = cstr ''/p/q/x'')"
proof -
  have c: "canonical (c_string (cstr ''/p/q''))"
    unfolding canonical_def
    by (intro exI [of _ "[cstr ''p'', cstr ''q'']"])
      (simp add: component_simps render_simps cstr_def c_string_def)
  have l: "(16 :: nat) \<noteq> 1" "16 \<le> length (replicate 16 (0xAA :: u8))"
    by simp_all
  define out :: "u8 list" where
    "out = [47, 112, 47, 113, 47, 120, 0, 121, 0, 122, 170, 170, 170, 170, 170, 170]"
  have o: "c_string out = cstr ''/p/q/x''"
    by (simp add: out_def c_string_def cstr_def)
  from get_absolute_path_idempotent [OF l, of "cstr ''x/./y//z/../..''" "cstr ''/p/q''"] c
  obtain ok buf' where r:
    "get_absolute_path (replicate 16 0xAA) (cstr ''x/./y//z/../..'') (cstr ''/p/q'') 16
       = Inr (ok, buf')"
    "ok \<longrightarrow> (\<forall>buf2. 16 \<le> length buf2 \<longrightarrow>
          (\<exists>buf''. get_absolute_path buf2 (c_string buf') (cstr ''/p/q'') 16 = Inr (True, buf'') \<and>
             c_string buf'' = c_string buf'))"
    by blast
  have e: "ok" "buf' = out"
    using r(1) by (simp_all add: relative_call out_def)
  have "\<exists>buf''. get_absolute_path (replicate 16 0x2F) (c_string out) (cstr ''/p/q'') 16
        = Inr (True, buf'') \<and> c_string buf'' = c_string out"
    using r(2) e by simp
  then show ?thesis
    using c relative_call o by (auto simp add: out_def [symmetric])
qed

text \<open>
  C8 as stated fails: with the working directory \<^verbatim>\<open>/a/\<close> the empty path gives \<^verbatim>\<open>/a/\<close>, and
  the call on \<^verbatim>\<open>/a/\<close> gives \<^verbatim>\<open>/a\<close>.
\<close>

theorem get_absolute_path_pwd_counterexample:
  "get_absolute_path (replicate 16 0) (cstr '''') (cstr ''/a/'') 16
     = Inr (True, cstr ''/a/'' @ replicate 13 0) \<and>
   c_string (cstr ''/a/'' @ replicate 13 0) = cstr ''/a/'' \<and>
   get_absolute_path (replicate 16 0) (cstr ''/a/'') (cstr ''/a/'') 16
     = Inr (True, cstr ''/a'' @ replicate 14 0) \<and>
   c_string (cstr ''/a'' @ replicate 14 0) = cstr ''/a'' \<and>
   cstr ''/a'' \<noteq> cstr ''/a/''"
  using trailing_slash_calls by (simp add: cstr_def)

end
